(* ===== verification/Go_Prelude.thy ===== *)
theory Go_Prelude
  imports Main "HOL-Library.Sublist"
begin

text \<open>
  The shared vocabulary of the development: Go strings (byte lists), the functions of the
  packages \<open>strings\<close>, \<open>net/textproto\<close> and \<open>strconv\<close> that the modelled sources call,
  64-bit wrap-around, and the generic list lemmas the component theories use.

  A Go string is a \<^typ>\<open>string\<close>, that is a list of bytes. An index result of \<open>-1\<close> is \<open>None\<close>.
\<close>

named_theorems path_simps \<open>unfolding and rewriting of cleaned paths\<close>
named_theorems parse_simps \<open>evaluation of the string parsers\<close>

section \<open>Results\<close>

text \<open>A Go pair \<open>(value, error)\<close> of which exactly one is set is a sum: \<open>Inl\<close> the error.\<close>

definition bind_res :: "'e + 'a \<Rightarrow> ('a \<Rightarrow> 'e + 'b) \<Rightarrow> 'e + 'b" where
  "bind_res r f = (case r of Inl e \<Rightarrow> Inl e | Inr a \<Rightarrow> f a)"

lemma bind_res_simps [simp]:
  "bind_res (Inl e) f = Inl e"
  "bind_res (Inr a) f = f a"
  by (simp_all add: bind_res_def)

lemma bind_res_Inr_iff: "bind_res r f = Inr b \<longleftrightarrow> (\<exists>a. r = Inr a \<and> f a = Inr b)"
  by (cases r) auto

lemma bind_res_Inl_iff: "bind_res r f = Inl e \<longleftrightarrow> r = Inl e \<or> (\<exists>a. r = Inr a \<and> f a = Inl e)"
  by (cases r) auto

section \<open>Machine integers\<close>

definition wrap64 :: "int \<Rightarrow> int" where
  "wrap64 x = (x + 2 ^ 63) mod 2 ^ 64 - 2 ^ 63"

definition int64_range :: "int \<Rightarrow> bool" where
  "int64_range x \<longleftrightarrow> - (2 ^ 63) \<le> x \<and> x < 2 ^ 63"

lemma wrap64_range: "int64_range (wrap64 x)"
proof -
  have "0 \<le> (x + 2 ^ 63) mod 2 ^ 64" "(x + 2 ^ 63) mod 2 ^ 64 < 2 ^ 64"
    by simp_all
  then show ?thesis by (simp add: wrap64_def int64_range_def)
qed

lemma wrap64_id: "int64_range x \<Longrightarrow> wrap64 x = x"
  by (simp add: wrap64_def int64_range_def)

lemma wrap64_add: "wrap64 (wrap64 a + b) = wrap64 (a + b)"
proof -
  have "(wrap64 a + b + 2 ^ 63) = (a + 2 ^ 63) mod 2 ^ 64 + b" by (simp add: wrap64_def)
  moreover have "((a + 2 ^ 63) mod 2 ^ 64 + b) mod 2 ^ 64 = (a + 2 ^ 63 + b) mod 2 ^ 64"
    by (rule mod_add_left_eq)
  moreover have "a + 2 ^ 63 + b = a + b + 2 ^ 63" by simp
  ultimately show ?thesis by (simp only: wrap64_def [of "wrap64 a + b"] wrap64_def [of "a + b"])
qed

text \<open>Go's \<open>/\<close> and \<open>%\<close> truncate towards zero.\<close>

definition go_div :: "int \<Rightarrow> int \<Rightarrow> int" where
  "go_div a b = sgn a * sgn b * (\<bar>a\<bar> div \<bar>b\<bar>)"

definition go_mod :: "int \<Rightarrow> int \<Rightarrow> int" where
  "go_mod a b = a - b * go_div a b"

lemma go_div_nonneg: "0 \<le> a \<Longrightarrow> 0 < b \<Longrightarrow> go_div a b = a div b"
  by (cases "a = 0") (simp_all add: go_div_def)

lemma go_mod_nonneg: "0 \<le> a \<Longrightarrow> 0 < b \<Longrightarrow> go_mod a b = a mod b"
  by (simp add: go_mod_def go_div_nonneg minus_mult_div_eq_mod)

section \<open>Package strings\<close>

definition has_prefix :: "string \<Rightarrow> string \<Rightarrow> bool" where
  "has_prefix s p \<longleftrightarrow> prefix p s"

definition has_suffix :: "string \<Rightarrow> string \<Rightarrow> bool" where
  "has_suffix s p \<longleftrightarrow> suffix p s"

definition trim_prefix :: "string \<Rightarrow> string \<Rightarrow> string" where
  "trim_prefix s p = (if prefix p s then drop (length p) s else s)"

definition trim_suffix :: "string \<Rightarrow> string \<Rightarrow> string" where
  "trim_suffix s p = (if suffix p s then take (length s - length p) s else s)"

text \<open>\<open>strings.Index\<close>: the first occurrence of \<open>sub\<close>.\<close>

fun index_str :: "string \<Rightarrow> string \<Rightarrow> nat option" where
  "index_str sub [] = (if sub = [] then Some 0 else None)"
| "index_str sub (c # cs) =
     (if prefix sub (c # cs) then Some 0 else map_option Suc (index_str sub cs))"

text \<open>\<open>strings.LastIndex\<close>: the last occurrence of \<open>sub\<close>.\<close>

fun last_index_str :: "string \<Rightarrow> string \<Rightarrow> nat option" where
  "last_index_str sub [] = (if sub = [] then Some 0 else None)"
| "last_index_str sub (c # cs) =
     (case last_index_str sub cs of
        Some i \<Rightarrow> Some (Suc i)
      | None \<Rightarrow> if prefix sub (c # cs) then Some 0 else None)"

definition contains :: "string \<Rightarrow> string \<Rightarrow> bool" where
  "contains s sub \<longleftrightarrow> index_str sub s \<noteq> None"

text \<open>\<open>strings.Split\<close> with a one-byte separator, \<open>strings.Join\<close>, \<open>strings.Cut\<close>.\<close>

fun split_on :: "'a \<Rightarrow> 'a list \<Rightarrow> 'a list list" where
  "split_on c [] = [[]]"
| "split_on c (x # xs) =
     (if x = c then [] # split_on c xs
      else (case split_on c xs of [] \<Rightarrow> [[x]] | y # ys \<Rightarrow> (x # y) # ys))"

fun join_with :: "'a list \<Rightarrow> 'a list list \<Rightarrow> 'a list" where
  "join_with sep [] = []"
| "join_with sep [x] = x"
| "join_with sep (x # y # ys) = x @ sep @ join_with sep (y # ys)"

fun cut_at :: "char \<Rightarrow> string \<Rightarrow> string \<times> string \<times> bool" where
  "cut_at c [] = ([], [], False)"
| "cut_at c (x # xs) =
     (if x = c then ([], xs, True)
      else (case cut_at c xs of (b, a, ok) \<Rightarrow> (x # b, a, ok)))"

text \<open>\<open>strings.Replace(s, old, new, 1)\<close> for a non-empty \<open>old\<close>.\<close>

fun replace_first :: "string \<Rightarrow> string \<Rightarrow> string \<Rightarrow> string" where
  "replace_first old new [] = []"
| "replace_first old new (c # cs) =
     (if prefix old (c # cs) then new @ drop (length old) (c # cs)
      else c # replace_first old new cs)"

text \<open>\<open>strings.ReplaceAll\<close> of a one-byte pattern.\<close>

definition replace_byte :: "char \<Rightarrow> string \<Rightarrow> string \<Rightarrow> string" where
  "replace_byte c new s = concat (map (\<lambda>x. if x = c then new else [x]) s)"

text \<open>\<open>strings.TrimSpace\<close> removes the UTF-8 encodings of the white space runes at both ends.\<close>

definition space_runes :: "string list" where
  "space_runes =
     [[CHR 0x09], [CHR 0x0A], [CHR 0x0B], [CHR 0x0C], [CHR 0x0D], [CHR 0x20],
      [CHR 0xC2, CHR 0x85], [CHR 0xC2, CHR 0xA0], [CHR 0xE1, CHR 0x9A, CHR 0x80]]
     @ map (\<lambda>b. [CHR 0xE2, CHR 0x80, b])
         [CHR 0x80, CHR 0x81, CHR 0x82, CHR 0x83, CHR 0x84, CHR 0x85, CHR 0x86, CHR 0x87,
          CHR 0x88, CHR 0x89, CHR 0x8A, CHR 0xA8, CHR 0xA9, CHR 0xAF]
     @ [[CHR 0xE2, CHR 0x81, CHR 0x9F], [CHR 0xE3, CHR 0x80, CHR 0x80]]"

text \<open>Drop a leading element of \<open>seqs\<close>, at most \<open>n\<close> times; each drop removes a byte or more,
  so the length of the string is enough.\<close>

fun trim_left_seqs :: "nat \<Rightarrow> string list \<Rightarrow> string \<Rightarrow> string" where
  "trim_left_seqs 0 seqs s = s"
| "trim_left_seqs (Suc n) seqs s =
     (case find (\<lambda>q. prefix q s) seqs of
        None \<Rightarrow> s
      | Some q \<Rightarrow> trim_left_seqs n seqs (drop (length q) s))"

definition trim_space :: "string \<Rightarrow> string" where
  "trim_space s =
     (let l = trim_left_seqs (length s) space_runes s
      in rev (trim_left_seqs (length l) (map rev space_runes) (rev l)))"

text \<open>\<open>textproto.TrimString\<close> removes ASCII space, tab, newline and carriage return.\<close>

definition is_ascii_space :: "char \<Rightarrow> bool" where
  "is_ascii_space c \<longleftrightarrow> c = CHR '' '' \<or> c = CHR 0x09 \<or> c = CHR 0x0A \<or> c = CHR 0x0D"

definition trim_string :: "string \<Rightarrow> string" where
  "trim_string s = rev (dropWhile is_ascii_space (rev (dropWhile is_ascii_space s)))"

section \<open>Package strconv\<close>

datatype num_error = ErrSyntax | ErrRange

definition is_digit :: "char \<Rightarrow> bool" where
  "is_digit c \<longleftrightarrow> 48 \<le> (of_char c :: int) \<and> (of_char c :: int) \<le> 57"

definition digit_val :: "char \<Rightarrow> int" where
  "digit_val c = of_char c - 48"

text \<open>\<open>strconv.ParseUint(s, 10, 64)\<close>: the first byte that is no digit is a syntax error, the
  first digit that overflows a range error with the largest value.\<close>

fun parse_uint_loop :: "int \<Rightarrow> string \<Rightarrow> int \<times> num_error option" where
  "parse_uint_loop n [] = (n, None)"
| "parse_uint_loop n (c # cs) =
     (if \<not> is_digit c then (0, Some ErrSyntax)
      else if 2 ^ 64 \<le> 10 * n + digit_val c then (2 ^ 64 - 1, Some ErrRange)
      else parse_uint_loop (10 * n + digit_val c) cs)"

definition ParseUint :: "string \<Rightarrow> int \<times> num_error option" where
  "ParseUint s = (if s = [] then (0, Some ErrSyntax) else parse_uint_loop 0 s)"

text \<open>\<open>strconv.ParseInt(s, 10, 64)\<close>.\<close>

definition ParseInt :: "string \<Rightarrow> int \<times> num_error option" where
  "ParseInt s =
     (let neg = (case s of c # _ \<Rightarrow> c = CHR ''-'' | [] \<Rightarrow> False);
          body = (case s of c # cs \<Rightarrow> if c = CHR ''-'' \<or> c = CHR ''+'' then cs else s | [] \<Rightarrow> s)
      in case ParseUint body of (un, err) \<Rightarrow>
           if err = Some ErrSyntax then (0, Some ErrSyntax)
           else if \<not> neg \<and> 2 ^ 63 \<le> un then (2 ^ 63 - 1, Some ErrRange)
           else if neg \<and> 2 ^ 63 < un then (- (2 ^ 63), Some ErrRange)
           else (if neg then - un else un, err))"

text \<open>The value when there is no error.\<close>

definition parse_int :: "string \<Rightarrow> int option" where
  "parse_int s = (case ParseInt s of (i, None) \<Rightarrow> Some i | (_, Some _) \<Rightarrow> None)"

text \<open>\<open>strconv.FormatInt(i, 10)\<close> and \<open>FormatUint\<close>, also what \<open>%d\<close> prints.\<close>

fun format_nat :: "nat \<Rightarrow> string" where
  "format_nat n =
     (if n < 10 then [char_of (n + 48)] else format_nat (n div 10) @ [char_of (n mod 10 + 48)])"

declare format_nat.simps [simp del]

definition format_int :: "int \<Rightarrow> string" where
  "format_int i = (if i < 0 then CHR ''-'' # format_nat (nat (- i)) else format_nat (nat i))"

section \<open>Lemmas on strings\<close>

lemma has_prefix_append [simp]: "has_prefix (p @ s) p"
  by (simp add: has_prefix_def)

lemma has_prefixE:
  assumes "has_prefix s p" obtains t where "s = p @ t"
  using assms by (auto simp: has_prefix_def prefix_def)

lemma trim_prefix_append [simp]: "trim_prefix (p @ s) p = s"
  by (simp add: trim_prefix_def)

lemma trim_suffix_append [simp]: "trim_suffix (s @ p) p = s"
  by (simp add: trim_suffix_def suffix_def)

lemma index_str_append: "c \<notin> set a \<Longrightarrow> index_str [c] (a @ c # b) = Some (length a)"
  by (induction a) auto

lemma index_str_absent: "c \<notin> set a \<Longrightarrow> index_str [c] a = None"
  by (induction a) auto

lemma index_str_Some:
  "index_str sub s = Some i \<Longrightarrow> i + length sub \<le> length s \<and> prefix sub (drop i s)"
proof (induction s arbitrary: i)
  case Nil
  then show ?case by (auto split: if_splits)
next
  case (Cons c cs)
  then show ?case
    by (cases i) (auto split: if_splits dest: prefix_length_le)
qed

lemma index_str_None: "index_str sub s = None \<Longrightarrow> \<not> prefix sub (drop i s)"
proof (induction s arbitrary: i)
  case Nil
  then show ?case by (auto split: if_splits)
next
  case (Cons c cs)
  then show ?case by (cases i) (auto split: if_splits)
qed

lemma contains_iff: "contains s sub \<longleftrightarrow> (\<exists>a b. s = a @ sub @ b)"
proof
  assume "contains s sub"
  then obtain i where "index_str sub s = Some i" by (auto simp: contains_def)
  then have "prefix sub (drop i s)" using index_str_Some by blast
  then obtain b where "drop i s = sub @ b" by (auto simp: prefix_def)
  then have "s = take i s @ sub @ b" by (metis append_take_drop_id)
  then show "\<exists>a b. s = a @ sub @ b" by blast
next
  assume "\<exists>a b. s = a @ sub @ b"
  then obtain a b where s: "s = a @ sub @ b" by blast
  then have "prefix sub (drop (length a) s)" by simp
  then show "contains s sub" using index_str_None by (auto simp: contains_def)
qed

lemma last_index_str_Some:
  "last_index_str sub s = Some i \<Longrightarrow> i + length sub \<le> length s \<and> prefix sub (drop i s)"
proof (induction s arbitrary: i)
  case Nil
  then show ?case by (auto split: if_splits)
next
  case (Cons c cs)
  then show ?case
    by (cases i) (auto split: if_splits option.splits dest: prefix_length_le)
qed

lemma last_index_str_None: "last_index_str sub s = None \<Longrightarrow> \<not> prefix sub (drop i s)"
proof (induction s arbitrary: i)
  case Nil
  then show ?case by (auto split: if_splits)
next
  case (Cons c cs)
  then show ?case by (cases i) (auto split: if_splits option.splits)
qed

lemma last_index_str_last:
  "last_index_str sub s = Some i \<Longrightarrow> i < j \<Longrightarrow> sub \<noteq> [] \<Longrightarrow> \<not> prefix sub (drop j s)"
proof (induction s arbitrary: i j)
  case Nil
  then show ?case by auto
next
  case (Cons c cs)
  then show ?case
    by (cases j) (auto split: if_splits option.splits dest: last_index_str_None)
qed

subsection \<open>Splitting and joining\<close>

lemma split_on_not_Nil [simp]: "split_on c s \<noteq> []"
  by (induction s) (auto split: list.splits)

lemma split_on_notin: "p \<in> set (split_on c s) \<Longrightarrow> c \<notin> set p"
  by (induction s arbitrary: p) (auto split: list.splits if_splits)

lemma split_on_no_sep: "c \<notin> set s \<Longrightarrow> split_on c s = [s]"
  by (induction s) auto

lemma split_on_append_sep: "c \<notin> set s \<Longrightarrow> split_on c (s @ c # t) = s # split_on c t"
  by (induction s) auto

lemma join_split_on: "join_with [c] (split_on c s) = s"
proof (induction s)
  case Nil
  then show ?case by simp
next
  case (Cons x xs)
  then show ?case by (cases "split_on c xs"; cases "tl (split_on c xs)") (auto simp: neq_Nil_conv)
qed

lemma split_on_join:
  "ps \<noteq> [] \<Longrightarrow> (\<forall>p \<in> set ps. c \<notin> set p) \<Longrightarrow> split_on c (join_with [c] ps) = ps"
proof (induction "[c]" ps rule: join_with.induct)
  case (3 x y ys)
  then show ?case by (simp add: split_on_append_sep)
qed (simp_all add: split_on_no_sep)

lemma split_on_append:
  "split_on c (s @ c # t) = split_on c s @ split_on c t"
proof (induction s)
  case Nil
  then show ?case by simp
next
  case (Cons x xs)
  then show ?case by (cases "split_on c xs") auto
qed

lemma join_with_Cons: "ps \<noteq> [] \<Longrightarrow> join_with sep (p # ps) = p @ sep @ join_with sep ps"
  by (cases ps) simp_all

lemma join_with_append:
  "ps \<noteq> [] \<Longrightarrow> qs \<noteq> [] \<Longrightarrow> join_with sep (ps @ qs) = join_with sep ps @ sep @ join_with sep qs"
  by (induction sep ps rule: join_with.induct) (simp_all add: join_with_Cons)

lemma join_with_eq_Nil: "join_with sep ps = [] \<Longrightarrow> (\<forall>p \<in> set ps. p \<noteq> []) \<Longrightarrow> ps = []"
  by (induction sep ps rule: join_with.induct) auto

lemma cut_at_found: "c \<notin> set b \<Longrightarrow> cut_at c (b @ c # a) = (b, a, True)"
  by (induction b) auto

lemma cut_at_spec:
  "cut_at c s = (b, a, ok) \<Longrightarrow>
     c \<notin> set b \<and> (if ok then s = b @ c # a else s = b \<and> a = [])"
  by (induction s arbitrary: b) (auto split: if_splits prod.splits)

lemma set_replace_byte: "c \<notin> set new \<Longrightarrow> c \<notin> set (replace_byte c new s)"
  by (auto simp: replace_byte_def split: if_splits)

lemma replace_byte_id: "c \<notin> set s \<Longrightarrow> replace_byte c new s = s"
  by (induction s) (auto simp: replace_byte_def)

lemma trim_string_id:
  "s \<noteq> [] \<Longrightarrow> \<not> is_ascii_space (hd s) \<Longrightarrow> \<not> is_ascii_space (last s) \<Longrightarrow> trim_string s = s"
  by (simp add: trim_string_def dropWhile_eq_self_iff [THEN iffD2] hd_rev)

subsection \<open>Numbers\<close>

lemma of_char_int: "(of_char (char_of n) :: int) = int (n mod 256)" for n :: nat
  by (metis of_char_of of_nat_of_char)

lemma digit_char:
  "n < 10 \<Longrightarrow> is_digit (char_of (n + 48)) \<and> digit_val (char_of (n + 48)) = int n" for n :: nat
  by (simp add: is_digit_def digit_val_def of_char_int)

lemma format_nat_not_Nil [simp]: "format_nat n \<noteq> []"
  by (subst format_nat.simps) simp

lemma format_nat_digits: "c \<in> set (format_nat n) \<Longrightarrow> is_digit c"
proof (induction n rule: format_nat.induct)
  case (1 n)
  then show ?case
    by (cases "n < 10") (auto simp: format_nat.simps [of n] digit_char)
qed

lemma parse_uint_loop_append:
  "parse_uint_loop n s = (m, None) \<Longrightarrow> parse_uint_loop n (s @ t) = parse_uint_loop m t"
  by (induction s arbitrary: n) (auto split: if_splits)

lemma parse_format_nat:
  assumes "int n < 2 ^ 64" shows "parse_uint_loop 0 (format_nat n) = (int n, None)"
  using assms
proof (induction n rule: format_nat.induct)
  case (1 n)
  show ?case
  proof (cases "n < 10")
    case True
    then show ?thesis by (simp add: format_nat.simps [of n] digit_char)
  next
    case False
    with 1 have "parse_uint_loop 0 (format_nat (n div 10)) = (int (n div 10), None)" by auto
    then have "parse_uint_loop 0 (format_nat n) =
        parse_uint_loop (int (n div 10)) [char_of (n mod 10 + 48)]"
      using False by (simp add: format_nat.simps [of n] parse_uint_loop_append)
    moreover have "10 * int (n div 10) + int (n mod 10) = int n" by (simp add: zdiv_int zmod_int)
    ultimately show ?thesis using "1.prems" digit_char [of "n mod 10"] by simp
  qed
qed

lemma digit_not_sign: "is_digit c \<Longrightarrow> c \<noteq> CHR ''-'' \<and> c \<noteq> CHR ''+''"
  by (auto simp: is_digit_def)

lemma format_nat_Cons: obtains c cs where "format_nat n = c # cs" "is_digit c"
  using format_nat_not_Nil [of n] format_nat_digits [of _ n] by (cases "format_nat n") auto

lemma format_int_not_Nil [simp]: "format_int i \<noteq> []"
  by (simp add: format_int_def)

lemma digit_char_inj: "char_of (m + 48) = char_of (n + 48) \<Longrightarrow> m < 10 \<Longrightarrow> n < 10 \<Longrightarrow> m = n" for m n :: nat
  using digit_char [of m] digit_char [of n] by (metis of_nat_eq_iff)

lemma format_nat_eq_iff [simp]: "format_nat i = format_nat j \<longleftrightarrow> i = j"
proof (induction i arbitrary: j rule: format_nat.induct)
  case (1 i)
  show ?case
  proof (cases "i < 10 \<or> j < 10")
    case True
    then show ?thesis
      using format_nat_not_Nil [of "i div 10"] format_nat_not_Nil [of "j div 10"] digit_char_inj
      by (auto simp: format_nat.simps [of i] format_nat.simps [of j] eq_commute [of "[]"])
  next
    case False
    then have "format_nat i = format_nat j \<longleftrightarrow> i div 10 = j div 10 \<and> char_of (i mod 10 + 48) = (char_of (j mod 10 + 48) :: char)"
      using 1 by (simp add: format_nat.simps [of i] format_nat.simps [of j])
    also have "\<dots> \<longleftrightarrow> i = j"
      using digit_char_inj [of "i mod 10" "j mod 10"] by (metis div_mult_mod_eq mod_less_divisor zero_less_numeral)
    finally show ?thesis .
  qed
qed

lemma format_int_eq_iff [simp]: "format_int i = format_int j \<longleftrightarrow> i = j"
proof -
  have "CHR ''-'' # s \<noteq> format_nat n" for s n
    using digit_not_sign format_nat_Cons [of n] by (metis list.inject)
  then show ?thesis by (auto simp: format_int_def) metis+
qed

lemma format_int_chars: "c \<in> set (format_int i) \<Longrightarrow> is_digit c \<or> c = CHR ''-''"
  by (auto simp: format_int_def format_nat_digits split: if_splits)
lemma parse_int_format:
  assumes "int64_range i" shows "ParseInt (format_int i) = (i, None)"
proof (cases "i < 0")
  case True
  then have "int (nat (- i)) = - i" "- i \<le> 2 ^ 63" using assms by (auto simp: int64_range_def)
  with True show ?thesis
    by (simp add: ParseInt_def format_int_def ParseUint_def parse_format_nat)
next
  case False
  then have "int (nat i) = i" "i < 2 ^ 63" using assms by (auto simp: int64_range_def)
  moreover obtain c cs where "format_nat (nat i) = c # cs" "is_digit c"
    by (rule format_nat_Cons)
  ultimately show ?thesis
    using False digit_not_sign [of c] parse_format_nat [of "nat i"]
    by (simp add: ParseInt_def format_int_def ParseUint_def)
qed

lemma parse_int_format_int [simp]: "int64_range i \<Longrightarrow> parse_int (format_int i) = Some i"
  by (simp add: parse_int_def parse_int_format)

lemma parse_uint_loop_nonneg: "0 \<le> n \<Longrightarrow> 0 \<le> fst (parse_uint_loop n s)"
  by (induction s arbitrary: n) (auto simp: is_digit_def digit_val_def)

lemma ParseUint_nonneg: "ParseUint s = (n, err) \<Longrightarrow> 0 \<le> n"
  using parse_uint_loop_nonneg [of 0 s] by (auto simp: ParseUint_def split: if_splits)

lemma ParseInt_range: "ParseInt s = (i, err) \<Longrightarrow> int64_range i"
  by (auto simp: ParseInt_def int64_range_def Let_def split: prod.splits if_splits
      dest!: ParseUint_nonneg)

lemma parse_int_range: "parse_int s = Some i \<Longrightarrow> int64_range i"
  by (auto simp: parse_int_def split: prod.splits option.splits dest: ParseInt_range)

end
