(* ===== verification/Go_Path.thy ===== *)
theory Go_Path
  imports Go_Prelude
begin

text \<open>
  Go's package \<open>path\<close> (\<open>stdpath\<close> in the sources): \<open>Clean\<close>, \<open>Join\<close>, \<open>Split\<close>, \<open>Base\<close>,
  \<open>Dir\<close> and \<open>Ext\<close> on byte strings, and the component view of cleaned absolute paths that
  all path proofs use: a cleaned absolute path is \<open>abs_path cs\<close> for a list of good components.
\<close>

section \<open>Operations\<close>

text \<open>One component of \<open>path.Clean\<close>'s scan, on the reversed list of kept components.\<close>

definition clean_step :: "bool \<Rightarrow> string list \<Rightarrow> string \<Rightarrow> string list" where
  "clean_step rooted st c =
     (if c = [] \<or> c = ''.'' then st
      else if c = ''..'' then
        (case st of
           [] \<Rightarrow> if rooted then [] else [''..'']
         | t # ts \<Rightarrow> if t = ''..'' then ''..'' # st else ts)
      else c # st)"

definition norm_comps :: "bool \<Rightarrow> string list \<Rightarrow> string list" where
  "norm_comps rooted cs = rev (foldl (clean_step rooted) [] cs)"

definition abs_path :: "string list \<Rightarrow> string" where
  "abs_path cs = CHR ''/'' # join_with ''/'' cs"

definition path_clean :: "string \<Rightarrow> string" where
  "path_clean p =
     (case p of
        [] \<Rightarrow> ''.''
      | c # s \<Rightarrow>
          if c = CHR ''/'' then abs_path (norm_comps True (split_on (CHR ''/'') s))
          else (let cs = norm_comps False (split_on (CHR ''/'') p)
                in if cs = [] then ''.'' else join_with ''/'' cs))"

fun join_buf :: "string \<Rightarrow> string list \<Rightarrow> string" where
  "join_buf buf [] = buf"
| "join_buf buf (e # es) = join_buf (if buf \<noteq> [] then buf @ ''/'' @ e else e) es"

definition path_join :: "string list \<Rightarrow> string" where
  "path_join es = (if \<forall>e \<in> set es. e = [] then [] else path_clean (join_buf [] es))"

definition path_split :: "string \<Rightarrow> string \<times> string" where
  "path_split p =
     (case last_index_str ''/'' p of
        None \<Rightarrow> ([], p)
      | Some i \<Rightarrow> (take (Suc i) p, drop (Suc i) p))"

definition path_dir :: "string \<Rightarrow> string" where
  "path_dir p = path_clean (fst (path_split p))"

definition path_base :: "string \<Rightarrow> string" where
  "path_base p =
     (if p = [] then ''.''
      else let q = rev (dropWhile (\<lambda>c. c = CHR ''/'') (rev p));
               b = snd (path_split q)
           in if b = [] then ''/'' else b)"

definition path_ext :: "string \<Rightarrow> string" where
  "path_ext p =
     (let b = snd (path_split p)
      in case last_index_str ''.'' b of None \<Rightarrow> [] | Some i \<Rightarrow> drop i b)"

section \<open>Good components and cleaned absolute paths\<close>

definition good_comp :: "string \<Rightarrow> bool" where
  "good_comp c \<longleftrightarrow> c \<noteq> [] \<and> c \<noteq> ''.'' \<and> c \<noteq> ''..'' \<and> CHR ''/'' \<notin> set c"

definition good_comps :: "string list \<Rightarrow> bool" where
  "good_comps cs \<longleftrightarrow> (\<forall>c \<in> set cs. good_comp c)"

lemma good_comps_simps [simp]:
  "good_comps []"
  "good_comps (c # cs) \<longleftrightarrow> good_comp c \<and> good_comps cs"
  "good_comps (cs @ ds) \<longleftrightarrow> good_comps cs \<and> good_comps ds"
  "good_comps (rev cs) \<longleftrightarrow> good_comps cs"
  by (auto simp: good_comps_def)

lemma clean_step_good: "good_comp c \<Longrightarrow> clean_step r st c = c # st"
  by (simp add: clean_step_def good_comp_def)

lemma foldl_clean_good: "good_comps cs \<Longrightarrow> foldl (clean_step r) st cs = rev cs @ st"
  by (induction cs arbitrary: st) (simp_all add: clean_step_good)

lemma norm_comps_append_good:
  "good_comps ds \<Longrightarrow> norm_comps r (cs @ ds) = norm_comps r cs @ ds"
  by (simp add: norm_comps_def foldl_clean_good)

lemma norm_comps_id: "good_comps cs \<Longrightarrow> norm_comps r cs = cs"
  using norm_comps_append_good [of cs r "[]"] by (simp add: norm_comps_def)

lemma norm_comps_Nil_Cons [simp]: "norm_comps r ([] # cs) = norm_comps r cs"
  by (simp add: norm_comps_def clean_step_def)

lemma clean_step_keeps_good:
  "good_comps st \<Longrightarrow> CHR ''/'' \<notin> set c \<Longrightarrow> good_comps (clean_step True st c)"
  by (auto simp: clean_step_def good_comp_def split: list.splits)

lemma norm_comps_good:
  "(\<forall>c \<in> set cs. CHR ''/'' \<notin> set c) \<Longrightarrow> good_comps (norm_comps True cs)"
proof -
  have "good_comps st \<Longrightarrow> (\<forall>c \<in> set cs. CHR ''/'' \<notin> set c) \<Longrightarrow>
      good_comps (foldl (clean_step True) st cs)" for st
    by (induction cs arbitrary: st) (auto simp: clean_step_keeps_good)
  then show "(\<forall>c \<in> set cs. CHR ''/'' \<notin> set c) \<Longrightarrow> ?thesis" by (simp add: norm_comps_def)
qed

lemma norm_split_good: "good_comps (norm_comps True (split_on (CHR ''/'') s))"
  by (rule norm_comps_good) (auto dest: split_on_notin)

lemma path_clean_abs: "path_clean (CHR ''/'' # s) = abs_path (norm_comps True (split_on (CHR ''/'') s))"
  by (simp add: path_clean_def)

lemma split_abs_path:
  "good_comps cs \<Longrightarrow> split_on (CHR ''/'') (abs_path cs) = (if cs = [] then [[], []] else [] # cs)"
  by (auto simp: abs_path_def good_comps_def good_comp_def intro: split_on_join)

lemma norm_split_abs_path:
  assumes "good_comps cs" shows "norm_comps r (split_on (CHR ''/'') (abs_path cs)) = cs"
proof (cases "cs = []")
  case True
  then show ?thesis by (simp add: abs_path_def) (simp add: norm_comps_def)
next
  case False
  with assms show ?thesis by (simp add: split_abs_path norm_comps_id)
qed

lemma abs_path_inject:
  assumes "good_comps cs" "good_comps ds" "abs_path cs = abs_path ds" shows "cs = ds"
  using norm_split_abs_path [OF assms(1)] norm_split_abs_path [OF assms(2)] assms(3) by metis

lemma path_clean_abs_path: "good_comps cs \<Longrightarrow> path_clean (abs_path cs) = abs_path cs"
  using norm_split_abs_path [of cs True]
  by (simp add: abs_path_def path_clean_abs)

lemma abs_path_append:
  "cs \<noteq> [] \<Longrightarrow> ds \<noteq> [] \<Longrightarrow> abs_path (cs @ ds) = abs_path cs @ abs_path ds"
  by (simp add: abs_path_def join_with_append)

lemma path_join_abs:
  assumes "good_comps cs" "good_comps ds"
  shows "path_join [abs_path cs, abs_path ds] = abs_path (cs @ ds)"
proof -
  have "norm_comps True (split_on (CHR ''/'') (abs_path cs @ CHR ''/'' # abs_path ds)) = cs @ ds"
  proof -
    have "split_on (CHR ''/'') (abs_path cs @ CHR ''/'' # abs_path ds) =
        split_on (CHR ''/'') (abs_path cs) @ split_on (CHR ''/'') (abs_path ds)"
      by (rule split_on_append)
    moreover have "norm_comps True (xs @ split_on (CHR ''/'') (abs_path ds)) =
        norm_comps True xs @ ds" for xs
      using assms(2)
      by (auto simp: split_abs_path norm_comps_def clean_step_def [of _ _ "[]"] foldl_clean_good)
    ultimately show ?thesis using norm_split_abs_path [OF assms(1)] by simp
  qed
  then show ?thesis
    by (simp add: path_join_def path_clean_def abs_path_def)
qed

lemma path_join_comp:
  assumes "good_comps cs" "good_comp c" shows "path_join [abs_path cs, c] = abs_path (cs @ [c])"
proof -
  have "split_on (CHR ''/'') c = [c]" using assms(2) by (intro split_on_no_sep) (simp add: good_comp_def)
  then have "norm_comps True (split_on (CHR ''/'') (abs_path cs @ CHR ''/'' # c)) = cs @ [c]"
    using norm_comps_append_good [of "[c]" True "split_on (CHR ''/'') (abs_path cs)"] assms norm_split_abs_path [OF assms(1)]
    by (simp add: split_on_append)
  then show ?thesis by (simp add: path_join_def path_clean_def abs_path_def)
qed

lemma prefix_abs_path:
  assumes "good_comps cs" "good_comps ds" "cs \<noteq> []"
  shows "prefix (abs_path cs @ ''/'') (abs_path ds) \<longleftrightarrow> strict_prefix cs ds"
proof
  assume "prefix (abs_path cs @ ''/'') (abs_path ds)"
  then obtain t where "abs_path ds = abs_path cs @ CHR ''/'' # t" by (auto simp: prefix_def)
  then have "split_on (CHR ''/'') (abs_path ds) =
      split_on (CHR ''/'') (abs_path cs) @ split_on (CHR ''/'') t"
    by (simp add: split_on_append)
  then have "(if ds = [] then [[], []] else [] # ds) = ([] # cs) @ split_on (CHR ''/'') t"
    using assms by (simp add: split_abs_path)
  moreover from this have "ds \<noteq> []" using assms(1,3) split_on_not_Nil [of "CHR ''/''" t]
    by (cases cs) (auto simp: good_comp_def split: if_splits)
  ultimately show "strict_prefix cs ds"
    using split_on_not_Nil [of "CHR ''/''" t] by (simp add: strict_prefix_def)
next
  assume "strict_prefix cs ds"
  then obtain es where "ds = cs @ es" "es \<noteq> []" by (auto simp: strict_prefix_def prefix_def)
  with assms(3) show "prefix (abs_path cs @ ''/'') (abs_path ds)"
    by (simp add: abs_path_append) (simp add: abs_path_def)
qed

lemma abs_path_suffix_slash:
  assumes "good_comps cs" shows "suffix ''/'' (abs_path cs) \<longleftrightarrow> cs = []"
proof (cases cs rule: rev_cases)
  case Nil
  then show ?thesis by (simp add: abs_path_def)
next
  case (snoc bs b)
  then have "b \<noteq> []" "CHR ''/'' \<notin> set b" using assms by (simp_all add: good_comp_def)
  moreover obtain z where "abs_path cs = z @ b"
    using snoc by (cases "bs = []") (auto simp: abs_path_def join_with_append)
  ultimately have "last (abs_path cs) \<noteq> CHR ''/''" by (metis last_appendR last_in_set)
  then have "\<not> suffix ''/'' (abs_path cs)" by (auto simp: suffix_def)
  with snoc show ?thesis by simp
qed

subsection \<open>Splitting off the last component\<close>

lemma last_index_slash_append:
  "CHR ''/'' \<notin> set b \<Longrightarrow> last_index_str ''/'' (a @ CHR ''/'' # b) = Some (length a)"
proof (induction a)
  case Nil
  have "last_index_str ''/'' b = None" if "CHR ''/'' \<notin> set b" for b
    using that by (induction b) auto
  with Nil show ?case by simp
qed simp

lemma path_split_append:
  "CHR ''/'' \<notin> set b \<Longrightarrow> path_split (a @ CHR ''/'' # b) = (a @ ''/'', b)"
  by (simp add: path_split_def last_index_slash_append)

lemma path_split_abs_snoc:
  assumes "good_comp c"
  shows "path_split (abs_path (cs @ [c])) = ((if cs = [] then ''/'' else abs_path cs @ ''/''), c)"
proof (cases "cs = []")
  case True
  with assms show ?thesis
    using path_split_append [of c "[]"] by (simp add: abs_path_def good_comp_def)
next
  case False
  then have "abs_path (cs @ [c]) = abs_path cs @ CHR ''/'' # c"
    by (simp add: abs_path_append) (simp add: abs_path_def)
  with assms False show ?thesis by (simp add: path_split_append good_comp_def)
qed

lemma path_dir_abs_snoc:
  assumes "good_comps cs" "good_comp c" shows "path_dir (abs_path (cs @ [c])) = abs_path cs"
proof (cases "cs = []")
  case True
  with assms path_split_abs_snoc [of c "[]"] show ?thesis
    by (simp add: path_dir_def) (simp add: path_clean_abs norm_comps_def clean_step_def abs_path_def)
next
  case False
  have "norm_comps True (split_on (CHR ''/'') (abs_path cs @ ''/'')) = cs"
    using norm_split_abs_path [OF assms(1), of True] split_on_append [of "CHR ''/''" "abs_path cs" "[]"]
    by (simp add: norm_comps_def clean_step_def [of _ _ "[]"])
  then show ?thesis using False assms
    by (simp add: path_dir_def path_split_abs_snoc path_clean_abs) (simp add: abs_path_def path_clean_abs)
qed

lemma path_dir_root: "path_dir ''/'' = ''/''"
  by (simp add: path_dir_def path_split_def path_clean_def norm_comps_def clean_step_def abs_path_def)

lemma path_clean_trailing: "s \<noteq> [] \<Longrightarrow> path_clean (s @ ''/'') = path_clean s"
proof -
  assume "s \<noteq> []"
  then obtain c t where s: "s = c # t" by (cases s) auto
  have "norm_comps r (xs @ [[]]) = norm_comps r xs" for r xs by (simp add: norm_comps_def clean_step_def)
  then have "norm_comps r (split_on (CHR ''/'') (u @ ''/'')) = norm_comps r (split_on (CHR ''/'') u)" for r u
    using split_on_append [of "CHR ''/''" u "[]"] by simp
  from this [of _ t] this [of _ "c # t"] show ?thesis by (simp add: s path_clean_def del: split_on.simps)
qed

lemma path_join_trailing: "p \<noteq> [] \<Longrightarrow> path_join [m, p @ ''/''] = path_join [m, p]"
  using path_clean_trailing [of "m @ CHR ''/'' # p"] path_clean_trailing [of p] by (simp add: path_join_def)

lemma path_base_abs_snoc:
  assumes "good_comp c" shows "path_base (abs_path (cs @ [c])) = c"
proof -
  have "last c \<noteq> CHR ''/''" "c \<noteq> []" using assms by (auto simp: good_comp_def dest: last_in_set)
  moreover obtain z where z: "abs_path (cs @ [c]) = z @ c" "abs_path (cs @ [c]) \<noteq> []"
    by (cases "cs = []") (auto simp: abs_path_def join_with_append)
  ultimately have "last (abs_path (cs @ [c])) \<noteq> CHR ''/''" by simp
  then have "dropWhile (\<lambda>c. c = CHR ''/'') (rev (abs_path (cs @ [c]))) = rev (abs_path (cs @ [c]))"
    using z(2) by (simp add: dropWhile_eq_self_iff hd_rev)
  then show ?thesis using z(2) assms \<open>c \<noteq> []\<close>
    by (simp add: path_base_def path_split_abs_snoc)
qed

end
