(* ===== verification/Paths.thy ===== *)
theory Paths
  imports Go_Path
begin

text \<open>
  The path helpers of \<open>pkg/utils/path.go\<close> and \<open>pkg/utils/balance.go\<close>. Every access decision
  of the program goes through them: request paths are normalised by \<open>FixAndCleanPath\<close>, joined
  under a user's base path by \<open>JoinBasePath\<close> and compared by \<open>PathEqual\<close> and \<open>IsSubPath\<close>.
  The lemmas reduce each helper to the list of components of the cleaned path.
\<close>

section \<open>Operations\<close>

datatype path_error = RelativePath

definition FixAndCleanPath :: "string \<Rightarrow> string" where
  "FixAndCleanPath path =
     (let path = replace_byte (CHR 0x5C) ''/'' path;
          path = (if \<not> has_prefix path ''/'' then ''/'' @ path else path)
      in path_clean path)"

definition PathAddSeparatorSuffix :: "string \<Rightarrow> string" where
  "PathAddSeparatorSuffix path = (if \<not> has_suffix path ''/'' then path @ ''/'' else path)"

definition PathEqual :: "string \<Rightarrow> string \<Rightarrow> bool" where
  "PathEqual path1 path2 \<longleftrightarrow> FixAndCleanPath path1 = FixAndCleanPath path2"

definition IsSubPath :: "string \<Rightarrow> string \<Rightarrow> bool" where
  "IsSubPath path subPath =
     (let path = FixAndCleanPath path; subPath = FixAndCleanPath subPath
      in path = subPath \<or> has_prefix subPath (PathAddSeparatorSuffix path))"

definition SourceExt :: "string \<Rightarrow> string" where
  "SourceExt path =
     (let ext = path_ext path
      in if ext \<noteq> [] \<and> hd ext = CHR ''.'' then tl ext else ext)"

text \<open>\<open>url.PathEscape\<close>: every byte outside the unreserved set and \<open>$ & + : = @\<close> becomes \<open>%XX\<close>.\<close>

definition upper_hex :: "nat \<Rightarrow> char" where
  "upper_hex n = (if n < 10 then char_of (n + 48) else char_of (n + 55))"

definition escape_byte :: "char \<Rightarrow> string" where
  "escape_byte c = [CHR ''%'', upper_hex (of_char c div 16), upper_hex (of_char c mod 16)]"

definition path_unreserved :: "char \<Rightarrow> bool" where
  "path_unreserved c \<longleftrightarrow>
     (let n = of_char c :: nat
      in 97 \<le> n \<and> n \<le> 122 \<or> 65 \<le> n \<and> n \<le> 90 \<or> 48 \<le> n \<and> n \<le> 57) \<or> c \<in> set ''-_.~$&+:=@''"

definition PathEscape :: "string \<Rightarrow> string" where
  "PathEscape s = concat (map (\<lambda>c. if path_unreserved c then [c] else escape_byte c) s)"

text \<open>The replacement table lists \<open>%\<close> twice, so a percent sign is escaped twice when \<open>all\<close> is
  not given.\<close>

definition EncodePath_replace :: "string \<Rightarrow> string" where
  "EncodePath_replace seg =
     foldl (\<lambda>s (src, dst). replace_byte src dst s) seg
       [(CHR ''%'', ''%25''), (CHR ''%'', ''%25''), (CHR ''?'', ''%3F''), (CHR ''#'', ''%23'')]"

definition EncodePath :: "string \<Rightarrow> bool \<Rightarrow> string" where
  "EncodePath path all =
     join_with ''/''
       (map (if all then PathEscape else EncodePath_replace) (split_on (CHR ''/'') path))"

definition JoinBasePath :: "string \<Rightarrow> string \<Rightarrow> path_error + string" where
  "JoinBasePath basePath reqPath =
     (let isRelativePath = contains reqPath ''..'';
          reqPath = FixAndCleanPath reqPath
      in if isRelativePath \<and> \<not> contains reqPath ''..'' then Inl RelativePath
         else Inr (path_join [FixAndCleanPath basePath, reqPath]))"

definition IsBalance :: "string \<Rightarrow> bool" where
  "IsBalance str \<longleftrightarrow> contains str ''.balance''"

definition GetActualMountPath :: "string \<Rightarrow> string" where
  "GetActualMountPath mountPath =
     (case last_index_str ''.balance'' mountPath of
        None \<Rightarrow> mountPath
      | Some bIndex \<Rightarrow> take bIndex mountPath)"

definition GetFullPath :: "string \<Rightarrow> string \<Rightarrow> string" where
  "GetFullPath mountPath path = path_join [GetActualMountPath mountPath, path]"

text \<open>The loop of \<open>GetPathHierarchy\<close>: \<open>currentPath\<close> grows by one component per round.\<close>

fun hierarchy_loop :: "string \<Rightarrow> string list \<Rightarrow> string list" where
  "hierarchy_loop currentPath [] = []"
| "hierarchy_loop currentPath (part # parts) =
     (if part = [] then hierarchy_loop currentPath parts
      else (let currentPath = currentPath @ ''/'' @ part
            in currentPath # hierarchy_loop currentPath parts))"

definition GetPathHierarchy :: "string \<Rightarrow> string list" where
  "GetPathHierarchy path =
     (if path = [] \<or> path = ''/'' then [''/'']
      else (let path = FixAndCleanPath path;
                path = (if \<not> has_prefix path ''/'' then ''/'' @ path else path)
            in ''/'' # hierarchy_loop [] (split_on (CHR ''/'') path)))"

section \<open>The component view\<close>

definition path_comps :: "string \<Rightarrow> string list" where
  "path_comps p = norm_comps True (split_on (CHR ''/'') (replace_byte (CHR 0x5C) ''/'' p))"

lemma path_comps_good [simp]: "good_comps (path_comps p)"
  by (simp add: path_comps_def norm_split_good)

lemma FixAndCleanPath_comps [path_simps]: "FixAndCleanPath p = abs_path (path_comps p)"
proof (cases "replace_byte (CHR 0x5C) ''/'' p")
  case Nil
  then show ?thesis
    by (simp add: FixAndCleanPath_def path_comps_def has_prefix_def path_clean_abs)
next
  case (Cons c s)
  then show ?thesis
    by (cases "c = CHR ''/''")
      (simp_all add: FixAndCleanPath_def path_comps_def has_prefix_def path_clean_abs)
qed

lemma path_comps_abs_path:
  assumes "good_comps cs" "\<forall>c \<in> set cs. CHR 0x5C \<notin> set c"
  shows "path_comps (abs_path cs) = cs"
proof -
  have "CHR 0x5C \<notin> set (join_with ''/'' cs)" if "\<forall>c \<in> set cs. CHR 0x5C \<notin> set c"
    using that by (induction "''/''" cs rule: join_with.induct) auto
  then have "CHR 0x5C \<notin> set (abs_path cs)" using assms(2) by (auto simp: abs_path_def)
  then show ?thesis using assms(1) by (simp add: path_comps_def replace_byte_id norm_split_abs_path)
qed

lemma norm_comps_subset: "c \<in> set (norm_comps True cs) \<Longrightarrow> c \<in> set cs"
proof -
  have "set (foldl (clean_step True) st cs) \<subseteq> set st \<union> set cs" for st
  proof (induction cs arbitrary: st)
    case Nil
    then show ?case by simp
  next
    case (Cons d ds)
    have "set (clean_step True st d) \<subseteq> insert d (set st)"
      by (auto simp: clean_step_def split: list.splits)
    with Cons show ?case by fastforce
  qed
  from this [of "[]"] show "c \<in> set (norm_comps True cs) \<Longrightarrow> ?thesis"
    by (auto simp: norm_comps_def)
qed

lemma split_on_subset: "p \<in> set (split_on c s) \<Longrightarrow> x \<in> set p \<Longrightarrow> x \<in> set s"
  by (induction s arbitrary: p) (auto split: list.splits if_splits, metis)

lemma path_comps_no_backslash: "c \<in> set (path_comps p) \<Longrightarrow> CHR 0x5C \<notin> set c"
proof
  assume "c \<in> set (path_comps p)" "CHR 0x5C \<in> set c"
  then have "CHR 0x5C \<in> set (replace_byte (CHR 0x5C) ''/'' p)"
    by (auto simp: path_comps_def dest!: norm_comps_subset intro: split_on_subset)
  then show False using set_replace_byte [of "CHR 0x5C" "''/''" p] by simp
qed

lemma path_comps_fix [simp]: "path_comps (abs_path (path_comps p)) = path_comps p"
  by (rule path_comps_abs_path) (auto dest: path_comps_no_backslash)

lemma FixAndCleanPath_idem [simp]: "FixAndCleanPath (FixAndCleanPath p) = FixAndCleanPath p"
  by (simp add: FixAndCleanPath_comps)

lemma PathEqual_comps [path_simps]: "PathEqual p q \<longleftrightarrow> path_comps p = path_comps q"
  by (auto simp: PathEqual_def FixAndCleanPath_comps dest: abs_path_inject [rotated 2])

lemma IsSubPath_comps [path_simps]: "IsSubPath p q \<longleftrightarrow> prefix (path_comps p) (path_comps q)"
proof (cases "path_comps p = []")
  case True
  then have "FixAndCleanPath p = ''/''" by (simp add: FixAndCleanPath_comps abs_path_def)
  moreover have "prefix ''/'' (FixAndCleanPath q)"
    by (simp add: FixAndCleanPath_comps abs_path_def)
  ultimately show ?thesis using True
    by (simp add: IsSubPath_def PathAddSeparatorSuffix_def has_prefix_def has_suffix_def)
next
  case False
  then have "PathAddSeparatorSuffix (FixAndCleanPath p) = abs_path (path_comps p) @ ''/''"
    by (simp add: PathAddSeparatorSuffix_def has_suffix_def FixAndCleanPath_comps abs_path_suffix_slash)
  then have "IsSubPath p q \<longleftrightarrow>
      abs_path (path_comps p) = abs_path (path_comps q) \<or> strict_prefix (path_comps p) (path_comps q)"
    using False by (simp add: IsSubPath_def FixAndCleanPath_comps has_prefix_def prefix_abs_path)
  then show ?thesis by (auto simp: strict_prefix_def dest: abs_path_inject [rotated 2])
qed

lemma path_comps_root [simp]: "path_comps ''/'' = []"
  by (simp add: path_comps_def replace_byte_def norm_comps_def clean_step_def)

lemma path_comps_trailing [simp]: "path_comps (p @ ''/'') = path_comps p"
  using split_on_append [of "CHR ''/''" "replace_byte (CHR 0x5C) ''/'' p" "[]"]
  by (simp add: path_comps_def replace_byte_def norm_comps_def clean_step_def [of _ _ "[]"])

lemma JoinBasePath_comps:
  "JoinBasePath b r = Inr p \<Longrightarrow> p = abs_path (path_comps b @ path_comps r)"
  by (auto simp: JoinBasePath_def FixAndCleanPath_comps path_join_abs Let_def split: if_splits)

lemma path_comps_append_path:
  "path_comps (abs_path (path_comps b @ path_comps r)) = path_comps b @ path_comps r"
  by (rule path_comps_abs_path) (auto dest: path_comps_no_backslash)

lemma hierarchy_loop_comps:
  assumes "good_comps ds" "cs = [] \<Longrightarrow> cur = []" "cs \<noteq> [] \<Longrightarrow> cur = abs_path cs"
  shows "hierarchy_loop cur ds = map (\<lambda>es. abs_path (cs @ es)) (tl (prefixes ds))"
  using assms
proof (induction ds arbitrary: cs cur)
  case Nil
  then show ?case by simp
next
  case (Cons d ds)
  have next_path: "cur @ ''/'' @ d = abs_path (cs @ [d])"
    using Cons.prems(2,3) by (cases "cs = []") (auto simp: abs_path_append, auto simp: abs_path_def)
  have "d \<noteq> []" "good_comps ds" using Cons.prems(1) by (auto simp: good_comp_def)
  then have "hierarchy_loop cur (d # ds) =
      abs_path (cs @ [d]) # map (\<lambda>es. abs_path ((cs @ [d]) @ es)) (tl (prefixes ds))"
    using Cons.IH [of "cs @ [d]" "abs_path (cs @ [d])"] next_path by (simp add: Let_def)
  moreover have "prefixes ds = [] # tl (prefixes ds)" by (cases ds) simp_all
  ultimately show ?case by (metis (no_types, lifting) append.right_neutral append_Cons append_Nil
    append_assoc list.sel(3) list.simps(9) map_map map_eq_conv o_apply prefixes.simps(2))
qed

lemma GetPathHierarchy_eq:
  "GetPathHierarchy p = map abs_path (prefixes (path_comps p))"
proof (cases "p = [] \<or> p = ''/''")
  case True
  then have "path_comps p = []"
    by (auto simp: path_comps_def replace_byte_def norm_comps_def clean_step_def)
  with True show ?thesis by (simp add: GetPathHierarchy_def abs_path_def)
next
  case False
  let ?cs = "path_comps p"
  have "GetPathHierarchy p = ''/'' # hierarchy_loop [] (split_on (CHR ''/'') (abs_path ?cs))"
    using False by (simp add: GetPathHierarchy_def FixAndCleanPath_comps)
      (simp add: abs_path_def has_prefix_def)
  also have "hierarchy_loop [] (split_on (CHR ''/'') (abs_path ?cs)) = hierarchy_loop [] ?cs"
    by (simp add: split_abs_path)
  also have "\<dots> = map abs_path (tl (prefixes ?cs))"
    using hierarchy_loop_comps [of ?cs "[]" "[]"] by simp
  also have "''/'' # map abs_path (tl (prefixes ?cs)) = map abs_path (prefixes ?cs)"
    by (cases ?cs) (simp_all add: abs_path_def)
  finally show ?thesis .
qed

section \<open>The containment interface\<close>

text \<open>What the access checks rely on: containment of paths is reflexive and transitive, and equality
  of paths is containment both ways.\<close>

locale path_containment =
  fixes sub :: "'p \<Rightarrow> 'p \<Rightarrow> bool" and same :: "'p \<Rightarrow> 'p \<Rightarrow> bool"
  assumes sub_refl: "sub p p"
    and sub_trans: "sub p q \<Longrightarrow> sub q r \<Longrightarrow> sub p r"
    and same_iff: "same p q \<longleftrightarrow> sub p q \<and> sub q p"
begin

lemma same_refl: "same p p"
  by (simp add: same_iff sub_refl)

lemma same_sym: "same p q \<Longrightarrow> same q p"
  by (simp add: same_iff)

lemma same_sub_cong: "same p p' \<Longrightarrow> same q q' \<Longrightarrow> sub p q \<longleftrightarrow> sub p' q'"
  by (meson same_iff sub_trans)

lemma covered_below: "same m p \<or> sub m p \<and> app \<Longrightarrow> app \<Longrightarrow> sub p q \<Longrightarrow> same m q \<or> sub m q \<and> app"
  by (meson same_iff sub_trans)

end

interpretation containment: path_containment IsSubPath PathEqual
  by unfold_locales (auto simp: path_simps prefix_order.antisym)

section \<open>Properties\<close>

text \<open>C6 (path confinement): whatever a request path contains, the path that \<open>JoinBasePath\<close>
  builds lies under the user's base path.\<close>

theorem JoinBasePath_confined:
  "JoinBasePath basePath reqPath = Inr p \<Longrightarrow> IsSubPath basePath p"
  by (drule JoinBasePath_comps) (simp add: IsSubPath_comps path_comps_append_path)

theorem JoinBasePath_confined_witness:
  "IsSubPath ''/home/u'' ''/home/u/a..b/c''"
  by (rule JoinBasePath_confined [of _ "''a..b//./c''"]) code_simp

text \<open>Normal form: \<open>FixAndCleanPath\<close> is idempotent, and its result is \<open>/\<close> followed by
  components none of which is empty, \<open>.\<close>, \<open>..\<close> or contains a separator of either kind.\<close>

theorem FixAndCleanPath_normal:
  "FixAndCleanPath (FixAndCleanPath p) = FixAndCleanPath p \<and>
   (\<exists>cs. FixAndCleanPath p = CHR ''/'' # join_with ''/'' cs \<and>
      list_all (\<lambda>c. c \<notin> {[], ''.'', ''..''} \<and> CHR ''/'' \<notin> set c \<and> CHR 0x5C \<notin> set c) cs)"
proof -
  have "list_all (\<lambda>c. c \<notin> {[], ''.'', ''..''} \<and> CHR ''/'' \<notin> set c \<and> CHR 0x5C \<notin> set c) (path_comps p)"
    using path_comps_good [of p] path_comps_no_backslash
    by (auto simp: list_all_iff good_comps_def good_comp_def)
  moreover have "FixAndCleanPath p = CHR ''/'' # join_with ''/'' (path_comps p)"
    by (simp only: FixAndCleanPath_comps abs_path_def)
  ultimately show ?thesis using FixAndCleanPath_idem [of p] by blast
qed

text \<open>Path containment: \<open>IsSubPath\<close> is a partial order up to \<open>PathEqual\<close>, so a sibling
  whose name merely starts like the parent's is never taken for a descendant.\<close>

theorem IsSubPath_order:
  "IsSubPath p p \<and> (IsSubPath p q \<and> IsSubPath q r \<longrightarrow> IsSubPath p r) \<and>
   (IsSubPath p q \<and> IsSubPath q p \<longleftrightarrow> PathEqual p q)"
  using containment.sub_refl containment.sub_trans containment.same_iff by blast

theorem IsSubPath_order_witness:
  "IsSubPath ''/a'' ''/a/b'' \<and> IsSubPath ''/a/b'' ''/a/b/c'' \<and> IsSubPath ''/a'' ''/a/b/c'' \<and>
   \<not> IsSubPath ''/a'' ''/ab''"
proof -
  have "IsSubPath ''/a'' ''/a/b''" "IsSubPath ''/a/b'' ''/a/b/c''" "\<not> IsSubPath ''/a'' ''/ab''"
    by code_simp+
  then show ?thesis using IsSubPath_order [of "''/a''" "''/a/b''" "''/a/b/c''"] by blast
qed

text \<open>(path hierarchy): \<open>GetPathHierarchy\<close> lists the cleaned ancestors of a path from the
  root down to the path itself, one per component prefix.\<close>

theorem GetPathHierarchy_prefixes:
  "GetPathHierarchy p = map abs_path (prefixes (path_comps p))"
  by (rule GetPathHierarchy_eq)

text \<open>(percent sign escaped twice): without \<open>all\<close>, \<open>EncodePath\<close> turns one percent sign into
  the escape of an escape, while with \<open>all\<close> it is escaped once.\<close>

theorem EncodePath_percent_twice:
  "EncodePath ''/100%'' False = ''/100%2525'' \<and> EncodePath ''/100%'' True = ''/100%25''"
  by code_simp

end
