(* ===== verification/Http_Range.thy ===== *)
theory Http_Range
  imports Go_Prelude
begin

text \<open>
  The package \<open>pkg/http_range\<close>: parsing of \<open>Range\<close> request headers and \<open>Content-Range\<close>
  response headers, and the headers the program sends itself.
\<close>

section \<open>Data and operations\<close>

record Range =
  rStart :: int
  rLength :: int

datatype range_error = ErrNoOverlap | ErrInvalid

type_synonym http_header = "string \<rightharpoonup> string list"

definition ContentRange :: "Range \<Rightarrow> int \<Rightarrow> string" where
  "ContentRange r sz =
     ''bytes '' @ format_int (rStart r) @ ''-'' @
     format_int (wrap64 (rStart r + rLength r - 1)) @ ''/'' @ format_int sz"

text \<open>One round of \<open>ParseRange\<close>'s loop on a non-empty trimmed element: \<open>Inr None\<close> is the
  \<open>continue\<close> that sets \<open>noOverlap\<close>.\<close>

definition parse_range_spec :: "int \<Rightarrow> string \<Rightarrow> range_error + Range option" where
  "parse_range_spec sz ra =
     (case cut_at (CHR ''-'') ra of (before, after, ok) \<Rightarrow>
        if \<not> ok then Inl ErrInvalid
        else (let start = trim_string before; end = trim_string after in
          if start = [] then
            (if end = [] \<or> hd end = CHR ''-'' then Inl ErrInvalid
             else (case parse_int end of
                None \<Rightarrow> Inl ErrInvalid
              | Some i \<Rightarrow>
                  if i < 0 then Inl ErrInvalid
                  else (let i = (if i > sz then sz else i); st = sz - i
                        in Inr (Some \<lparr>rStart = st, rLength = sz - st\<rparr>))))
          else (case parse_int start of
                None \<Rightarrow> Inl ErrInvalid
              | Some i \<Rightarrow>
                  if i < 0 then Inl ErrInvalid
                  else if i \<ge> sz then Inr None
                  else if end = [] then Inr (Some \<lparr>rStart = i, rLength = sz - i\<rparr>)
                  else (case parse_int end of
                      None \<Rightarrow> Inl ErrInvalid
                    | Some j \<Rightarrow>
                        if i > j then Inl ErrInvalid
                        else (let j = (if j \<ge> sz then sz - 1 else j)
                              in Inr (Some \<lparr>rStart = i, rLength = j - i + 1\<rparr>))))))"

fun parse_range_loop ::
    "int \<Rightarrow> string list \<Rightarrow> Range list \<Rightarrow> bool \<Rightarrow> range_error + Range list \<times> bool" where
  "parse_range_loop sz [] ranges noOverlap = Inr (ranges, noOverlap)"
| "parse_range_loop sz (ra # ras) ranges noOverlap =
     (let ra = trim_string ra in
        if ra = [] then parse_range_loop sz ras ranges noOverlap
        else (case parse_range_spec sz ra of
            Inl e \<Rightarrow> Inl e
          | Inr None \<Rightarrow> parse_range_loop sz ras ranges True
          | Inr (Some r) \<Rightarrow> parse_range_loop sz ras (ranges @ [r]) noOverlap))"

definition ParseRange :: "string \<Rightarrow> int \<Rightarrow> range_error + Range list" where
  "ParseRange s sz =
     (if s = [] then Inr []
      else if \<not> has_prefix s ''bytes='' then Inl ErrInvalid
      else (case parse_range_loop sz (split_on (CHR '','') (drop 6 s)) [] False of
          Inl e \<Rightarrow> Inl e
        | Inr (ranges, noOverlap) \<Rightarrow>
            if noOverlap \<and> ranges = [] then Inl ErrNoOverlap else Inr ranges))"

text \<open>\<open>ParseContentRange\<close> slices \<open>s[p1+1:p2]\<close>; Go panics when \<open>p2 < p1 + 1\<close>. Otherwise it
  returns both numbers together with the joined errors.\<close>

datatype content_range_error = CRInvalid | CRNum "num_error list"

datatype content_range_result =
    CRPanic
  | CRReturn int int "content_range_error option"

definition ParseContentRange :: "string \<Rightarrow> content_range_result" where
  "ParseContentRange s =
     (if s = [] then CRReturn 0 0 (Some CRInvalid)
      else if \<not> has_prefix s ''bytes '' then CRReturn 0 0 (Some CRInvalid)
      else (case (index_str ''-'' s, index_str ''/'' s) of
          (Some p1, Some p2) \<Rightarrow>
            if p2 < Suc p1 then CRPanic
            else (let startStr = trim_string (drop 6 (take p1 s));
                      endStr = trim_string (drop (Suc p1) (take p2 s))
                  in case (ParseInt startStr, ParseInt endStr) of ((start, e1), (end, e2)) \<Rightarrow>
                       CRReturn start end
                         (if e1 = None \<and> e2 = None then None
                          else Some (CRNum (List.map_filter id [e1, e2]))))
        | _ \<Rightarrow> CRReturn 0 0 (Some CRInvalid)))"

definition MimeHeader :: "Range \<Rightarrow> string \<Rightarrow> int \<Rightarrow> http_header" where
  "MimeHeader r contentType sz =
     [''Content-Range'' \<mapsto> [ContentRange r sz], ''Content-Type'' \<mapsto> [contentType]]"

text \<open>The header is a Go map, \<open>None\<close> when nil; \<open>Del\<close> and \<open>Set\<close> work on the map itself.\<close>

definition ApplyRangeToHttpHeader :: "Range \<Rightarrow> http_header option \<Rightarrow> http_header" where
  "ApplyRangeToHttpHeader p headerRef =
     (let header = (case headerRef of None \<Rightarrow> Map.empty | Some h \<Rightarrow> h) in
        if rStart p = 0 \<and> rLength p < 0 then header(''Range'' := None)
        else (let end = (if rLength p \<ge> 0 then format_int (wrap64 (rStart p + rLength p - 1)) else [])
              in header(''Range'' \<mapsto> [''bytes='' @ format_int (rStart p) @ ''-'' @ end])))"

section \<open>Lemmas\<close>

lemma format_nat_char: "c \<in> set (format_nat n) \<Longrightarrow> 48 \<le> (of_char c :: int) \<and> (of_char c :: int) \<le> 57"
  using format_nat_digits by (auto simp: is_digit_def)

lemma digit_not_space: "is_digit c \<Longrightarrow> \<not> is_ascii_space c"
  by (auto simp: is_digit_def is_ascii_space_def)

lemma format_int_nonneg: "0 \<le> i \<Longrightarrow> format_int i = format_nat (nat i)"
  by (simp add: format_int_def)

lemma trim_string_format_nat [simp]: "trim_string (format_nat n) = format_nat n"
  by (rule trim_string_id)
    (auto intro!: digit_not_space format_nat_digits [of _ n])

lemma format_nat_notin [simp]:
  "CHR ''-'' \<notin> set (format_nat n)" "CHR ''/'' \<notin> set (format_nat n)" "CHR '','' \<notin> set (format_nat n)"
  by (auto dest: format_nat_char)

lemma trim_string_Nil [simp]: "trim_string [] = []"
  by (simp add: trim_string_def)

lemma parse_range_spec_within:
  assumes "parse_range_spec sz ra = Inr (Some r)" "0 \<le> sz"
  shows "0 \<le> rStart r \<and> 0 \<le> rLength r \<and> rStart r + rLength r \<le> sz"
  using assms
  by (auto simp: parse_range_spec_def Let_def split: prod.splits if_splits option.splits)

lemma parse_range_loop_within:
  assumes "parse_range_loop sz ras ranges no = Inr (rs, no')" "0 \<le> sz"
    "\<forall>r \<in> set ranges. 0 \<le> rStart r \<and> 0 \<le> rLength r \<and> rStart r + rLength r \<le> sz"
  shows "\<forall>r \<in> set rs. 0 \<le> rStart r \<and> 0 \<le> rLength r \<and> rStart r + rLength r \<le> sz"
  using assms
proof (induction ras arbitrary: ranges no)
  case Nil
  then show ?case by simp
next
  case (Cons ra ras)
  show ?case
  proof (cases "trim_string ra = []")
    case True
    with Cons.prems(1) have "parse_range_loop sz ras ranges no = Inr (rs, no')" by simp
    then show ?thesis using Cons.prems(2,3) by (rule Cons.IH)
  next
    case False
    with Cons.prems(1) obtain res where res: "parse_range_spec sz (trim_string ra) = Inr res"
      by (auto simp: Let_def split: sum.splits)
    show ?thesis
    proof (cases res)
      case None
      with Cons.prems False res have "parse_range_loop sz ras ranges True = Inr (rs, no')"
        by (simp add: Let_def)
      then show ?thesis using Cons.prems(2,3) by (rule Cons.IH)
    next
      case (Some r)
      with Cons.prems False res have "parse_range_loop sz ras (ranges @ [r]) no = Inr (rs, no')"
        by (simp add: Let_def)
      moreover have "\<forall>q \<in> set (ranges @ [r]). 0 \<le> rStart q \<and> 0 \<le> rLength q \<and> rStart q + rLength q \<le> sz"
        using parse_range_spec_within [of sz "trim_string ra" r] Cons.prems(2,3) res Some by auto
      ultimately show ?thesis using Cons.prems(2) by (intro Cons.IH)
    qed
  qed
qed

lemma parse_range_spec_format:
  assumes "0 \<le> a" "a \<le> b" "b < sz" "int64_range sz"
  shows "parse_range_spec sz (format_int a @ ''-'' @ format_int b) =
      Inr (Some \<lparr>rStart = a, rLength = b - a + 1\<rparr>)"
proof -
  have "cut_at (CHR ''-'') (format_int a @ ''-'' @ format_int b) = (format_int a, format_int b, True)"
    using assms by (simp add: format_int_nonneg cut_at_found)
  moreover have "int64_range a" "int64_range b" using assms by (auto simp: int64_range_def)
  ultimately show ?thesis using assms
    by (simp add: parse_range_spec_def format_int_nonneg Let_def)
      (simp add: format_int_nonneg [symmetric])
qed

section \<open>Properties\<close>

text \<open>C18 (ranges stay inside the content): every range \<open>ParseRange\<close> accepts for a content of
  \<open>size\<close> bytes starts at a non-negative offset and ends at the end of the content or before.\<close>

theorem ParseRange_within:
  assumes "ParseRange s sz = Inr rs" "0 \<le> sz" "r \<in> set rs"
  shows "0 \<le> rStart r \<and> 0 \<le> rLength r \<and> rStart r + rLength r \<le> sz"
proof (cases "s = []")
  case True
  with assms show ?thesis by (simp add: ParseRange_def)
next
  case False
  with assms(1) obtain no where
    "parse_range_loop sz (split_on (CHR '','') (drop 6 s)) [] False = Inr (rs, no)"
    by (auto simp: ParseRange_def split: if_splits sum.splits)
  from parse_range_loop_within [OF this assms(2)] assms(3) show ?thesis by simp
qed

theorem ParseRange_within_witness:
  "ParseRange ''bytes=0-4, 90-200,-5'' 100 =
     Inr [\<lparr>rStart = 0, rLength = 5\<rparr>, \<lparr>rStart = 90, rLength = 10\<rparr>, \<lparr>rStart = 95, rLength = 5\<rparr>] \<and>
   90 + 10 \<le> (100 :: int)"
proof -
  have p: "ParseRange ''bytes=0-4, 90-200,-5'' 100 =
     Inr [\<lparr>rStart = 0, rLength = 5\<rparr>, \<lparr>rStart = 90, rLength = 10\<rparr>, \<lparr>rStart = 95, rLength = 5\<rparr>]"
    by code_simp
  then show ?thesis
    using ParseRange_within [OF p, of "\<lparr>rStart = 90, rLength = 10\<rparr>"] by simp
qed

text \<open>Round trip of the request header: the \<open>Range\<close> header that the program sends for a
  non-empty range inside the content is parsed back to exactly that range.\<close>

theorem ApplyRange_ParseRange:
  assumes "0 \<le> rStart p" "0 < rLength p" "rStart p + rLength p \<le> sz" "int64_range sz"
  shows "\<exists>v. ApplyRangeToHttpHeader p h ''Range'' = Some [v] \<and>
      ParseRange v sz = Inr [\<lparr>rStart = rStart p, rLength = rLength p\<rparr>]"
proof -
  let ?e = "rStart p + rLength p - 1"
  let ?body = "format_int (rStart p) @ ''-'' @ format_int ?e"
  have e: "wrap64 ?e = ?e" using assms by (intro wrap64_id) (auto simp: int64_range_def)
  have nat: "format_int (rStart p) = format_nat (nat (rStart p))" "format_int ?e = format_nat (nat ?e)"
    using assms by (simp_all add: format_int_nonneg)
  have trim: "trim_string ?body = ?body" unfolding nat
    using format_nat_digits [of "hd (format_nat (nat (rStart p)))" "nat (rStart p)"]
      format_nat_digits [of "last (format_nat (nat ?e))" "nat ?e"]
    by (intro trim_string_id) (simp_all add: digit_not_space)
  have split: "split_on (CHR '','') ?body = [?body]" unfolding nat
    by (rule split_on_no_sep) simp
  have "parse_range_spec sz ?body = Inr (Some \<lparr>rStart = rStart p, rLength = rLength p\<rparr>)"
    using parse_range_spec_format [of "rStart p" ?e sz] assms by simp
  then have "ParseRange (''bytes='' @ ?body) sz = Inr [\<lparr>rStart = rStart p, rLength = rLength p\<rparr>]"
    using split trim by (simp add: ParseRange_def has_prefix_def)
  moreover have "ApplyRangeToHttpHeader p h ''Range'' = Some [''bytes='' @ ?body]"
    using assms e by (simp add: ApplyRangeToHttpHeader_def Let_def)
  ultimately show ?thesis by blast
qed

theorem ApplyRange_ParseRange_witness:
  "\<exists>v. ApplyRangeToHttpHeader \<lparr>rStart = 5, rLength = 3\<rparr> None ''Range'' = Some [v] \<and>
     ParseRange v 10 = Inr [\<lparr>rStart = 5, rLength = 3\<rparr>]"
  using ApplyRange_ParseRange [of "\<lparr>rStart = 5, rLength = 3\<rparr>" 10 None]
  by (simp add: int64_range_def)

text \<open>Round trip of the response header: \<open>ParseContentRange\<close> reads back the first and the
  last offset that \<open>ContentRange\<close> prints for a non-empty range.\<close>

theorem ContentRange_round_trip:
  assumes "0 \<le> rStart r" "0 < rLength r" "int64_range (rStart r + rLength r - 1)"
  shows "ParseContentRange (ContentRange r sz) =
      CRReturn (rStart r) (rStart r + rLength r - 1) None"
proof -
  let ?e = "rStart r + rLength r - 1"
  let ?a = "format_nat (nat (rStart r))" and ?b = "format_nat (nat ?e)" and ?z = "format_int sz"
  have nat: "format_int (rStart r) = ?a" "format_int ?e = ?b"
    using assms by (simp_all add: format_int_nonneg)
  have s: "ContentRange r sz = ''bytes '' @ ?a @ CHR ''-'' # ?b @ CHR ''/'' # ?z"
    using assms wrap64_id [OF assms(3)] nat by (simp add: ContentRange_def)
  have p1: "index_str ''-'' (ContentRange r sz) = Some (6 + length ?a)"
    using index_str_append [of "CHR ''-''" "''bytes '' @ ?a" "?b @ CHR ''/'' # ?z"] s by simp
  have p2: "index_str ''/'' (ContentRange r sz) = Some (7 + length ?a + length ?b)"
    using index_str_append [of "CHR ''/''" "''bytes '' @ ?a @ CHR ''-'' # ?b" "?z"] s by simp
  have "drop 6 (take (6 + length ?a) (ContentRange r sz)) = ?a"
    "drop (Suc (6 + length ?a)) (take (7 + length ?a + length ?b) (ContentRange r sz)) = ?b"
    by (simp_all add: s numeral_eq_Suc)
  moreover have "ParseInt ?a = (rStart r, None)" "ParseInt ?b = (?e, None)"
    using parse_int_format [of "rStart r"] parse_int_format [of ?e] assms nat
    by (auto simp: int64_range_def)
  ultimately show ?thesis using p1 p2
    by (simp add: ParseContentRange_def) (simp add: s has_prefix_def)
qed

theorem ContentRange_round_trip_witness:
  "ParseContentRange (ContentRange \<lparr>rStart = 10, rLength = 5\<rparr> 100) = CRReturn 10 14 None"
  using ContentRange_round_trip [of "\<lparr>rStart = 10, rLength = 5\<rparr>" 100]
  by (simp add: int64_range_def)

text \<open>(a malformed response header crashes the parser): when the slash comes before the first
  dash, \<open>ParseContentRange\<close> panics instead of returning an error.\<close>

theorem ParseContentRange_panics: "ParseContentRange ''bytes 0/5-3'' = CRPanic"
  by code_simp

end
