(* ===== verification/Users.thy ===== *)
theory Users
  imports Paths "HOL-Library.Word"
begin

text \<open>
  \<open>internal/model/user.go\<close>: the user record, the sixteen permission bits, password hashing and
  the join of request paths under the user's base path. SHA-256 (\<open>utils.HashData\<close> with
  \<open>utils.SHA256\<close>, a hex string) is a parameter \<open>sha256\<close> of the definitions that use it.
\<close>

unbundle bit_operations_syntax

section \<open>Data\<close>

definition GENERAL :: int where "GENERAL = 0"
definition GUEST :: int where "GUEST = 1"
definition ADMIN :: int where "ADMIN = 2"

definition StaticHashSalt :: string where
  "StaticHashSalt = ''https://github.com/alist-org/alist''"

record User =
  UserID :: nat
  Username :: string
  PwdHash :: string
  PwdTS :: int
  Salt :: string
  Password :: string
  BasePath :: string
  Role :: int
  UserDisabled :: bool
  Permission :: "32 word"
  OtpSecret :: string
  SsoID :: string
  Authn :: string
  AllowLdap :: bool

datatype pwd_error = EmptyPassword | WrongPassword

section \<open>Roles and permission bits\<close>

definition IsGuest :: "User \<Rightarrow> bool" where "IsGuest u \<longleftrightarrow> Role u = GUEST"
definition IsAdmin :: "User \<Rightarrow> bool" where "IsAdmin u \<longleftrightarrow> Role u = ADMIN"

text \<open>\<open>>>\<close> on \<open>int32\<close> is the arithmetic shift.\<close>

definition CanSeeHides :: "32 word \<Rightarrow> bool" where
  "CanSeeHides permission \<longleftrightarrow> permission AND 1 = 1"
definition CanAccessWithoutPassword :: "32 word \<Rightarrow> bool" where
  "CanAccessWithoutPassword permission \<longleftrightarrow> signed_drop_bit 1 permission AND 1 = 1"
definition CanAddOfflineDownloadTasks :: "32 word \<Rightarrow> bool" where
  "CanAddOfflineDownloadTasks permission \<longleftrightarrow> signed_drop_bit 2 permission AND 1 = 1"
definition CanWriteContent :: "32 word \<Rightarrow> bool" where
  "CanWriteContent permission \<longleftrightarrow> signed_drop_bit 3 permission AND 1 = 1"
definition CanRename :: "32 word \<Rightarrow> bool" where
  "CanRename permission \<longleftrightarrow> signed_drop_bit 4 permission AND 1 = 1"
definition CanMove :: "32 word \<Rightarrow> bool" where
  "CanMove permission \<longleftrightarrow> signed_drop_bit 5 permission AND 1 = 1"
definition CanCopy :: "32 word \<Rightarrow> bool" where
  "CanCopy permission \<longleftrightarrow> signed_drop_bit 6 permission AND 1 = 1"
definition CanRemove :: "32 word \<Rightarrow> bool" where
  "CanRemove permission \<longleftrightarrow> signed_drop_bit 7 permission AND 1 = 1"
definition CanWebdavRead :: "32 word \<Rightarrow> bool" where
  "CanWebdavRead permission \<longleftrightarrow> signed_drop_bit 8 permission AND 1 = 1"
definition CanWebdavManage :: "32 word \<Rightarrow> bool" where
  "CanWebdavManage permission \<longleftrightarrow> signed_drop_bit 9 permission AND 1 = 1"
definition CanFTPAccess :: "32 word \<Rightarrow> bool" where
  "CanFTPAccess permission \<longleftrightarrow> signed_drop_bit 10 permission AND 1 = 1"
definition CanFTPManage :: "32 word \<Rightarrow> bool" where
  "CanFTPManage permission \<longleftrightarrow> signed_drop_bit 11 permission AND 1 = 1"
definition CanReadArchives :: "32 word \<Rightarrow> bool" where
  "CanReadArchives permission \<longleftrightarrow> signed_drop_bit 12 permission AND 1 = 1"
definition CanDecompress :: "32 word \<Rightarrow> bool" where
  "CanDecompress permission \<longleftrightarrow> signed_drop_bit 13 permission AND 1 = 1"
definition CanShare :: "32 word \<Rightarrow> bool" where
  "CanShare permission \<longleftrightarrow> signed_drop_bit 14 permission AND 1 = 1"
definition CanCustomizeShareID :: "32 word \<Rightarrow> bool" where
  "CanCustomizeShareID permission \<longleftrightarrow> signed_drop_bit 15 permission AND 1 = 1"

section \<open>Passwords and paths\<close>

definition JoinPath :: "User \<Rightarrow> string \<Rightarrow> path_error + string" where
  "JoinPath u reqPath = JoinBasePath (BasePath u) reqPath"

definition StaticHash :: "(string \<Rightarrow> string) \<Rightarrow> string \<Rightarrow> string" where
  "StaticHash sha256 password = sha256 (password @ ''-'' @ StaticHashSalt)"

definition HashPwd :: "(string \<Rightarrow> string) \<Rightarrow> string \<Rightarrow> string \<Rightarrow> string" where
  "HashPwd sha256 static salt = sha256 (static @ ''-'' @ salt)"

definition TwoHashPwd :: "(string \<Rightarrow> string) \<Rightarrow> string \<Rightarrow> string \<Rightarrow> string" where
  "TwoHashPwd sha256 password salt = HashPwd sha256 (StaticHash sha256 password) salt"

definition ValidatePwdStaticHash :: "(string \<Rightarrow> string) \<Rightarrow> User \<Rightarrow> string \<Rightarrow> pwd_error option" where
  "ValidatePwdStaticHash sha256 u pwdStaticHash =
     (if pwdStaticHash = [] then Some EmptyPassword
      else if PwdHash u \<noteq> HashPwd sha256 pwdStaticHash (Salt u) then Some WrongPassword
      else None)"

definition ValidateRawPassword :: "(string \<Rightarrow> string) \<Rightarrow> User \<Rightarrow> string \<Rightarrow> pwd_error option" where
  "ValidateRawPassword sha256 u password = ValidatePwdStaticHash sha256 u (StaticHash sha256 password)"

text \<open>\<open>random.String(16)\<close> and \<open>time.Now().Unix()\<close> are the arguments \<open>salt\<close> and \<open>now\<close>.\<close>

definition SetPassword :: "(string \<Rightarrow> string) \<Rightarrow> string \<Rightarrow> int \<Rightarrow> User \<Rightarrow> string \<Rightarrow> User" where
  "SetPassword sha256 salt now u pwd =
     u\<lparr>Salt := salt, PwdHash := TwoHashPwd sha256 pwd salt, PwdTS := now\<rparr>"

text \<open>\<open>binary.LittleEndian.PutUint64\<close>.\<close>

definition WebAuthnID :: "User \<Rightarrow> string" where
  "WebAuthnID u = map (\<lambda>i. char_of ((UserID u mod 2 ^ 64) div 256 ^ i)) [0..<8]"

section \<open>Lemmas\<close>

lemma shifted_bit: "k < 32 \<Longrightarrow> signed_drop_bit k p AND 1 = 1 \<longleftrightarrow> bit p k" for p :: "32 word"
  using bit_signed_drop_bit_iff [of k p 0] by (auto simp: and_one_eq mod2_eq_if bit_0)

lemmas permission_defs =
  CanSeeHides_def CanAccessWithoutPassword_def CanAddOfflineDownloadTasks_def
  CanWriteContent_def CanRename_def CanMove_def CanCopy_def CanRemove_def CanWebdavRead_def
  CanWebdavManage_def CanFTPAccess_def CanFTPManage_def CanReadArchives_def CanDecompress_def
  CanShare_def CanCustomizeShareID_def

lemma CanSeeHides_bit: "CanSeeHides p \<longleftrightarrow> bit p 0"
  using shifted_bit [of 0 p] by (simp add: CanSeeHides_def)

lemma CanAccessWithoutPassword_bit: "CanAccessWithoutPassword p \<longleftrightarrow> bit p 1"
  by (simp add: CanAccessWithoutPassword_def shifted_bit del: bit_1_iff)

section \<open>Properties\<close>

text \<open>(permission bits): the sixteen permission checks read the sixteen low bits of the
  permission word, one each, in the order the user record documents them.\<close>

theorem permission_bits:
  "map (\<lambda>f. f p)
     [CanSeeHides, CanAccessWithoutPassword, CanAddOfflineDownloadTasks, CanWriteContent,
      CanRename, CanMove, CanCopy, CanRemove, CanWebdavRead, CanWebdavManage, CanFTPAccess,
      CanFTPManage, CanReadArchives, CanDecompress, CanShare, CanCustomizeShareID]
   = map (bit p) [0..<16]"
proof -
  have "[0..<16] = [0, 1, 2, 3, 4, 5, 6, 7, 8, 9, 10, 11, 12, 13, 14, 15 :: nat]"
    by (simp add: upt_rec)
  moreover have "CanSeeHides p \<longleftrightarrow> bit p 0" by (rule CanSeeHides_bit)
  ultimately show ?thesis by (simp add: permission_defs(2-) shifted_bit)
qed

text \<open>(password check): after \<open>SetPassword\<close>, a password is accepted exactly when it has the
  same salted double hash as the one that was set, whatever the hash function.\<close>

theorem SetPassword_Validate:
  assumes "sha256 (q @ ''-'' @ StaticHashSalt) \<noteq> []"
  shows "ValidateRawPassword sha256 (SetPassword sha256 salt now u pwd) q = None \<longleftrightarrow>
      TwoHashPwd sha256 q salt = TwoHashPwd sha256 pwd salt"
  using assms
  by (auto simp: ValidateRawPassword_def ValidatePwdStaticHash_def SetPassword_def TwoHashPwd_def
      StaticHash_def)

theorem SetPassword_Validate_witness:
  "\<forall>u. ValidateRawPassword rev (SetPassword rev ''salt'' 0 u ''pw'') ''pw'' = None \<and>
       ValidateRawPassword rev (SetPassword rev ''salt'' 0 u ''pw'') ''px'' \<noteq> None"
  by (simp add: SetPassword_Validate TwoHashPwd_def HashPwd_def StaticHash_def)

end
