(* ===== verification/Access.thy ===== *)
theory Access
  imports Users
begin

text \<open>
  Access control: the directory metadata record (\<open>internal/model/meta.go\<close>), the checks of
  \<open>server/common/check.go\<close>, and the cached lookup of the nearest metadata entry
  (\<open>internal/op/meta.go\<close>).

  Parameters: \<open>regexp2\<close> compiles a pattern (\<open>None\<close> when \<open>MustCompile\<close> panics) to a match
  predicate; the database is a record of operations over an unknown state.
\<close>

section \<open>Data\<close>

record Meta =
  MetaID :: nat
  MetaPath :: string
  ReadUsers :: "nat list"
  ReadUsersSub :: bool
  WriteUsers :: "nat list"
  WriteUsersSub :: bool
  MetaPassword :: string
  PSub :: bool
  Write :: bool
  WSub :: bool
  Hide :: string
  HSub :: bool
  Readme :: string
  RSub :: bool
  Header :: string
  HeaderSub :: bool

section \<open>The checks of common/check.go\<close>

definition MetaCoversPath :: "string \<Rightarrow> string \<Rightarrow> bool \<Rightarrow> bool" where
  "MetaCoversPath metaPath reqPath applyToSubFolder \<longleftrightarrow>
     (if PathEqual metaPath reqPath then True
      else IsSubPath metaPath reqPath \<and> applyToSubFolder)"

text \<open>A nil pointer is \<open>None\<close>.\<close>

definition CanRead :: "User option \<Rightarrow> Meta option \<Rightarrow> string \<Rightarrow> bool" where
  "CanRead user meta path =
     (case user of
        None \<Rightarrow> True
      | Some u \<Rightarrow>
          (case meta of
             None \<Rightarrow> True
           | Some m \<Rightarrow>
               \<not> (length (ReadUsers m) > 0 \<and> UserID u \<notin> set (ReadUsers m) \<and>
                  MetaCoversPath (MetaPath m) path (ReadUsersSub m))))"

definition CanWrite :: "User option \<Rightarrow> Meta option \<Rightarrow> string \<Rightarrow> bool" where
  "CanWrite user meta path =
     (case user of
        None \<Rightarrow> True
      | Some u \<Rightarrow>
          (case meta of
             None \<Rightarrow> True
           | Some m \<Rightarrow>
               \<not> (length (WriteUsers m) > 0 \<and> UserID u \<notin> set (WriteUsers m) \<and>
                  MetaCoversPath (MetaPath m) path (WriteUsersSub m))))"

definition CanWriteContentBypassUserPerms :: "Meta option \<Rightarrow> string \<Rightarrow> bool" where
  "CanWriteContentBypassUserPerms meta path =
     (case meta of
        None \<Rightarrow> False
      | Some m \<Rightarrow> if \<not> Write m then False else MetaCoversPath (MetaPath m) path (WSub m))"

text \<open>The loop over the hide patterns: \<open>None\<close> is the panic of \<open>MustCompile\<close>, \<open>Some True\<close> a match.\<close>

fun hide_loop :: "(string \<Rightarrow> (string \<Rightarrow> bool) option) \<Rightarrow> string \<Rightarrow> string list \<Rightarrow> bool option" where
  "hide_loop regexp2 name [] = Some False"
| "hide_loop regexp2 name (hide # hides) =
     (case regexp2 hide of
        None \<Rightarrow> None
      | Some re \<Rightarrow> if re name then Some True else hide_loop regexp2 name hides)"

text \<open>\<open>CanAccess\<close> dereferences the user, so a nil user panics (\<open>None\<close>).\<close>

definition CanAccess ::
    "(string \<Rightarrow> (string \<Rightarrow> bool) option) \<Rightarrow> User option \<Rightarrow> Meta option \<Rightarrow> string \<Rightarrow> string \<Rightarrow> bool option" where
  "CanAccess regexp2 user meta reqPath password =
     (case user of
        None \<Rightarrow> None
      | Some u \<Rightarrow>
          (case (case meta of
                   None \<Rightarrow> Some False
                 | Some m \<Rightarrow>
                     if \<not> CanSeeHides (Permission u) \<and> Hide m \<noteq> [] \<and>
                        MetaCoversPath (MetaPath m) (path_dir reqPath) (HSub m)
                     then hide_loop regexp2 (path_base reqPath) (split_on (CHR 0x0A) (Hide m))
                     else Some False) of
             None \<Rightarrow> None
           | Some True \<Rightarrow> Some False
           | Some False \<Rightarrow>
               if \<not> CanRead user meta reqPath then Some False
               else if CanAccessWithoutPassword (Permission u) then Some True
               else (case meta of
                  None \<Rightarrow> Some True
                | Some m \<Rightarrow>
                    if MetaPassword m = [] then Some True
                    else if \<not> MetaCoversPath (MetaPath m) reqPath (PSub m) then Some True
                    else Some (MetaPassword m = password))))"

section \<open>The cached metadata lookup of op/meta.go\<close>

datatype db_error = RecordNotFound | DbFailure string

datatype meta_error = MetaNotFound | MetaDbError string

type_synonym meta_cache = "string \<rightharpoonup> Meta option"

definition getMetaByPath ::
    "(string \<Rightarrow> db_error + Meta) \<Rightarrow> meta_cache \<Rightarrow> string \<Rightarrow> (meta_error + Meta) \<times> meta_cache" where
  "getMetaByPath db metaCache path =
     (case metaCache path of
        Some None \<Rightarrow> (Inl MetaNotFound, metaCache)
      | Some (Some meta) \<Rightarrow> (Inr meta, metaCache)
      | None \<Rightarrow>
          (case db path of
             Inl RecordNotFound \<Rightarrow> (Inl MetaNotFound, metaCache(path \<mapsto> None))
           | Inl (DbFailure e) \<Rightarrow> (Inl (MetaDbError e), metaCache)
           | Inr meta \<Rightarrow> (Inr meta, metaCache(path \<mapsto> Some meta))))"

definition GetMetaByPath ::
    "(string \<Rightarrow> db_error + Meta) \<Rightarrow> meta_cache \<Rightarrow> string \<Rightarrow> (meta_error + Meta) \<times> meta_cache" where
  "GetMetaByPath db metaCache path = getMetaByPath db metaCache (FixAndCleanPath path)"

text \<open>The recursion over \<open>path.Dir\<close>; not returning is \<open>None\<close>.\<close>

partial_function (option) getNearestMeta ::
    "(string \<Rightarrow> db_error + Meta) \<Rightarrow> meta_cache \<Rightarrow> string \<Rightarrow> ((meta_error + Meta) \<times> meta_cache) option" where
  "getNearestMeta db metaCache path =
     (case GetMetaByPath db metaCache path of
        (Inr meta, c) \<Rightarrow> Some (Inr meta, c)
      | (Inl e, c) \<Rightarrow>
          if e \<noteq> MetaNotFound then Some (Inl e, c)
          else if path = ''/'' then Some (Inl MetaNotFound, c)
          else getNearestMeta db c (path_dir path))"

definition GetNearestMeta ::
    "(string \<Rightarrow> db_error + Meta) \<Rightarrow> meta_cache \<Rightarrow> string \<Rightarrow> ((meta_error + Meta) \<times> meta_cache) option" where
  "GetNearestMeta db metaCache path = getNearestMeta db metaCache (FixAndCleanPath path)"

text \<open>The database operations \<open>internal/db/meta.go\<close> calls, over a state \<open>'s\<close>; a write returns
  the new state and its error.\<close>

record 's meta_db =
  dbGetByPath :: "'s \<Rightarrow> string \<Rightarrow> db_error + Meta"
  dbGetById :: "'s \<Rightarrow> nat \<Rightarrow> db_error + Meta"
  dbCreate :: "'s \<Rightarrow> Meta \<Rightarrow> 's \<times> db_error option"
  dbSave :: "'s \<Rightarrow> Meta \<Rightarrow> 's \<times> db_error option"
  dbDelete :: "'s \<Rightarrow> nat \<Rightarrow> 's \<times> db_error option"

definition CreateMeta :: "'s meta_db \<Rightarrow> Meta \<Rightarrow> 's \<times> meta_cache \<Rightarrow> ('s \<times> meta_cache) \<times> db_error option" where
  "CreateMeta db u st =
     (case st of (s, metaCache) \<Rightarrow>
        let u = u\<lparr>MetaPath := FixAndCleanPath (MetaPath u)\<rparr>;
            metaCache = metaCache(MetaPath u := None)
        in case dbCreate db s u of (s', err) \<Rightarrow> ((s', metaCache), err))"

definition UpdateMeta :: "'s meta_db \<Rightarrow> Meta \<Rightarrow> 's \<times> meta_cache \<Rightarrow> ('s \<times> meta_cache) \<times> db_error option" where
  "UpdateMeta db u st =
     (case st of (s, metaCache) \<Rightarrow>
        let u = u\<lparr>MetaPath := FixAndCleanPath (MetaPath u)\<rparr>
        in case dbGetById db s (MetaID u) of
             Inl e \<Rightarrow> ((s, metaCache), Some e)
           | Inr old \<Rightarrow>
               let metaCache = metaCache(MetaPath old := None, MetaPath u := None)
               in case dbSave db s u of (s', err) \<Rightarrow> ((s', metaCache), err))"

definition DeleteMetaById :: "'s meta_db \<Rightarrow> nat \<Rightarrow> 's \<times> meta_cache \<Rightarrow> ('s \<times> meta_cache) \<times> db_error option" where
  "DeleteMetaById db mid st =
     (case st of (s, metaCache) \<Rightarrow>
        case dbGetById db s mid of
          Inl e \<Rightarrow> ((s, metaCache), Some e)
        | Inr old \<Rightarrow>
            let metaCache = metaCache(MetaPath old := None)
            in case dbDelete db s mid of (s', err) \<Rightarrow> ((s', metaCache), err))"

text \<open>The requests of the component and their effect on the state.\<close>

datatype meta_req = ReqGet string | ReqCreate Meta | ReqUpdate Meta | ReqDelete nat

fun meta_step :: "'s meta_db \<Rightarrow> meta_req \<Rightarrow> 's \<times> meta_cache \<Rightarrow> 's \<times> meta_cache" where
  "meta_step db (ReqGet p) (s, c) = (s, snd (GetMetaByPath (dbGetByPath db s) c p))"
| "meta_step db (ReqCreate u) st = fst (CreateMeta db u st)"
| "meta_step db (ReqUpdate u) st = fst (UpdateMeta db u st)"
| "meta_step db (ReqDelete mid) st = fst (DeleteMetaById db mid st)"

definition meta_run :: "'s meta_db \<Rightarrow> meta_req list \<Rightarrow> 's \<times> meta_cache \<Rightarrow> 's \<times> meta_cache" where
  "meta_run db reqs st = foldl (\<lambda>st r. meta_step db r st) st reqs"

section \<open>Specification and lemmas\<close>

text \<open>What a write may change: only the rows at the path it names or replaces.\<close>

definition meta_db_frame :: "'s meta_db \<Rightarrow> bool" where
  "meta_db_frame db \<longleftrightarrow>
     (\<forall>s u p. p \<noteq> MetaPath u \<longrightarrow>
        dbGetByPath db (fst (dbCreate db s u)) p = dbGetByPath db s p) \<and>
     (\<forall>s u old p. dbGetById db s (MetaID u) = Inr old \<longrightarrow> p \<noteq> MetaPath old \<longrightarrow> p \<noteq> MetaPath u \<longrightarrow>
        dbGetByPath db (fst (dbSave db s u)) p = dbGetByPath db s p) \<and>
     (\<forall>s i old p. dbGetById db s i = Inr old \<longrightarrow> p \<noteq> MetaPath old \<longrightarrow>
        dbGetByPath db (fst (dbDelete db s i)) p = dbGetByPath db s p)"

text \<open>The cache agrees with the database.\<close>

definition meta_coherent :: "(string \<Rightarrow> db_error + Meta) \<Rightarrow> meta_cache \<Rightarrow> bool" where
  "meta_coherent db metaCache \<longleftrightarrow>
     (\<forall>p. (metaCache p = Some None \<longrightarrow> db p = Inl RecordNotFound) \<and>
          (\<forall>m. metaCache p = Some (Some m) \<longrightarrow> db p = Inr m))"

definition db_result :: "db_error + Meta \<Rightarrow> meta_error + Meta" where
  "db_result r = (case r of Inl RecordNotFound \<Rightarrow> Inl MetaNotFound
                          | Inl (DbFailure e) \<Rightarrow> Inl (MetaDbError e) | Inr m \<Rightarrow> Inr m)"

lemma getMetaByPath_coherent:
  assumes "meta_coherent db c"
  shows "fst (getMetaByPath db c p) = db_result (db p) \<and> meta_coherent db (snd (getMetaByPath db c p))"
  using assms
  by (auto simp: getMetaByPath_def meta_coherent_def db_result_def
      split: option.splits sum.splits db_error.splits)

lemma meta_coherent_forget:
  "meta_coherent db c \<Longrightarrow> (\<And>p. c' p \<noteq> None \<Longrightarrow> c' p = c p \<and> db' p = db p) \<Longrightarrow> meta_coherent db' c'"
  by (auto simp: meta_coherent_def)

lemma meta_db_frameD:
  assumes "meta_db_frame db"
  shows "p \<noteq> MetaPath u \<Longrightarrow> dbCreate db s u = (s', e) \<Longrightarrow> dbGetByPath db s' p = dbGetByPath db s p"
    and "dbGetById db s (MetaID u) = Inr old \<Longrightarrow> p \<noteq> MetaPath old \<Longrightarrow> p \<noteq> MetaPath u \<Longrightarrow>
      dbSave db s u = (s', e) \<Longrightarrow> dbGetByPath db s' p = dbGetByPath db s p"
    and "dbGetById db s i = Inr old \<Longrightarrow> p \<noteq> MetaPath old \<Longrightarrow> dbDelete db s i = (s', e) \<Longrightarrow>
      dbGetByPath db s' p = dbGetByPath db s p"
  using assms unfolding meta_db_frame_def by (metis fst_conv)+

lemma meta_step_coherent:
  assumes frame: "meta_db_frame db" and coh: "meta_coherent (dbGetByPath db s) c"
    and step: "meta_step db r (s, c) = (s', c')"
  shows "meta_coherent (dbGetByPath db s') c'"
proof (cases r)
  case (ReqGet p)
  then show ?thesis using step getMetaByPath_coherent [OF coh] by (auto simp: GetMetaByPath_def)
next
  case (ReqCreate u)
  with step show ?thesis
    by (auto simp: CreateMeta_def Let_def split: prod.splits if_splits
        intro!: meta_coherent_forget [OF coh] meta_db_frameD(1) [OF frame])
next
  case (ReqUpdate u)
  show ?thesis
  proof (cases "dbGetById db s (MetaID u)")
    case (Inl e)
    with ReqUpdate step coh show ?thesis by (simp add: UpdateMeta_def Let_def)
  next
    case (Inr old)
    with ReqUpdate step show ?thesis
      by (auto simp: UpdateMeta_def Let_def split: prod.splits if_splits
          intro!: meta_coherent_forget [OF coh]
            meta_db_frameD(2) [OF frame, of s "u\<lparr>MetaPath := FixAndCleanPath (MetaPath u)\<rparr>" old])
  qed
next
  case (ReqDelete i)
  show ?thesis
  proof (cases "dbGetById db s i")
    case (Inl e)
    with ReqDelete step coh show ?thesis by (simp add: DeleteMetaById_def)
  next
    case (Inr old)
    with ReqDelete step show ?thesis
      by (auto simp: DeleteMetaById_def Let_def split: prod.splits if_splits
          intro!: meta_coherent_forget [OF coh] meta_db_frameD(3) [OF frame Inr])
  qed
qed

lemma meta_run_coherent:
  assumes "meta_db_frame db" "meta_coherent (dbGetByPath db s) c" "meta_run db reqs (s, c) = (s', c')"
  shows "meta_coherent (dbGetByPath db s') c'"
  using assms(2,3)
proof (induction reqs arbitrary: s c)
  case Nil
  then show ?case by (simp add: meta_run_def)
next
  case (Cons r reqs)
  obtain s1 c1 where st: "meta_step db r (s, c) = (s1, c1)" by fastforce
  with Cons.prems have "meta_coherent (dbGetByPath db s1) c1"
    using meta_step_coherent [OF assms(1)] by blast
  moreover have "meta_run db reqs (s1, c1) = (s', c')"
    using Cons.prems(2) st by (simp add: meta_run_def)
  ultimately show ?case by (rule Cons.IH)
qed

lemma meta_coherent_empty: "meta_coherent db Map.empty"
  by (simp add: meta_coherent_def)

lemma hide_loop_spec:
  assumes "\<forall>h \<in> set hs. regexp2 h \<noteq> None"
  shows "hide_loop regexp2 name hs = Some (\<exists>h \<in> set hs. \<exists>re. regexp2 h = Some re \<and> re name)"
  using assms by (induction hs) auto

lemma MetaCoversPath_iff:
  "MetaCoversPath m p app \<longleftrightarrow> PathEqual m p \<or> IsSubPath m p \<and> app"
  by (simp add: MetaCoversPath_def)

lemma MetaCoversPath_comps:
  "MetaCoversPath m p app \<longleftrightarrow> path_comps p = path_comps m \<or> app \<and> prefix (path_comps m) (path_comps p)"
  by (auto simp: MetaCoversPath_iff PathEqual_comps IsSubPath_comps)

lemma MetaCoversPath_below:
  "IsSubPath m p \<Longrightarrow> MetaCoversPath m p True"
  by (simp add: MetaCoversPath_iff)

lemma getNearestMeta_comps:
  assumes coh: "meta_coherent db c" and good: "good_comps cs" and nb: "\<forall>d \<in> set cs. CHR 0x5C \<notin> set d"
    and ok: "\<forall>q e. db q = Inl e \<longrightarrow> e = RecordNotFound"
  shows "\<exists>res c'. getNearestMeta db c (abs_path cs) = Some (res, c') \<and> meta_coherent db c' \<and>
     (case res of
        Inl e \<Rightarrow> e = MetaNotFound \<and> (\<forall>ds \<in> set (prefixes cs). db (abs_path ds) = Inl RecordNotFound)
      | Inr m \<Rightarrow> (\<exists>ds \<in> set (prefixes cs). db (abs_path ds) = Inr m \<and>
          (\<forall>es \<in> set (prefixes cs). length ds < length es \<longrightarrow> db (abs_path es) = Inl RecordNotFound)))"
  using coh good nb
proof (induction cs arbitrary: c rule: rev_induct)
  case Nil
  obtain res c' where r: "GetMetaByPath db c ''/'' = (res, c')" by fastforce
  have "FixAndCleanPath ''/'' = ''/''" by code_simp
  then have "res = db_result (db ''/'')" "meta_coherent db c'"
    using getMetaByPath_coherent [OF Nil.prems(1), of "''/''"] r by (simp_all add: GetMetaByPath_def)
  then show ?case using r ok
    by (cases "db ''/''")
      (auto simp: abs_path_def getNearestMeta.simps [of db c "''/''"] db_result_def split: db_error.splits)
next
  case (snoc d cs)
  let ?p = "abs_path (cs @ [d])"
  obtain res c' where r: "GetMetaByPath db c ?p = (res, c')" by fastforce
  have "path_comps ?p = cs @ [d]" using snoc.prems by (intro path_comps_abs_path) auto
  then have "FixAndCleanPath ?p = ?p" by (simp add: FixAndCleanPath_comps)
  then have res: "res = db_result (db ?p)" and coh': "meta_coherent db c'"
    using getMetaByPath_coherent [OF snoc.prems(1), of ?p] r by (simp_all add: GetMetaByPath_def)
  have root: "?p \<noteq> ''/''"
    using abs_path_inject [of "cs @ [d]" "[]"] snoc.prems(2) by (auto simp: abs_path_def)
  have dir: "path_dir ?p = abs_path cs" using snoc.prems(2) by (simp add: path_dir_abs_snoc)
  show ?case
  proof (cases "db ?p")
    case (Inr m)
    then have "getNearestMeta db c ?p = Some (Inr m, c')"
      using r res by (simp add: getNearestMeta.simps [of db c ?p] db_result_def)
    moreover have "\<not> length (cs @ [d]) < length es" if "es \<in> set (prefixes (cs @ [d]))" for es
      using that by (auto dest: prefix_length_le)
    ultimately show ?thesis using Inr coh' by (auto intro!: bexI [of _ "cs @ [d]"])
  next
    case (Inl e)
    then have e: "db ?p = Inl RecordNotFound" using ok by auto
    then have eq: "getNearestMeta db c ?p = getNearestMeta db c' (abs_path cs)"
      using r res root dir by (simp add: getNearestMeta.simps [of db c ?p] db_result_def)
    from snoc.IH [OF coh'] snoc.prems obtain res2 c2 where
      "getNearestMeta db c' (abs_path cs) = Some (res2, c2)" "meta_coherent db c2" and
      r2: "case res2 of
        Inl e \<Rightarrow> e = MetaNotFound \<and> (\<forall>ds \<in> set (prefixes cs). db (abs_path ds) = Inl RecordNotFound)
      | Inr m \<Rightarrow> (\<exists>ds \<in> set (prefixes cs). db (abs_path ds) = Inr m \<and>
          (\<forall>es \<in> set (prefixes cs). length ds < length es \<longrightarrow> db (abs_path es) = Inl RecordNotFound))"
      by auto
    moreover have "set (prefixes (cs @ [d])) = insert (cs @ [d]) (set (prefixes cs))"
      by (auto simp: prefix_snoc)
    ultimately show ?thesis using eq e by (cases res2) auto
  qed
qed

section \<open>A concrete database and concrete records\<close>

text \<open>A table as a list of rows, first match by key: an instance of the database parameter.\<close>

definition table_find :: "(Meta \<Rightarrow> bool) \<Rightarrow> Meta list \<Rightarrow> db_error + Meta" where
  "table_find P rows = (case find P rows of None \<Rightarrow> Inl RecordNotFound | Some m \<Rightarrow> Inr m)"

fun table_save :: "Meta list \<Rightarrow> Meta \<Rightarrow> Meta list" where
  "table_save [] u = [u]"
| "table_save (m # ms) u = (if MetaID m = MetaID u then u # ms else m # table_save ms u)"

fun table_delete :: "Meta list \<Rightarrow> nat \<Rightarrow> Meta list" where
  "table_delete [] i = []"
| "table_delete (m # ms) i = (if MetaID m = i then ms else m # table_delete ms i)"

definition table_db :: "Meta list meta_db" where
  "table_db = \<lparr>dbGetByPath = (\<lambda>s p. table_find (\<lambda>m. MetaPath m = p) s),
     dbGetById = (\<lambda>s i. table_find (\<lambda>m. MetaID m = i) s),
     dbCreate = (\<lambda>s u. (s @ [u], None)),
     dbSave = (\<lambda>s u. (table_save s u, None)),
     dbDelete = (\<lambda>s i. (table_delete s i, None))\<rparr>"

lemma table_db_frame: "meta_db_frame table_db"
proof -
  have create: "find (\<lambda>m. MetaPath m = p) (s @ [u]) = find (\<lambda>m. MetaPath m = p) s"
    if "p \<noteq> MetaPath u" for p u s
    using that by (induction s) auto
  have save: "find (\<lambda>m. MetaPath m = p) (table_save s u) = find (\<lambda>m. MetaPath m = p) s"
    if "find (\<lambda>m. MetaID m = MetaID u) s = Some old" "p \<noteq> MetaPath old" "p \<noteq> MetaPath u" for p u s old
    using that by (induction s) (auto split: if_splits)
  have del: "find (\<lambda>m. MetaPath m = p) (table_delete s i) = find (\<lambda>m. MetaPath m = p) s"
    if "find (\<lambda>m. MetaID m = i) s = Some old" "p \<noteq> MetaPath old" for p s i old
    using that by (induction s) (auto split: if_splits)
  show ?thesis
    by (auto simp: meta_db_frame_def table_db_def table_find_def create save del split: option.splits)
qed

definition example_meta :: Meta where
  "example_meta = \<lparr>MetaID = 1, MetaPath = ''/vip'', ReadUsers = [], ReadUsersSub = False,
     WriteUsers = [], WriteUsersSub = False, MetaPassword = ''pw'', PSub = True, Write = False,
     WSub = False, Hide = ''secret'', HSub = True, Readme = [], RSub = False, Header = [],
     HeaderSub = False\<rparr>"

definition example_user :: User where
  "example_user = \<lparr>UserID = 7, Username = ''u'', PwdHash = [], PwdTS = 0, Salt = [], Password = [],
     BasePath = ''/'', Role = GENERAL, UserDisabled = False, Permission = 0, OtpSecret = [],
     SsoID = [], Authn = [], AllowLdap = False\<rparr>"

lemma example_user_bits [simp]:
  "\<not> CanSeeHides (Permission example_user)" "\<not> CanAccessWithoutPassword (Permission example_user)"
  by (simp_all add: example_user_def CanSeeHides_def CanAccessWithoutPassword_def)

section \<open>Properties\<close>

text \<open>C7 (access decision): for a user of any role and hide patterns that compile, \<open>CanAccess\<close> answers, and it grants
  access exactly when the user may see hidden names (bit 0) or the name matches no hide pattern of an entry that applies
  to its folder, the reader list is empty, names the user or does not apply to the path, and the user may skip passwords (bit
  1), the entry has none that applies to the path, or the right one is given. An entry applies to a path if its folder is
  the path, or an ancestor of it, component by component, and the entry is meant for sub-folders.\<close>

theorem CanAccess_iff:
  assumes "\<forall>m. meta = Some m \<longrightarrow> (\<forall>h \<in> set (split_on (CHR 0x0A) (Hide m)). regexp2 h \<noteq> None)"
  shows "CanAccess regexp2 (Some u) meta reqPath password = Some (case meta of None \<Rightarrow> True | Some m \<Rightarrow>
     (let applies = (\<lambda>sub p. path_comps p = path_comps (MetaPath m) \<or> sub \<and> prefix (path_comps (MetaPath m)) (path_comps p)) in
        (bit (Permission u) 0 \<or> Hide m = [] \<or> \<not> applies (HSub m) (path_dir reqPath) \<or>
          (\<forall>h \<in> set (split_on (CHR 0x0A) (Hide m)). \<forall>re. regexp2 h = Some re \<longrightarrow> \<not> re (path_base reqPath))) \<and>
        (ReadUsers m = [] \<or> UserID u \<in> set (ReadUsers m) \<or> \<not> applies (ReadUsersSub m) reqPath) \<and>
        (bit (Permission u) 1 \<or> MetaPassword m = [] \<or> \<not> applies (PSub m) reqPath \<or> MetaPassword m = password)))"
proof (cases meta)
  case None
  then show ?thesis by (simp add: CanAccess_def CanRead_def)
next
  case (Some m)
  then have "hide_loop regexp2 name (split_on (CHR 0x0A) (Hide m)) =
      Some (\<exists>h \<in> set (split_on (CHR 0x0A) (Hide m)). \<exists>re. regexp2 h = Some re \<and> re name)" for name
    using assms by (intro hide_loop_spec) blast
  then show ?thesis
    by (auto simp: CanAccess_def CanRead_def Some MetaCoversPath_comps CanSeeHides_bit CanAccessWithoutPassword_bit Let_def
        simp del: bit_1_iff bit_0 split: bool.split)
qed

theorem CanAccess_iff_witness:
  "CanAccess (\<lambda>h. Some (\<lambda>n. n = h)) (Some example_user) (Some example_meta) ''/vip/a'' ''pw'' = Some True \<and>
   CanAccess (\<lambda>h. Some (\<lambda>n. n = h)) (Some example_user) (Some example_meta) ''/vip/secret'' ''pw'' = Some False"
proof -
  have "path_base ''/vip/a'' = ''a''" "path_base ''/vip/secret'' = ''secret''"
    "split_on (CHR 0x0A) (Hide example_meta) = [''secret'']" "Hide example_meta \<noteq> []" "HSub example_meta"
    "prefix (path_comps (MetaPath example_meta)) (path_comps (path_dir ''/vip/secret''))"
    "MetaPassword example_meta = ''pw''" "ReadUsers example_meta = []" "\<not> bit (Permission example_user) 0"
    by code_simp+
  then show ?thesis by (subst CanAccess_iff, simp)+ (simp add: Let_def del: bit_0)
qed

text \<open>Protected folder: a password that applies to sub-folders guards every path below the
  folder: without the password, and without the right to skip it, nothing there is accessible.\<close>

theorem password_guards_subtree:
  assumes "MetaPassword m \<noteq> []" "PSub m" "IsSubPath (MetaPath m) reqPath"
    "\<not> CanAccessWithoutPassword (Permission u)" "password \<noteq> MetaPassword m"
  shows "CanAccess regexp2 (Some u) (Some m) reqPath password \<noteq> Some True"
  using assms MetaCoversPath_below [of "MetaPath m" reqPath]
  by (auto simp: CanAccess_def split: option.splits bool.splits)

theorem password_guards_subtree_witness:
  "CanAccess (\<lambda>h. Some (\<lambda>n. n = h)) (Some example_user) (Some example_meta) ''/vip/a/b'' ''x'' \<noteq> Some True"
proof -
  have "MetaPassword example_meta \<noteq> []" "PSub example_meta" "''x'' \<noteq> MetaPassword example_meta"
    by (simp_all add: example_meta_def)
  moreover have "IsSubPath (MetaPath example_meta) ''/vip/a/b''" by code_simp
  ultimately show ?thesis by (intro password_guards_subtree) simp_all
qed

text \<open>C29 (nearest metadata): with a database that answers, \<open>GetNearestMeta\<close> returns; the answer is
  the entry of the deepest ancestor of the path that has one, \<open>MetaNotFound\<close> exactly when no
  ancestor has one, and the cache stays in agreement with the database.\<close>

theorem GetNearestMeta_deepest:
  assumes "meta_coherent db c" "\<forall>q e. db q = Inl e \<longrightarrow> e = RecordNotFound"
  shows "\<exists>res c'. GetNearestMeta db c path = Some (res, c') \<and> meta_coherent db c' \<and>
     (case res of
        Inl e \<Rightarrow> e = MetaNotFound \<and> (\<forall>q \<in> set (GetPathHierarchy path). db q = Inl RecordNotFound)
      | Inr m \<Rightarrow> (\<exists>ds. prefix ds (path_comps path) \<and> db (abs_path ds) = Inr m \<and>
          (\<forall>es. prefix es (path_comps path) \<and> length ds < length es \<longrightarrow>
             db (abs_path es) = Inl RecordNotFound)))"
proof -
  have h: "GetPathHierarchy path = map abs_path (prefixes (path_comps path))"
    by (rule GetPathHierarchy_eq)
  have "\<exists>res c'. getNearestMeta db c (abs_path (path_comps path)) = Some (res, c') \<and> meta_coherent db c' \<and>
     (case res of
        Inl e \<Rightarrow> e = MetaNotFound \<and> (\<forall>ds \<in> set (prefixes (path_comps path)). db (abs_path ds) = Inl RecordNotFound)
      | Inr m \<Rightarrow> (\<exists>ds \<in> set (prefixes (path_comps path)). db (abs_path ds) = Inr m \<and>
          (\<forall>es \<in> set (prefixes (path_comps path)). length ds < length es \<longrightarrow> db (abs_path es) = Inl RecordNotFound)))"
    using assms path_comps_no_backslash by (intro getNearestMeta_comps) auto
  then show ?thesis
    unfolding GetNearestMeta_def FixAndCleanPath_comps h
    by (fastforce split: sum.splits)
qed

theorem GetNearestMeta_deepest_witness:
  "\<exists>res c'. GetNearestMeta (\<lambda>p. table_find (\<lambda>m. MetaPath m = p) [example_meta]) Map.empty ''/vip/a'' =
     Some (res, c')"
proof -
  have "\<forall>q e. table_find (\<lambda>m. MetaPath m = q) [example_meta] = Inl e \<longrightarrow> e = RecordNotFound"
    by (simp add: table_find_def)
  from GetNearestMeta_deepest [OF meta_coherent_empty this] show ?thesis by blast
qed

text \<open>C28 (cache coherence): after any sequence of lookups, creations, updates and deletions,
  started with an empty cache, a lookup answers what the database holds at that moment.\<close>

theorem meta_cache_transparent:
  assumes "meta_db_frame db" "meta_run db reqs (s, Map.empty) = (s', c')"
  shows "fst (GetMetaByPath (dbGetByPath db s') c' path) = db_result (dbGetByPath db s' (FixAndCleanPath path))"
  using getMetaByPath_coherent [OF meta_run_coherent [OF assms(1) meta_coherent_empty assms(2)]]
  by (simp add: GetMetaByPath_def)

theorem meta_cache_transparent_witness:
  "\<exists>s' c'. meta_run table_db [ReqGet ''/vip'', ReqCreate example_meta] ([], Map.empty) = (s', c') \<and>
     fst (GetMetaByPath (dbGetByPath table_db s') c' ''/vip'') =
       db_result (dbGetByPath table_db s' (FixAndCleanPath ''/vip''))"
proof -
  obtain s' c' where
    run: "meta_run table_db [ReqGet ''/vip'', ReqCreate example_meta] ([], Map.empty) = (s', c')"
    by fastforce
  show ?thesis using run meta_cache_transparent [OF table_db_frame run] by blast
qed

end
