(* ===== verification/Signing.thy ===== *)
theory Signing
  imports Access
begin

text \<open>
  Signed download links: \<open>pkg/sign/hmac.go\<close>, its two instances in \<open>internal/sign\<close>, and the
  download gate \<open>server/middlewares/down.go\<close> that asks for a signature.

  Parameter: \<open>mac key msg\<close> is the base64url text of the HMAC-SHA256 of \<open>msg\<close>; writing to the
  hash never fails. Times are Unix seconds, durations and clock readings nanoseconds.
\<close>

section \<open>Operations\<close>

datatype sign_error = ErrSignExpired | ErrSignInvalid | ErrExpireInvalid | ErrExpireMissing

definition HMACSign_Sign :: "(string \<Rightarrow> string \<Rightarrow> string) \<Rightarrow> string \<Rightarrow> string \<Rightarrow> int \<Rightarrow> string" where
  "HMACSign_Sign mac SecretKey dat expire =
     (let expireTimeStamp = format_int expire
      in mac SecretKey (dat @ '':'' @ expireTimeStamp) @ '':'' @ expireTimeStamp)"

definition HMACSign_Verify ::
    "(string \<Rightarrow> string \<Rightarrow> string) \<Rightarrow> string \<Rightarrow> int \<Rightarrow> string \<Rightarrow> string \<Rightarrow> sign_error option" where
  "HMACSign_Verify mac SecretKey now dat sign =
     (let exp = (case last_index_str '':'' sign of None \<Rightarrow> sign | Some i \<Rightarrow> drop (Suc i) sign) in
        if exp = [] then Some ErrExpireMissing
        else (case parse_int exp of
            None \<Rightarrow> Some ErrExpireInvalid
          | Some expires \<Rightarrow>
              if expires < now \<and> expires \<noteq> 0 then Some ErrSignExpired
              else if HMACSign_Sign mac SecretKey dat expires \<noteq> sign then Some ErrSignInvalid
              else None))"

text \<open>\<open>internal/sign\<close>: the token setting is the key; \<open>hour\<close> is \<open>time.Hour\<close>.\<close>

definition hour :: int where "hour = 3600 * 10 ^ 9"

definition NotExpired :: "(string \<Rightarrow> string \<Rightarrow> string) \<Rightarrow> string \<Rightarrow> string \<Rightarrow> string" where
  "NotExpired mac token dat = HMACSign_Sign mac token dat 0"

definition WithDuration :: "(string \<Rightarrow> string \<Rightarrow> string) \<Rightarrow> string \<Rightarrow> int \<Rightarrow> string \<Rightarrow> int \<Rightarrow> string" where
  "WithDuration mac token nowNano dat d = HMACSign_Sign mac token dat ((nowNano + d) div 10 ^ 9)"

definition Sign :: "(string \<Rightarrow> string \<Rightarrow> string) \<Rightarrow> string \<Rightarrow> int \<Rightarrow> int \<Rightarrow> string \<Rightarrow> string" where
  "Sign mac token linkExpiration nowNano dat =
     (if linkExpiration = 0 then NotExpired mac token dat
      else WithDuration mac token nowNano dat (wrap64 (linkExpiration * hour)))"

definition Verify :: "(string \<Rightarrow> string \<Rightarrow> string) \<Rightarrow> string \<Rightarrow> int \<Rightarrow> string \<Rightarrow> string \<Rightarrow> sign_error option" where
  "Verify mac token nowNano dat sign = HMACSign_Verify mac token (nowNano div 10 ^ 9) dat sign"

definition archive_key :: "string \<Rightarrow> string" where
  "archive_key token = token @ ''-archive''"

definition SignArchive :: "(string \<Rightarrow> string \<Rightarrow> string) \<Rightarrow> string \<Rightarrow> int \<Rightarrow> int \<Rightarrow> string \<Rightarrow> string" where
  "SignArchive mac token linkExpiration nowNano dat =
     (if linkExpiration = 0 then HMACSign_Sign mac (archive_key token) dat 0
      else HMACSign_Sign mac (archive_key token) dat
             ((nowNano + wrap64 (linkExpiration * hour)) div 10 ^ 9))"

definition VerifyArchive :: "(string \<Rightarrow> string \<Rightarrow> string) \<Rightarrow> string \<Rightarrow> int \<Rightarrow> string \<Rightarrow> string \<Rightarrow> sign_error option" where
  "VerifyArchive mac token nowNano dat sign =
     HMACSign_Verify mac (archive_key token) (nowNano div 10 ^ 9) dat sign"

text \<open>\<open>signAll\<close> is the setting \<open>sign_all\<close>, \<open>storageSign\<close> is \<open>common.IsStorageSignEnabled\<close>.\<close>

definition needSign :: "bool \<Rightarrow> (string \<Rightarrow> bool) \<Rightarrow> Meta option \<Rightarrow> string \<Rightarrow> bool" where
  "needSign signAll storageSign meta path =
     (if signAll then True
      else if storageSign path then True
      else (case meta of
          None \<Rightarrow> False
        | Some m \<Rightarrow>
            if MetaPassword m = [] then False
            else if \<not> PSub m \<and> path \<noteq> MetaPath m then False
            else True))"

text \<open>The middleware either lets the request through with the metadata it found or answers an
  error page and aborts. \<open>nearest\<close> is the result of \<open>op.GetNearestMeta\<close>.\<close>

datatype down_outcome =
    DownNext "Meta option"
  | DownInternalError string
  | DownUnauthorized sign_error

definition Down ::
    "(string \<Rightarrow> string \<Rightarrow> sign_error option) \<Rightarrow> bool \<Rightarrow> (string \<Rightarrow> bool) \<Rightarrow>
     (string \<Rightarrow> meta_error + Meta) \<Rightarrow> string \<Rightarrow> string \<Rightarrow> down_outcome" where
  "Down verifyFunc signAll storageSign nearest rawPath query =
     (case nearest rawPath of
        Inl (MetaDbError e) \<Rightarrow> DownInternalError e
      | r \<Rightarrow>
          (let meta = (case r of Inl _ \<Rightarrow> None | Inr m \<Rightarrow> Some m) in
             if needSign signAll storageSign meta rawPath then
               (case verifyFunc rawPath (trim_suffix query ''/'') of
                  Some e \<Rightarrow> DownUnauthorized e
                | None \<Rightarrow> DownNext meta)
             else DownNext meta))"

section \<open>The signer interface\<close>

text \<open>What the users of \<open>sign.Sign\<close> rely on: a signature is accepted for its data until it
  expires, never afterwards.\<close>

locale link_signer =
  fixes sgn :: "string \<Rightarrow> int \<Rightarrow> string" and vrf :: "int \<Rightarrow> string \<Rightarrow> string \<Rightarrow> sign_error option"
  assumes accepts: "int64_range e \<Longrightarrow> e = 0 \<or> now \<le> e \<Longrightarrow> vrf now d (sgn d e) = None"
    and rejects: "int64_range e \<Longrightarrow> e \<noteq> 0 \<Longrightarrow> e < now \<Longrightarrow> vrf now d (sgn d e) = Some ErrSignExpired"
begin

lemma accepted_iff: "int64_range e \<Longrightarrow> vrf now d (sgn d e) = None \<longleftrightarrow> e = 0 \<or> now \<le> e"
  using accepts rejects by (metis linorder_not_le option.distinct(1))

lemma accepted_before:
  "int64_range e \<Longrightarrow> now \<le> now' \<Longrightarrow> vrf now' d (sgn d e) = None \<Longrightarrow> vrf now d (sgn d e) = None"
  by (auto simp: accepted_iff)

end

lemma format_int_no_colon: "CHR '':'' \<notin> set (format_int i)"
proof
  assume "CHR '':'' \<in> set (format_int i)"
  then have "is_digit (CHR '':'') \<or> CHR '':'' = CHR ''-''"
    using format_nat_digits by (auto simp: format_int_def split: if_splits)
  then show False by (simp add: is_digit_def)
qed

lemma last_index_colon: "CHR '':'' \<notin> set b \<Longrightarrow> last_index_str '':'' (a @ CHR '':'' # b) = Some (length a)"
proof (induction a)
  case Nil
  have "last_index_str '':'' b = None" if "CHR '':'' \<notin> set b" for b
    using that by (induction b) auto
  with Nil show ?case by simp
qed simp

lemma unix_seconds: "10 ^ 9 \<le> a \<Longrightarrow> 1 \<le> a div 10 ^ 9 \<and> a div 10 ^ 9 \<le> a" for a :: int
  using pos_imp_zdiv_pos_iff [of "10 ^ 9" a] int_div_less_self [of a "10 ^ 9"] by auto

lemma Verify_accepts:
  "HMACSign_Verify mac key now dat s = None \<Longrightarrow> \<exists>e. s = HMACSign_Sign mac key dat e \<and> (e = 0 \<or> now \<le> e)"
  by (auto simp: HMACSign_Verify_def Let_def split: if_splits option.splits; metis linorder_not_less)

lemma Verify_exp: "int64_range e \<Longrightarrow>
  HMACSign_Verify mac key now dat (HMACSign_Sign mac key' dat' e) =
    (if e < now \<and> e \<noteq> 0 then Some ErrSignExpired
     else if HMACSign_Sign mac key dat e \<noteq> HMACSign_Sign mac key' dat' e then Some ErrSignInvalid
     else None)"
  by (simp add: HMACSign_Verify_def HMACSign_Sign_def Let_def last_index_colon format_int_no_colon)

interpretation hmac_signer: link_signer "HMACSign_Sign mac key" "HMACSign_Verify mac key" for mac key
  by unfold_locales (auto simp: Verify_exp)

section \<open>Properties\<close>

text \<open>C17 (links verify until they expire): with a link expiration of \<open>h\<close> hours that does not
  overflow, a link is accepted up to the second it expires and rejected as expired afterwards;
  without an expiration it is accepted for ever.\<close>

theorem Sign_Verify_window:
  assumes "0 \<le> h" "h * hour < 2 ^ 62" "10 ^ 9 \<le> t0" "t0 < 2 ^ 62"
  shows "Verify mac token t1 dat (Sign mac token h t0 dat) =
    (if h = 0 \<or> t1 div 10 ^ 9 \<le> (t0 + h * hour) div 10 ^ 9 then None else Some ErrSignExpired)"
proof (cases "h = 0")
  case True
  then show ?thesis
    by (simp add: Sign_def Verify_def NotExpired_def hmac_signer.accepts int64_range_def)
next
  case False
  let ?e = "(t0 + h * hour) div 10 ^ 9"
  have "0 \<le> h * hour" using assms(1) by (simp add: hour_def)
  then have w: "wrap64 (h * hour) = h * hour" using assms by (intro wrap64_id) (auto simp: int64_range_def)
  have "1 \<le> ?e \<and> ?e \<le> t0 + h * hour" using \<open>0 \<le> h * hour\<close> assms(3) by (intro unix_seconds) simp
  then have e: "int64_range ?e" "?e \<noteq> 0" using assms by (auto simp: int64_range_def)
  have "Sign mac token h t0 dat = HMACSign_Sign mac token dat ?e"
    using False w by (simp add: Sign_def WithDuration_def)
  then show ?thesis using e False hmac_signer.accepts [OF e(1)] hmac_signer.rejects [OF e(1,2)]
    by (simp add: Verify_def)
qed

theorem Sign_Verify_window_witness:
  "Verify (\<lambda>k m. k @ m) ''tok'' (10 ^ 9 * 5000) ''/f'' (Sign (\<lambda>k m. k @ m) ''tok'' 1 (10 ^ 9 * 2000) ''/f'') = None \<and>
   Verify (\<lambda>k m. k @ m) ''tok'' (10 ^ 9 * 6000) ''/f'' (Sign (\<lambda>k m. k @ m) ''tok'' 1 (10 ^ 9 * 2000) ''/f'') =
     Some ErrSignExpired"
  by (simp add: Sign_Verify_window hour_def)

text \<open>C16 (the download gate): when the nearest metadata carries a password that applies to the
  requested path, only a request with an unexpired signature of exactly that path gets through.\<close>

theorem Down_requires_signature:
  assumes "nearest rawPath = Inr m" "MetaPassword m \<noteq> []" "PSub m \<or> rawPath = MetaPath m"
    "Down (Verify mac token now) signAll storageSign nearest rawPath query = DownNext meta"
  shows "\<exists>e. trim_suffix query ''/'' = HMACSign_Sign mac token rawPath e \<and> (e = 0 \<or> now div 10 ^ 9 \<le> e)"
proof -
  have "needSign signAll storageSign (Some m) rawPath" using assms(2,3) by (auto simp: needSign_def)
  then have "Verify mac token now rawPath (trim_suffix query ''/'') = None"
    using assms(1,4) by (auto simp: Down_def split: option.splits)
  then show ?thesis unfolding Verify_def by (rule Verify_accepts)
qed

theorem Down_requires_signature_witness:
  "\<exists>e. trim_suffix (Sign (\<lambda>k m. m) ''tok'' 0 0 ''/vip/a'') ''/'' = HMACSign_Sign (\<lambda>k m. m) ''tok'' ''/vip/a'' e \<and>
     (e = 0 \<or> 5 div 10 ^ 9 \<le> e)"
proof (rule Down_requires_signature [of "\<lambda>_. Inr example_meta" _ example_meta _ _ _ False "\<lambda>_. False"])
  show "Down (Verify (\<lambda>k m. m) ''tok'' 5) False (\<lambda>_. False) (\<lambda>_. Inr example_meta) ''/vip/a''
      (Sign (\<lambda>k m. m) ''tok'' 0 0 ''/vip/a'') = DownNext (Some example_meta)"
    by code_simp
qed (simp_all add: example_meta_def)

end
