(* ===== verification/Map_Of.thy ===== *)
theory Map_Of
  imports Main "HOL-Library.AList"
begin

text \<open>
  The concurrent map \<open>generic_sync.MapOf\<close> (\<open>pkg/generic_sync/map.go\<close>) that holds the mount table and the round robin: a read part and a
  dirty part that share entries, with entries marked as deleted or expunged, and the promotion of the dirty part after
  enough misses. Entries are addresses in a store. Each method is one atomic step here: the retries of compare-and-swap and
  the second look under the lock see the same state. Writing to a nil map is a panic, \<open>None\<close>.
\<close>

section \<open>State\<close>

datatype 'v slot = SlotNil | Expunged | SlotVal 'v

record ('k, 'v) MapOf =
  read_m :: "('k \<times> nat) list"
  amended :: bool
  dirty :: "('k \<times> nat) list option"
  misses :: nat
  entries :: "nat \<Rightarrow> 'v slot"
  next_entry :: nat

definition zero_MapOf :: "('k, 'v) MapOf" where
  "zero_MapOf = \<lparr>read_m = [], amended = False, dirty = None, misses = 0, entries = (\<lambda>_. SlotNil), next_entry = 0\<rparr>"

definition dirty_lookup :: "('k, 'v) MapOf \<Rightarrow> 'k \<Rightarrow> nat option" where
  "dirty_lookup m k = (case dirty m of None \<Rightarrow> None | Some d \<Rightarrow> map_of d k)"

definition dirty_len :: "('k, 'v) MapOf \<Rightarrow> nat" where
  "dirty_len m = (case dirty m of None \<Rightarrow> 0 | Some d \<Rightarrow> length d)"

text \<open>\<open>m.dirty[key] = e\<close>.\<close>

definition dirty_put :: "'k \<Rightarrow> nat \<Rightarrow> ('k, 'v) MapOf \<Rightarrow> ('k, 'v) MapOf option" where
  "dirty_put k a m = map_option (\<lambda>d. m\<lparr>dirty := Some (AList.update k a d)\<rparr>) (dirty m)"

section \<open>Entries\<close>

fun slot_value :: "'v slot \<Rightarrow> 'v option" where
  "slot_value (SlotVal v) = Some v"
| "slot_value s = None"

definition entry_load :: "nat \<Rightarrow> ('k, 'v) MapOf \<Rightarrow> 'v option" where
  "entry_load a m = slot_value (entries m a)"

definition set_entry :: "nat \<Rightarrow> 'v slot \<Rightarrow> ('k, 'v) MapOf \<Rightarrow> ('k, 'v) MapOf" where
  "set_entry a s m = m\<lparr>entries := (entries m)(a := s)\<rparr>"

definition entry_delete :: "nat \<Rightarrow> ('k, 'v) MapOf \<Rightarrow> ('k, 'v) MapOf" where
  "entry_delete a m = (case entries m a of SlotVal v \<Rightarrow> set_entry a SlotNil m | _ \<Rightarrow> m)"

text \<open>\<open>tryStore\<close>; \<open>None\<close> when the entry is expunged.\<close>

definition tryStore :: "nat \<Rightarrow> 'v \<Rightarrow> ('k, 'v) MapOf \<Rightarrow> ('k, 'v) MapOf option" where
  "tryStore a v m = (case entries m a of Expunged \<Rightarrow> None | _ \<Rightarrow> Some (set_entry a (SlotVal v) m))"

text \<open>\<open>tryLoadOrStore\<close>; \<open>None\<close> when the entry is expunged.\<close>

definition tryLoadOrStore :: "nat \<Rightarrow> 'v \<Rightarrow> ('k, 'v) MapOf \<Rightarrow> (('v \<times> bool) \<times> ('k, 'v) MapOf) option" where
  "tryLoadOrStore a v m =
     (case entries m a of
        Expunged \<Rightarrow> None
      | SlotVal w \<Rightarrow> Some ((w, True), m)
      | SlotNil \<Rightarrow> Some ((v, False), set_entry a (SlotVal v) m))"

section \<open>Promotion and the dirty part\<close>

definition promote :: "('k, 'v) MapOf \<Rightarrow> ('k, 'v) MapOf" where
  "promote m = m\<lparr>read_m := (case dirty m of None \<Rightarrow> [] | Some d \<Rightarrow> d), amended := False, dirty := None, misses := 0\<rparr>"

definition missLocked :: "('k, 'v) MapOf \<Rightarrow> ('k, 'v) MapOf" where
  "missLocked m = (if Suc (misses m) < dirty_len m then m\<lparr>misses := Suc (misses m)\<rparr> else promote m)"

text \<open>\<open>tryExpungeLocked\<close> marks a deleted entry; the entries that are left make the new dirty part.\<close>

fun tryExpungeLocked :: "'v slot \<Rightarrow> 'v slot" where
  "tryExpungeLocked SlotNil = Expunged"
| "tryExpungeLocked s = s"

definition dirtyLocked :: "('k, 'v) MapOf \<Rightarrow> ('k, 'v) MapOf" where
  "dirtyLocked m =
     (case dirty m of
        Some _ \<Rightarrow> m
      | None \<Rightarrow>
          m\<lparr>entries := (\<lambda>a. if a \<in> snd ` set (read_m m) then tryExpungeLocked (entries m a) else entries m a),
            dirty := Some (filter (\<lambda>(k, a). slot_value (entries m a) \<noteq> None) (read_m m))\<rparr>)"

text \<open>A new key goes to the dirty part.\<close>

definition add_key :: "'k \<Rightarrow> 'v \<Rightarrow> ('k, 'v) MapOf \<Rightarrow> ('k, 'v) MapOf option" where
  "add_key k v m =
     (let m = (if amended m then m else (dirtyLocked m)\<lparr>amended := True\<rparr>); a = next_entry m
      in dirty_put k a ((set_entry a (SlotVal v) m)\<lparr>next_entry := Suc a\<rparr>))"

section \<open>Methods\<close>

definition MapOf_Load :: "'k \<Rightarrow> ('k, 'v) MapOf \<Rightarrow> 'v option \<times> ('k, 'v) MapOf" where
  "MapOf_Load k m =
     (case map_of (read_m m) k of
        Some a \<Rightarrow> (entry_load a m, m)
      | None \<Rightarrow>
          if amended m then
            (let m' = missLocked m in
               (case dirty_lookup m k of None \<Rightarrow> (None, m') | Some a \<Rightarrow> (entry_load a m', m')))
          else (None, m))"

definition MapOf_Has :: "'k \<Rightarrow> ('k, 'v) MapOf \<Rightarrow> bool \<times> ('k, 'v) MapOf" where
  "MapOf_Has k m = apfst (\<lambda>r. r \<noteq> None) (MapOf_Load k m)"

text \<open>\<open>if e.unexpungeLocked() { m.dirty[key] = e }\<close>.\<close>

definition unexpunge :: "'k \<Rightarrow> nat \<Rightarrow> ('k, 'v) MapOf \<Rightarrow> ('k, 'v) MapOf option" where
  "unexpunge k a m = (if entries m a = Expunged then dirty_put k a (set_entry a SlotNil m) else Some m)"

definition MapOf_Store :: "'k \<Rightarrow> 'v \<Rightarrow> ('k, 'v) MapOf \<Rightarrow> ('k, 'v) MapOf option" where
  "MapOf_Store k v m =
     (case map_of (read_m m) k of
        Some a \<Rightarrow>
          (case tryStore a v m of
             Some m' \<Rightarrow> Some m'
           | None \<Rightarrow> map_option (set_entry a (SlotVal v)) (unexpunge k a m))
      | None \<Rightarrow>
          (case dirty_lookup m k of
             Some a \<Rightarrow> Some (set_entry a (SlotVal v) m)
           | None \<Rightarrow> add_key k v m))"

definition MapOf_LoadOrStore :: "'k \<Rightarrow> 'v \<Rightarrow> ('k, 'v) MapOf \<Rightarrow> (('v \<times> bool) \<times> ('k, 'v) MapOf) option" where
  "MapOf_LoadOrStore k v m =
     (case map_of (read_m m) k of
        Some a \<Rightarrow>
          (case tryLoadOrStore a v m of
             Some r \<Rightarrow> Some r
           | None \<Rightarrow> (case unexpunge k a m of None \<Rightarrow> None | Some m \<Rightarrow> tryLoadOrStore a v m))
      | None \<Rightarrow>
          (case dirty_lookup m k of
             Some a \<Rightarrow> map_option (\<lambda>(r, m). (r, missLocked m)) (tryLoadOrStore a v m)
           | None \<Rightarrow> map_option (\<lambda>m. ((v, False), m)) (add_key k v m)))"

definition MapOf_Delete :: "'k \<Rightarrow> ('k, 'v) MapOf \<Rightarrow> ('k, 'v) MapOf" where
  "MapOf_Delete k m =
     (case map_of (read_m m) k of
        Some a \<Rightarrow> entry_delete a m
      | None \<Rightarrow> if amended m then m\<lparr>dirty := map_option (AList.delete k) (dirty m)\<rparr> else m)"

text \<open>The pairs that \<open>Range\<close> visits, when its function never stops it, and the state it leaves.\<close>

definition MapOf_Range :: "('k, 'v) MapOf \<Rightarrow> ('k \<times> 'v) list \<times> ('k, 'v) MapOf" where
  "MapOf_Range m =
     (let m = (if amended m then promote m else m)
      in (List.map_filter (\<lambda>(k, a). map_option (Pair k) (entry_load a m)) (read_m m), m))"

definition MapOf_Values :: "('k, 'v) MapOf \<Rightarrow> 'v list \<times> ('k, 'v) MapOf" where
  "MapOf_Values m = apfst (map snd) (MapOf_Range m)"

definition MapOf_ToMap :: "('k, 'v) MapOf \<Rightarrow> ('k \<rightharpoonup> 'v) \<times> ('k, 'v) MapOf" where
  "MapOf_ToMap m = apfst map_of (MapOf_Range m)"

definition MapOf_Clear :: "('k, 'v) MapOf \<Rightarrow> ('k, 'v) MapOf" where
  "MapOf_Clear m = (case MapOf_Range m of (kvs, m) \<Rightarrow> fold (\<lambda>(k, _). MapOf_Delete k) kvs m)"

definition MapOf_Count :: "('k, 'v) MapOf \<Rightarrow> nat" where
  "MapOf_Count m = dirty_len m"

definition MapOf_Empty :: "('k, 'v) MapOf \<Rightarrow> bool" where
  "MapOf_Empty m \<longleftrightarrow> MapOf_Count m = 0"

section \<open>Invariant and abstraction\<close>

definition view :: "('k, 'v) MapOf \<Rightarrow> 'k \<rightharpoonup> 'v" where
  "view m k =
     (case map_of (read_m m) k of
        Some a \<Rightarrow> entry_load a m
      | None \<Rightarrow> (case dirty_lookup m k of Some a \<Rightarrow> entry_load a m | None \<Rightarrow> None))"

text \<open>Both parts name an entry by one key only; the dirty part exists exactly when the read part is incomplete, it holds no
  expunged entry, and of the read part it holds all but the expunged ones.\<close>

definition linked :: "('k, 'v) MapOf \<Rightarrow> 'k \<Rightarrow> nat \<Rightarrow> bool" where
  "linked m k a \<longleftrightarrow> map_of (read_m m) k = Some a \<or> dirty_lookup m k = Some a"

definition keys_ok :: "('k, 'v) MapOf \<Rightarrow> bool" where
  "keys_ok m \<longleftrightarrow> distinct (map fst (read_m m)) \<and> (\<forall>d. dirty m = Some d \<longrightarrow> distinct (map fst d))"

definition links_ok :: "('k, 'v) MapOf \<Rightarrow> bool" where
  "links_ok m \<longleftrightarrow> (\<forall>k a. linked m k a \<longrightarrow> a < next_entry m \<and> (\<forall>k'. linked m k' a \<longrightarrow> k' = k))"

definition dirty_ok :: "('k, 'v) MapOf \<Rightarrow> bool" where
  "dirty_ok m \<longleftrightarrow> (\<forall>k a. dirty_lookup m k = Some a \<longrightarrow> entries m a \<noteq> Expunged)"

definition read_at :: "('k, 'v) MapOf \<Rightarrow> 'k \<Rightarrow> bool" where
  "read_at m k \<longleftrightarrow> (\<forall>a. map_of (read_m m) k = Some a \<longrightarrow>
     (if entries m a = Expunged then dirty m \<noteq> None \<and> dirty_lookup m k = None
      else dirty m \<noteq> None \<longrightarrow> dirty_lookup m k = Some a))"

definition read_ok :: "('k, 'v) MapOf \<Rightarrow> bool" where
  "read_ok m \<longleftrightarrow> (\<forall>k. read_at m k)"

definition mapof_inv :: "('k, 'v) MapOf \<Rightarrow> bool" where
  "mapof_inv m \<longleftrightarrow> keys_ok m \<and> links_ok m \<and> (amended m \<longleftrightarrow> dirty m \<noteq> None) \<and> dirty_ok m \<and> read_ok m"

end
