(* ===== verification/Map_Of_Proofs.thy ===== *)
theory Map_Of_Proofs
  imports Map_Of
begin

text \<open>
  The methods of \<open>MapOf\<close> keep its invariant and act as on a plain map; an interface of maps with two implementations, this one and
  the association list that the models of the mount table use.
\<close>

section \<open>Invariant\<close>

lemma mapof_invI:
  assumes "keys_ok m" "links_ok m" "amended m \<longleftrightarrow> dirty m \<noteq> None" "dirty_ok m" "read_ok m"
  shows "mapof_inv m"
  using assms unfolding mapof_inv_def by (intro conjI)

lemma mapof_invD:
  assumes "mapof_inv m"
  shows inv_keys: "keys_ok m" and inv_links: "links_ok m" and inv_amended: "amended m \<longleftrightarrow> dirty m \<noteq> None"
    and inv_dirty: "dirty_ok m" and inv_read: "read_ok m"
  using assms by (simp_all add: mapof_inv_def)

lemma links_bound: "links_ok m \<Longrightarrow> linked m k a \<Longrightarrow> a < next_entry m"
  unfolding links_ok_def by blast

lemma links_inj: "links_ok m \<Longrightarrow> linked m k a \<Longrightarrow> linked m k' a \<Longrightarrow> k' = k"
  unfolding links_ok_def by blast

lemma dirty_not_expunged: "dirty_ok m \<Longrightarrow> dirty_lookup m k = Some a \<Longrightarrow> entries m a \<noteq> Expunged"
  unfolding dirty_ok_def by blast

lemma read_expunged:
  "read_ok m \<Longrightarrow> map_of (read_m m) k = Some a \<Longrightarrow> entries m a = Expunged \<Longrightarrow> dirty m \<noteq> None \<and> dirty_lookup m k = None"
  unfolding read_ok_def read_at_def by (elim allE [of _ k] allE [of _ a]) simp

lemma read_shared:
  "read_ok m \<Longrightarrow> map_of (read_m m) k = Some a \<Longrightarrow> entries m a \<noteq> Expunged \<Longrightarrow> dirty m \<noteq> None \<Longrightarrow> dirty_lookup m k = Some a"
  unfolding read_ok_def read_at_def by (elim allE [of _ k] allE [of _ a]) simp

lemma linkedI: "map_of (read_m m) k = Some a \<Longrightarrow> linked m k a" "dirty_lookup m k = Some a \<Longrightarrow> linked m k a"
  by (simp_all add: linked_def)

lemma zero_MapOf_inv: "mapof_inv zero_MapOf" "view zero_MapOf = Map.empty"
proof -
  show "mapof_inv zero_MapOf"
    by (rule mapof_invI)
      (simp_all add: zero_MapOf_def keys_ok_def links_ok_def linked_def dirty_lookup_def dirty_ok_def read_ok_def read_at_def)
  show "view zero_MapOf = Map.empty" by (rule ext) (simp add: view_def zero_MapOf_def dirty_lookup_def)
qed

text \<open>An entry that is not expunged and belongs to a key carries the value of the key.\<close>

lemma view_linked:
  assumes inv: "mapof_inv m" and "linked m k a" "entries m a \<noteq> Expunged"
  shows "view m k = entry_load a m"
proof (cases "map_of (read_m m) k")
  case None
  then show ?thesis using assms(2) by (simp add: linked_def view_def)
next
  case (Some b)
  show ?thesis
  proof (cases "dirty_lookup m k = Some a")
    case True
    then have "dirty m \<noteq> None" by (auto simp: dirty_lookup_def split: option.splits)
    moreover have "entries m b \<noteq> Expunged" using read_expunged [OF inv_read [OF inv] Some] True by auto
    ultimately have "b = a" using read_shared [OF inv_read [OF inv] Some] True by simp
    then show ?thesis using Some by (simp add: view_def)
  next
    case False
    then show ?thesis using assms(2) Some by (simp add: linked_def view_def)
  qed
qed

section \<open>Writing to an entry\<close>

lemma set_entry_fields [simp]:
  "read_m (set_entry a s m) = read_m m" "dirty (set_entry a s m) = dirty m" "amended (set_entry a s m) = amended m"
  "next_entry (set_entry a s m) = next_entry m" "misses (set_entry a s m) = misses m"
  "dirty_lookup (set_entry a s m) k = dirty_lookup m k" "linked (set_entry a s m) k b = linked m k b"
  "entries (set_entry a s m) = (entries m)(a := s)"
  by (simp_all add: set_entry_def dirty_lookup_def linked_def)

lemma entry_load_set: "entry_load b (set_entry a s m) = (if b = a then slot_value s else entry_load b m)"
  by (simp add: entry_load_def)

lemma set_entry_inv:
  assumes inv: "mapof_inv m" and a: "entries m a \<noteq> Expunged" and s: "s \<noteq> Expunged"
  shows "mapof_inv (set_entry a s m)"
proof (rule mapof_invI)
  show "keys_ok (set_entry a s m)" using inv_keys [OF inv] by (simp add: keys_ok_def)
  show "links_ok (set_entry a s m)" using inv_links [OF inv] unfolding links_ok_def set_entry_fields .
  show "amended (set_entry a s m) \<longleftrightarrow> dirty (set_entry a s m) \<noteq> None" using inv_amended [OF inv] by simp
  show "dirty_ok (set_entry a s m)" using inv_dirty [OF inv] s unfolding dirty_ok_def set_entry_fields by simp
  have "(((entries m)(a := s)) b = Expunged) = (entries m b = Expunged)" for b using a s by simp
  then show "read_ok (set_entry a s m)" using inv_read [OF inv] unfolding read_ok_def read_at_def set_entry_fields by simp
qed

lemma set_entry_view:
  assumes inv: "mapof_inv m" and k: "linked m k a" and a: "entries m a \<noteq> Expunged" and s: "s \<noteq> Expunged"
  shows "view (set_entry a s m) = (view m)(k := slot_value s)"
proof (rule ext)
  fix k'
  show "view (set_entry a s m) k' = ((view m)(k := slot_value s)) k'"
  proof (cases "k' = k")
    case True
    then show ?thesis using view_linked [OF set_entry_inv [OF inv a s], of k a] k s by (simp add: entry_load_set)
  next
    case False
    then have "\<not> linked m k' a" using links_inj [OF inv_links [OF inv] k] by blast
    then show ?thesis using False by (auto simp: view_def entry_load_set linked_def split: option.split)
  qed
qed

lemma set_value:
  assumes inv: "mapof_inv m" and k: "linked m k a" and a: "entries m a \<noteq> Expunged"
  shows "mapof_inv (set_entry a (SlotVal v) m)" "view (set_entry a (SlotVal v) m) = (view m)(k \<mapsto> v)"
  using set_entry_inv [OF inv a] set_entry_view [OF inv k a, of "SlotVal v"] by simp_all

section \<open>Promotion\<close>

lemma promote_fields [simp]:
  "entries (promote m) = entries m" "\<not> amended (promote m)" "dirty (promote m) = None" "next_entry (promote m) = next_entry m"
  "dirty_lookup (promote m) k = None" "map_of (read_m (promote m)) k = dirty_lookup m k"
  "entry_load a (promote m) = entry_load a m"
  by (simp_all add: promote_def dirty_lookup_def entry_load_def split: option.split)

lemma promote_inv:
  assumes inv: "mapof_inv m"
  shows "mapof_inv (promote m)"
proof (rule mapof_invI)
  have l: "linked (promote m) k a \<longleftrightarrow> dirty_lookup m k = Some a" for k a by (simp add: linked_def)
  show "keys_ok (promote m)"
    using inv_keys [OF inv] by (auto simp: keys_ok_def promote_def split: option.split)
  show "links_ok (promote m)"
    unfolding links_ok_def l promote_fields
    using links_bound [OF inv_links [OF inv] linkedI(2)] links_inj [OF inv_links [OF inv] linkedI(2) linkedI(2)] by blast
  show "read_ok (promote m)" using dirty_not_expunged [OF inv_dirty [OF inv]] unfolding read_ok_def read_at_def promote_fields by simp
qed (simp_all add: dirty_ok_def)

lemma promote_view:
  assumes inv: "mapof_inv m" and am: "amended m"
  shows "view (promote m) = view m"
proof (rule ext)
  fix k
  have d: "dirty m \<noteq> None" using am inv_amended [OF inv] by simp
  show "view (promote m) k = view m k"
  proof (cases "map_of (read_m m) k")
    case None
    then show ?thesis by (simp add: view_def split: option.split)
  next
    case (Some a)
    then show ?thesis
      using read_expunged [OF inv_read [OF inv] Some] read_shared [OF inv_read [OF inv] Some] d
      by (cases "entries m a = Expunged") (simp_all add: view_def entry_load_def)
  qed
qed

lemma missLocked_ok:
  assumes inv: "mapof_inv m" and am: "amended m"
  shows "mapof_inv (missLocked m)" "view (missLocked m) = view m" "entry_load a (missLocked m) = entry_load a m"
proof -
  let ?m = "m\<lparr>misses := Suc (misses m)\<rparr>"
  have f: "dirty_lookup ?m k = dirty_lookup m k" "linked ?m k a = linked m k a" for k a by (simp_all add: dirty_lookup_def linked_def)
  have "mapof_inv ?m = mapof_inv m"
    unfolding mapof_inv_def keys_ok_def links_ok_def dirty_ok_def read_ok_def read_at_def f by simp
  moreover have "view ?m = view m" by (rule ext) (simp add: view_def f entry_load_def split: option.split)
  ultimately show "mapof_inv (missLocked m)" "view (missLocked m) = view m"
    using inv promote_inv [OF inv] promote_view [OF inv am] by (simp_all add: missLocked_def)
  show "entry_load a (missLocked m) = entry_load a m" by (simp add: missLocked_def entry_load_def)
qed

section \<open>Keys of the dirty part\<close>

text \<open>Putting an entry into the dirty part: its key is the only one that the entry has.\<close>

lemma dirty_put_fields:
  assumes "dirty_put k a m = Some m'"
  shows "read_m m' = read_m m" "entries m' = entries m" "amended m' = amended m" "next_entry m' = next_entry m" "dirty m' \<noteq> None"
    "dirty_lookup m' k' = (if k' = k then Some a else dirty_lookup m k')" "dirty m \<noteq> None"
  using assms by (auto simp: dirty_put_def dirty_lookup_def update_conv')

lemma dirty_put_inv:
  assumes inv: "keys_ok m" "links_ok m" "amended m" "dirty_ok m" "\<And>k'. k' \<noteq> k \<Longrightarrow> read_at m k'"
    and put: "dirty_put k a m = Some m'" and a: "a < next_entry m" "entries m a \<noteq> Expunged"
    and own: "\<And>k'. linked m k' a \<Longrightarrow> k' = k" and rd: "\<And>b. map_of (read_m m) k = Some b \<Longrightarrow> b = a"
  shows "mapof_inv m'"
proof (rule mapof_invI)
  note f = dirty_put_fields [OF put]
  show "keys_ok m'" using inv(1) put by (auto simp: keys_ok_def dirty_put_def distinct_update)
  have l: "linked m' k' b \<longleftrightarrow> k' = k \<and> b = a \<or> k' \<noteq> k \<and> linked m k' b" for k' b
    using rd by (auto simp: linked_def f)
  show "links_ok m'"
    unfolding links_ok_def l f
  proof (intro allI impI conjI)
    fix k1 b k2
    assume 1: "k1 = k \<and> b = a \<or> k1 \<noteq> k \<and> linked m k1 b"
    then show "b < next_entry m" using a(1) links_bound [OF inv(2)] by blast
    assume 2: "k2 = k \<and> b = a \<or> k2 \<noteq> k \<and> linked m k2 b"
    show "k2 = k1" using 1 2 own links_inj [OF inv(2)] by metis
  qed
  show "amended m' \<longleftrightarrow> dirty m' \<noteq> None" using inv(3) f(3,5) by simp
  show "dirty_ok m'" using inv(4) a(2) by (simp add: dirty_ok_def f)
  have "read_at m' k" using rd a(2) by (auto simp: read_at_def f)
  moreover have "read_at m' k'" if "k' \<noteq> k" for k' using inv(5) [OF that] that f(5,7) by (simp add: read_at_def f)
  ultimately show "read_ok m'" unfolding read_ok_def by metis
qed

lemma view_dirty_put:
  assumes put: "dirty_put k a m = Some m'" and rd: "\<And>b. map_of (read_m m) k = Some b \<Longrightarrow> b = a"
  shows "view m' = (view m)(k := entry_load a m)"
proof (rule ext)
  fix k'
  note f = dirty_put_fields [OF put]
  show "view m' k' = ((view m)(k := entry_load a m)) k'"
    using rd by (cases "k' = k"; cases "map_of (read_m m) k'") (auto simp: view_def f entry_load_def split: option.split)
qed

lemma unexpunge_ok:
  assumes inv: "mapof_inv m" and a: "map_of (read_m m) k = Some a"
  obtains m' where "unexpunge k a m = Some m'" "mapof_inv m'" "view m' = view m" "map_of (read_m m') k = Some a"
    "entries m' a \<noteq> Expunged"
proof (cases "entries m a = Expunged")
  case False
  then show thesis using that inv a by (simp add: unexpunge_def)
next
  case True
  let ?m = "set_entry a SlotNil m"
  obtain d where d: "dirty m = Some d" "dirty_lookup m k = None"
    using read_expunged [OF inv_read [OF inv] a True] by auto
  obtain m' where m': "dirty_put k a ?m = Some m'" by (simp add: dirty_put_def d)
  have own: "linked m k' a \<Longrightarrow> k' = k" for k' using links_inj [OF inv_links [OF inv] linkedI(1) [OF a]] .
  have "read_at ?m k'" if "k' \<noteq> k" for k'
  proof -
    have "map_of (read_m m) k' \<noteq> Some a" using own that linkedI(1) by metis
    moreover have "read_at m k'" using inv_read [OF inv] by (simp add: read_ok_def)
    ultimately show ?thesis by (auto simp: read_at_def)
  qed
  moreover have "links_ok ?m" using inv_links [OF inv] unfolding links_ok_def set_entry_fields .
  moreover have "keys_ok ?m" using inv_keys [OF inv] by (simp add: keys_ok_def)
  moreover have "dirty_ok ?m" using inv_dirty [OF inv] by (simp add: dirty_ok_def)
  ultimately have "mapof_inv m'"
    using m' own a inv_amended [OF inv] d links_bound [OF inv_links [OF inv] linkedI(1) [OF a]]
    by (intro dirty_put_inv [of ?m k a m']) simp_all
  moreover have "view m' = view m"
  proof (rule ext)
    fix k'
    have "map_of (read_m m) k' \<noteq> Some a" "dirty_lookup m k' \<noteq> Some a" if "k' \<noteq> k" using own that linkedI by metis+
    then show "view m' k' = view m k'"
      using view_dirty_put [OF m'] a True d
      by (cases "k' = k") (auto simp: entry_load_set view_def entry_load_def split: option.split)
  qed
  moreover have "unexpunge k a m = Some m'" using True m' by (simp add: unexpunge_def)
  ultimately show thesis using that a dirty_put_fields(1,2) [OF m'] by simp
qed

lemma tryExpungeLocked_simps [simp]:
  "slot_value (tryExpungeLocked s) = slot_value s" "tryExpungeLocked s = Expunged \<longleftrightarrow> slot_value s = None"
  by (cases s; simp)+

lemma map_of_filter_entries:
  assumes "distinct (map fst xs)"
  shows "map_of (filter (\<lambda>(k, a). P a) xs) k = (case map_of xs k of None \<Rightarrow> None | Some a \<Rightarrow> if P a then Some a else None)"
  using assms by (induction xs) (auto simp: map_of_eq_None_iff image_iff split: option.split)

lemma dirtyLocked_ok:
  assumes inv: "mapof_inv m" and am: "\<not> amended m"
  defines "m' \<equiv> (dirtyLocked m)\<lparr>amended := True\<rparr>"
  shows "mapof_inv m'" "view m' = view m" "read_m m' = read_m m" "next_entry m' = next_entry m"
    "dirty_lookup m' k = None \<longleftrightarrow> view m k = None"
proof -
  let ?in = "\<lambda>(k, a). slot_value (entries m a) \<noteq> None"
  have none: "dirty m = None" using am inv_amended [OF inv] by simp
  have f: "read_m m' = read_m m" "next_entry m' = next_entry m" "amended m'" "dirty m' = Some (filter ?in (read_m m))"
    "entries m' b = (if b \<in> snd ` set (read_m m) then tryExpungeLocked (entries m b) else entries m b)" for b
    by (simp_all add: m'_def dirtyLocked_def none)
  show "read_m m' = read_m m" "next_entry m' = next_entry m" by (simp_all add: f)
  have dist: "distinct (map fst (read_m m))" using inv_keys [OF inv] by (simp add: keys_ok_def)
  have dl: "dirty_lookup m' k = (case map_of (read_m m) k of None \<Rightarrow> None
      | Some a \<Rightarrow> if slot_value (entries m a) = None then None else Some a)" for k
    unfolding dirty_lookup_def f(4) option.case map_of_filter_entries [OF dist] by (simp split: option.split)
  have none': "dirty_lookup m k = None" for k by (simp add: dirty_lookup_def none)
  show "view m' = view m" by (rule ext) (auto simp: view_def dl f entry_load_def none' split: option.split)
  show "dirty_lookup m' k = None \<longleftrightarrow> view m k = None"
    by (auto simp: dl view_def none' entry_load_def split: option.split)
  have l: "linked m' k a \<longleftrightarrow> linked m k a" for k a
    by (auto simp: linked_def dl f(1) none' split: option.splits if_splits)
  show "mapof_inv m'"
  proof (rule mapof_invI)
    show "keys_ok m'" using dist by (simp add: keys_ok_def f distinct_map_filter)
    show "links_ok m'" using inv_links [OF inv] unfolding links_ok_def l f .
    show "dirty_ok m'" unfolding dirty_ok_def by (auto simp: dl f split: option.splits if_splits)
    have "a \<in> snd ` set (read_m m)" if "map_of (read_m m) k = Some a" for k a
      using map_of_SomeD [OF that] by force
    then show "read_ok m'" by (auto simp: read_ok_def read_at_def dl f)
  qed (simp add: f)
qed

text \<open>A new entry belongs to no key yet.\<close>

lemma next_entry_new: "mapof_inv m \<Longrightarrow> \<not> linked m k (next_entry m)"
  using links_bound [OF inv_links, of m k "next_entry m"] by auto

lemma new_entry_ok:
  fixes s :: "'v slot"
  assumes inv: "mapof_inv m"
  defines "m' \<equiv> (set_entry (next_entry m) s m)\<lparr>next_entry := Suc (next_entry m)\<rparr>"
  shows "mapof_inv m'" "view m' = view m" "read_m m' = read_m m" "amended m' = amended m" "dirty m' = dirty m"
    "entries m' (next_entry m) = s" "next_entry m' = Suc (next_entry m)" "dirty_lookup m' k = dirty_lookup m k"
    "linked m' k b = linked m k b"
proof -
  have f: "read_m m' = read_m m" "amended m' = amended m" "dirty m' = dirty m" "next_entry m' = Suc (next_entry m)"
    "entries m' = (entries m)(next_entry m := s)" by (simp_all add: m'_def set_entry_def)
  have dl: "dirty_lookup m' k = dirty_lookup m k" for k by (simp add: dirty_lookup_def f)
  have l: "linked m' k b = linked m k b" for k b by (simp add: linked_def f dl)
  have same: "entries m' b = entries m b" if "linked m k b" for k b using that next_entry_new [OF inv] by (auto simp: f)
  show "view m' = view m"
    by (rule ext) (auto simp: view_def f(1) dl entry_load_def same [OF linkedI(1)] same [OF linkedI(2)] split: option.split)
  show "mapof_inv m'"
  proof (rule mapof_invI)
    show "keys_ok m'" using inv_keys [OF inv] by (simp add: keys_ok_def f)
    show "links_ok m'" using inv_links [OF inv] unfolding links_ok_def l f by (meson less_Suc_eq)
    show "dirty_ok m'" using inv_dirty [OF inv] by (simp add: dirty_ok_def dl same [OF linkedI(2)])
    show "read_ok m'" using inv_read [OF inv] by (simp add: read_ok_def read_at_def dl same [OF linkedI(1)] f(1,3))
  qed (simp add: f inv_amended [OF inv])
qed (simp_all add: m'_def dirty_lookup_def linked_def)

lemma add_key_ok:
  assumes inv: "mapof_inv m" and k: "map_of (read_m m) k = None" "dirty_lookup m k = None"
  obtains m' where "add_key k v m = Some m'" "mapof_inv m'" "view m' = (view m)(k \<mapsto> v)"
proof -
  define m1 where "m1 = (if amended m then m else (dirtyLocked m)\<lparr>amended := True\<rparr>)"
  have 1: "mapof_inv m1" "view m1 = view m" "read_m m1 = read_m m" "amended m1"
    using inv dirtyLocked_ok(1-3) [OF inv] by (simp_all add: m1_def)
  define m2 where "m2 = (set_entry (next_entry m1) (SlotVal v) m1)\<lparr>next_entry := Suc (next_entry m1)\<rparr>"
  note 2 = new_entry_ok [where m = m1 and s = "SlotVal v", OF 1(1), folded m2_def]
  obtain d where "dirty m2 = Some d" using 2(5) inv_amended [OF 1(1)] 1(4) by auto
  then obtain m3 where m3: "dirty_put k (next_entry m1) m2 = Some m3" by (simp add: dirty_put_def)
  have "read_at m2 k'" for k' using inv_read [OF 2(1)] by (simp add: read_ok_def)
  then have "mapof_inv m3"
    using mapof_invD [OF 2(1)] 1 2 m3 k next_entry_new [OF 1(1)] by (intro dirty_put_inv [of m2 k "next_entry m1" m3]) simp_all
  moreover have "view m3 = (view m)(k \<mapsto> v)"
    using view_dirty_put [OF m3] 1 2 k by (simp add: entry_load_def)
  moreover have "add_key k v m = Some m3"
    using m3 by (simp add: add_key_def Let_def m1_def m2_def)
  ultimately show thesis by (intro that)
qed

section \<open>Methods\<close>

lemma MapOf_Load_ok:
  assumes inv: "mapof_inv m"
  shows "fst (MapOf_Load k m) = view m k" "mapof_inv (snd (MapOf_Load k m))" "view (snd (MapOf_Load k m)) = view m"
proof -
  have "dirty_lookup m k = None" if "\<not> amended m" using that inv_amended [OF inv] by (simp add: dirty_lookup_def)
  then show "fst (MapOf_Load k m) = view m k" "mapof_inv (snd (MapOf_Load k m))" "view (snd (MapOf_Load k m)) = view m"
    using inv missLocked_ok [OF inv] by (auto simp: MapOf_Load_def Let_def view_def split: option.split)
qed

lemma MapOf_Store_ok:
  assumes inv: "mapof_inv m"
  obtains m' where "MapOf_Store k v m = Some m'" "mapof_inv m'" "view m' = (view m)(k \<mapsto> v)"
proof (cases "map_of (read_m m) k")
  case (Some a)
  obtain m1 where m1: "unexpunge k a m = Some m1" "mapof_inv m1" "view m1 = view m" "map_of (read_m m1) k = Some a"
    "entries m1 a \<noteq> Expunged" by (rule unexpunge_ok [OF inv Some])
  have "MapOf_Store k v m = Some (set_entry a (SlotVal v) m1)"
    using m1(1) Some by (auto simp: MapOf_Store_def tryStore_def unexpunge_def split: slot.split if_splits)
  then show thesis
    using set_value [OF m1(2) linkedI(1) [OF m1(4)] m1(5), of v] m1(3) by (intro that) simp_all
next
  case read: None
  show thesis
  proof (cases "dirty_lookup m k")
    case (Some a)
    note na = dirty_not_expunged [OF inv_dirty [OF inv] Some]
    show thesis
      using set_value [OF inv linkedI(2) [OF Some] na, of v] read Some by (intro that) (simp_all add: MapOf_Store_def)
  next
    case None
    show thesis using add_key_ok [OF inv read None, of v] that read None by (auto simp: MapOf_Store_def)
  qed
qed

text \<open>What \<open>LoadOrStore\<close> answers and leaves, on a plain map.\<close>

definition load_or_store :: "'k \<Rightarrow> 'v \<Rightarrow> ('k \<rightharpoonup> 'v) \<Rightarrow> ('v \<times> bool) \<times> ('k \<rightharpoonup> 'v)" where
  "load_or_store k v f = (case f k of Some w \<Rightarrow> ((w, True), f) | None \<Rightarrow> ((v, False), f(k \<mapsto> v)))"

lemma tryLoadOrStore_ok:
  assumes inv: "mapof_inv m" and k: "linked m k a" and a: "entries m a \<noteq> Expunged"
  obtains r m' where "tryLoadOrStore a v m = Some (r, m')" "mapof_inv m'" "load_or_store k v (view m) = (r, view m')"
    "amended m' = amended m"
  using set_value [OF inv k a, of v] view_linked [OF inv k a] inv a
  by (cases "entries m a") (auto simp: tryLoadOrStore_def load_or_store_def entry_load_def intro: that)

lemma MapOf_LoadOrStore_ok:
  assumes inv: "mapof_inv m"
  obtains r m' where "MapOf_LoadOrStore k v m = Some (r, m')" "mapof_inv m'" "load_or_store k v (view m) = (r, view m')"
proof (cases "map_of (read_m m) k")
  case (Some a)
  obtain m1 where m1: "unexpunge k a m = Some m1" "mapof_inv m1" "view m1 = view m" "map_of (read_m m1) k = Some a"
    "entries m1 a \<noteq> Expunged" by (rule unexpunge_ok [OF inv Some])
  have "MapOf_LoadOrStore k v m = tryLoadOrStore a v m1"
    using m1(1) Some by (cases "entries m a") (auto simp: MapOf_LoadOrStore_def tryLoadOrStore_def unexpunge_def)
  then show thesis
    using tryLoadOrStore_ok [OF m1(2) linkedI(1) [OF m1(4)] m1(5), of v] m1(3) that by metis
next
  case read: None
  show thesis
  proof (cases "dirty_lookup m k")
    case (Some a)
    obtain r m' where m': "tryLoadOrStore a v m = Some (r, m')" "mapof_inv m'" "load_or_store k v (view m) = (r, view m')"
      "amended m' = amended m"
      by (rule tryLoadOrStore_ok [OF inv linkedI(2) [OF Some] dirty_not_expunged [OF inv_dirty [OF inv] Some]])
    have "amended m'" using Some inv_amended [OF inv] m'(4) by (auto simp: dirty_lookup_def split: option.splits)
    then show thesis
      using missLocked_ok [OF m'(2)] m'(1,3) read Some by (intro that [of r "missLocked m'"]) (simp_all add: MapOf_LoadOrStore_def)
  next
    case None
    obtain m' where "add_key k v m = Some m'" "mapof_inv m'" "view m' = (view m)(k \<mapsto> v)"
      by (rule add_key_ok [OF inv read None])
    then show thesis
      using read None by (intro that [of "(v, False)" m']) (simp_all add: MapOf_LoadOrStore_def load_or_store_def view_def)
  qed
qed

lemma MapOf_Delete_ok:
  assumes inv: "mapof_inv m"
  shows "mapof_inv (MapOf_Delete k m)" "view (MapOf_Delete k m) = (view m)(k := None)"
proof -
  have "mapof_inv (MapOf_Delete k m) \<and> view (MapOf_Delete k m) = (view m)(k := None)"
  proof (cases "map_of (read_m m) k")
    case (Some a)
    have "view m k = None" if "slot_value (entries m a) = None" using that Some by (simp add: view_def entry_load_def)
    then show ?thesis
      using inv Some set_entry_inv [OF inv, of a SlotNil] set_entry_view [OF inv linkedI(1) [OF Some], of SlotNil]
      by (cases "entries m a") (auto simp: MapOf_Delete_def entry_delete_def fun_upd_idem)
  next
    case read: None
    show ?thesis
    proof (cases "dirty m")
      case None
      then show ?thesis
        using inv inv_amended [OF inv] read by (simp add: MapOf_Delete_def view_def dirty_lookup_def fun_upd_idem)
    next
      case (Some d)
      define m' where "m' = MapOf_Delete k m"
      have f: "read_m m' = read_m m" "dirty m' = Some (AList.delete k d)" "amended m'" "entries m' = entries m"
        "next_entry m' = next_entry m"
        using inv_amended [OF inv] read Some by (simp_all add: m'_def MapOf_Delete_def)
      have dl: "dirty_lookup m' k' = (if k' = k then None else dirty_lookup m k')" for k'
        by (simp add: dirty_lookup_def f Some delete_conv')
      have l: "linked m' k' a \<longleftrightarrow> k' \<noteq> k \<and> linked m k' a" for k' a by (auto simp: linked_def f(1) dl read)
      have "mapof_inv m'"
      proof (rule mapof_invI)
        show "keys_ok m'" using inv_keys [OF inv] by (simp add: keys_ok_def f Some distinct_delete)
        show "links_ok m'" using inv_links [OF inv] unfolding links_ok_def l f by blast
        show "dirty_ok m'" using inv_dirty [OF inv] by (simp add: dirty_ok_def dl f)
        have "read_at m' k'" for k'
          using inv_read [OF inv] read by (cases "k' = k") (simp_all add: read_ok_def read_at_def dl f Some)
        then show "read_ok m'" by (simp add: read_ok_def)
      qed (simp add: f)
      moreover have "view m' = (view m)(k := None)"
        by (rule ext) (simp add: view_def dl f read entry_load_def split: option.split)
      ultimately show ?thesis by (simp add: m'_def)
    qed
  qed
  then show "mapof_inv (MapOf_Delete k m)" "view (MapOf_Delete k m) = (view m)(k := None)" by simp_all
qed

lemma map_of_map_filter:
  assumes "distinct (map fst xs)"
  shows "map_of (List.map_filter (\<lambda>(k, a). map_option (Pair k) (g a)) xs) k = (case map_of xs k of None \<Rightarrow> None | Some a \<Rightarrow> g a)"
proof -
  have out: "map_of (List.map_filter (\<lambda>(k, a). map_option (Pair k) (g a)) ys) j = None" if "j \<notin> fst ` set ys" for ys j
    using that by (induction ys) (auto simp: List.map_filter_simps split: option.split)
  show ?thesis using assms by (induction xs) (auto simp: List.map_filter_simps out split: option.split)
qed

lemma MapOf_Range_ok:
  assumes inv: "mapof_inv m"
  shows "map_of (fst (MapOf_Range m)) = view m" "mapof_inv (snd (MapOf_Range m))" "view (snd (MapOf_Range m)) = view m"
    "MapOf_Count (snd (MapOf_Range m)) = 0"
proof -
  define m' where "m' = (if amended m then promote m else m)"
  have 1: "mapof_inv m'" "view m' = view m" "dirty m' = None"
    using inv promote_inv [OF inv] promote_view [OF inv] inv_amended [OF inv] by (simp_all add: m'_def)
  have r: "MapOf_Range m = (List.map_filter (\<lambda>(k, a). map_option (Pair k) (entry_load a m')) (read_m m'), m')"
    by (simp add: MapOf_Range_def Let_def m'_def)
  have "distinct (map fst (read_m m'))" using inv_keys [OF 1(1)] by (simp add: keys_ok_def)
  from map_of_map_filter [OF this, of "\<lambda>a. entry_load a m'"] have "map_of (fst (MapOf_Range m)) k = view m' k" for k
    using 1(3) by (simp add: r view_def dirty_lookup_def split: option.split)
  then show "map_of (fst (MapOf_Range m)) = view m" using 1(2) by auto
  show "mapof_inv (snd (MapOf_Range m))" "view (snd (MapOf_Range m)) = view m" "MapOf_Count (snd (MapOf_Range m)) = 0"
    using 1 by (simp_all add: r MapOf_Count_def dirty_len_def)
qed

lemma fold_Delete_ok:
  "mapof_inv m \<Longrightarrow> mapof_inv (fold (\<lambda>(k, _). MapOf_Delete k) kvs m) \<and>
     view (fold (\<lambda>(k, _). MapOf_Delete k) kvs m) = view m |` (- fst ` set kvs)"
proof (induction kvs arbitrary: m)
  case (Cons x kvs)
  show ?case
    using Cons.IH [OF MapOf_Delete_ok(1) [OF Cons.prems], of "fst x"] MapOf_Delete_ok(2) [OF Cons.prems, of "fst x"]
    by (auto simp: case_prod_beta restrict_map_def fun_eq_iff)
qed (simp add: restrict_map_def)

lemma MapOf_Clear_ok:
  assumes inv: "mapof_inv m"
  shows "mapof_inv (MapOf_Clear m)" "view (MapOf_Clear m) = Map.empty"
proof -
  obtain kvs m' where r: "MapOf_Range m = (kvs, m')" by fastforce
  note ok = MapOf_Range_ok [OF inv, unfolded r fst_conv snd_conv]
  have "view m |` (- fst ` set kvs) = Map.empty"
    by (rule ext) (simp add: restrict_map_def ok(1) [symmetric] map_of_eq_None_iff)
  then show "mapof_inv (MapOf_Clear m)" "view (MapOf_Clear m) = Map.empty"
    using fold_Delete_ok [OF ok(2), of kvs] ok(3) by (simp_all add: MapOf_Clear_def r)
qed

section \<open>The interface of maps\<close>

datatype ('k, 'v) map_op = LoadOp 'k | HasOp 'k | StoreOp 'k 'v | LoadOrStoreOp 'k 'v | DeleteOp 'k | ToMapOp | ClearOp

datatype ('k, 'v) map_answer = Found "'v option" | Present bool | Stored | Actual 'v bool | Contents "'k \<rightharpoonup> 'v" | Gone

fun plain_step :: "('k, 'v) map_op \<Rightarrow> ('k \<rightharpoonup> 'v) \<Rightarrow> ('k, 'v) map_answer \<times> ('k \<rightharpoonup> 'v)" where
  "plain_step (LoadOp k) f = (Found (f k), f)"
| "plain_step (HasOp k) f = (Present (f k \<noteq> None), f)"
| "plain_step (StoreOp k v) f = (Stored, f(k \<mapsto> v))"
| "plain_step (LoadOrStoreOp k v) f = apfst (case_prod Actual) (load_or_store k v f)"
| "plain_step (DeleteOp k) f = (Gone, f(k := None))"
| "plain_step ToMapOp f = (Contents f, f)"
| "plain_step ClearOp f = (Gone, Map.empty)"

fun mapof_step :: "('k, 'v) map_op \<Rightarrow> ('k, 'v) MapOf \<Rightarrow> (('k, 'v) map_answer \<times> ('k, 'v) MapOf) option" where
  "mapof_step (LoadOp k) m = Some (apfst Found (MapOf_Load k m))"
| "mapof_step (HasOp k) m = Some (apfst Present (MapOf_Has k m))"
| "mapof_step (StoreOp k v) m = map_option (Pair Stored) (MapOf_Store k v m)"
| "mapof_step (LoadOrStoreOp k v) m = map_option (apfst (case_prod Actual)) (MapOf_LoadOrStore k v m)"
| "mapof_step (DeleteOp k) m = Some (Gone, MapOf_Delete k m)"
| "mapof_step ToMapOp m = Some (apfst Contents (MapOf_ToMap m))"
| "mapof_step ClearOp m = Some (Gone, MapOf_Clear m)"

text \<open>The same requests on the association lists by which the other theories model such a map.\<close>

fun alist_step :: "('k, 'v) map_op \<Rightarrow> ('k \<times> 'v) list \<Rightarrow> (('k, 'v) map_answer \<times> ('k \<times> 'v) list) option" where
  "alist_step (LoadOp k) m = Some (Found (map_of m k), m)"
| "alist_step (HasOp k) m = Some (Present (map_of m k \<noteq> None), m)"
| "alist_step (StoreOp k v) m = Some (Stored, AList.update k v m)"
| "alist_step (LoadOrStoreOp k v) m =
     Some (case map_of m k of Some w \<Rightarrow> (Actual w True, m) | None \<Rightarrow> (Actual v False, AList.update k v m))"
| "alist_step (DeleteOp k) m = Some (Gone, AList.delete k m)"
| "alist_step ToMapOp m = Some (Contents (map_of m), m)"
| "alist_step ClearOp m = Some (Gone, [])"

fun run_map :: "('op \<Rightarrow> 's \<Rightarrow> ('a \<times> 's) option) \<Rightarrow> 'op list \<Rightarrow> 's \<Rightarrow> ('a list \<times> 's) option" where
  "run_map step [] s = Some ([], s)"
| "run_map step (p # ps) s =
     (case step p s of None \<Rightarrow> None | Some (a, s') \<Rightarrow> map_option (apfst (Cons a)) (run_map step ps s'))"

text \<open>An implementation of maps: every request is answered, as a plain map answers it.\<close>

locale map_implementation =
  fixes init :: 's
    and step :: "('k, 'v) map_op \<Rightarrow> 's \<Rightarrow> (('k, 'v) map_answer \<times> 's) option"
    and inv :: "'s \<Rightarrow> bool"
    and abs :: "'s \<Rightarrow> 'k \<rightharpoonup> 'v"
  assumes init: "inv init" "abs init = Map.empty"
    and step: "inv s \<Longrightarrow> \<exists>a s'. step p s = Some (a, s') \<and> inv s' \<and> plain_step p (abs s) = (a, abs s')"
begin

lemma run_simulates:
  "inv s \<Longrightarrow> \<exists>as s'. run_map step ps s = Some (as, s') \<and> inv s' \<and>
     run_map (\<lambda>p f. Some (plain_step p f)) ps (abs s) = Some (as, abs s')"
proof (induction ps arbitrary: s)
  case (Cons p ps)
  obtain a s1 where 1: "step p s = Some (a, s1)" "inv s1" "plain_step p (abs s) = (a, abs s1)"
    using step [OF Cons.prems] by blast
  show ?case using Cons.IH [OF 1(2)] 1 by auto
qed simp

lemmas run_from_init = run_simulates [OF init(1), unfolded init(2)]

end

lemma apfst_eq: "apfst f p = (f (fst p), snd p)"
  by (cases p) simp

interpretation mapof: map_implementation zero_MapOf mapof_step mapof_inv view
proof (unfold_locales)
  show "mapof_inv zero_MapOf" "view zero_MapOf = Map.empty" by (rule zero_MapOf_inv)+
  fix m :: "('k, 'v) MapOf" and p
  assume inv: "mapof_inv m"
  show "\<exists>a m'. mapof_step p m = Some (a, m') \<and> mapof_inv m' \<and> plain_step p (view m) = (a, view m')"
  proof (cases p)
    case (StoreOp k v)
    obtain m' where "MapOf_Store k v m = Some m'" "mapof_inv m'" "view m' = (view m)(k \<mapsto> v)"
      by (rule MapOf_Store_ok [OF inv])
    then show ?thesis using StoreOp by simp
  next
    case (LoadOrStoreOp k v)
    obtain r m' where "MapOf_LoadOrStore k v m = Some (r, m')" "mapof_inv m'" "load_or_store k v (view m) = (r, view m')"
      by (rule MapOf_LoadOrStore_ok [OF inv])
    then show ?thesis using LoadOrStoreOp by simp
  qed (use MapOf_Load_ok [OF inv] MapOf_Delete_ok [OF inv] MapOf_Range_ok [OF inv] MapOf_Clear_ok [OF inv] in
    \<open>auto simp: MapOf_Has_def MapOf_ToMap_def apfst_eq\<close>)
qed

interpretation alist: map_implementation "[]" alist_step "\<lambda>m. distinct (map fst m)" map_of
proof (unfold_locales)
  fix m :: "('k \<times> 'v) list" and p
  assume "distinct (map fst m)"
  then show "\<exists>a m'. alist_step p m = Some (a, m') \<and> distinct (map fst m') \<and> plain_step p (map_of m) = (a, map_of m')"
    by (cases p) (auto simp: update_conv' delete_conv' distinct_update distinct_delete load_or_store_def split: option.split)
qed simp_all

text \<open>C13 (the concurrent map is a map): from the zero value, the concurrent map answers every sequence of requests, none of them panics, and the
  answers and the contents are those of the association list under insertion, deletion and lookup.\<close>

theorem MapOf_equivalent:
  "\<exists>as m l. run_map mapof_step ps zero_MapOf = Some (as, m) \<and> run_map alist_step ps [] = Some (as, l) \<and> view m = map_of l"
proof -
  obtain as m where m: "run_map mapof_step ps zero_MapOf = Some (as, m)"
    "run_map (\<lambda>p f. Some (plain_step p f)) ps Map.empty = Some (as, view m)"
    using mapof.run_from_init [of ps] by (elim exE conjE) (rule that)
  obtain bs l where l: "run_map alist_step ps [] = Some (bs, l)"
    "run_map (\<lambda>p f. Some (plain_step p f)) ps Map.empty = Some (bs, map_of l)"
    using alist.run_from_init [of ps] by (elim exE conjE) (rule that)
  show ?thesis using m l by simp
qed

end
