(* ===== verification/Storages.thy ===== *)
theory Storages
  imports Paths "HOL-Library.Word" "HOL-Library.Multiset" "HOL-Library.List_Lexorder" "HOL-Library.Char_ord"
begin

text \<open>
  The mount table of \<open>internal/op/storage.go\<close> and \<open>internal/op/path.go\<close>: which storages serve a
  path (longest matching mount point, several storages per mount point through the
  \<open>.balance\<close> suffix), round robin among them, the virtual directories that the mount points
  induce, and the choice of a master driver by name.

  A mounted driver is the record of what these functions read of it. The map \<open>storagesMap\<close> is
  the list of its entries in the order \<open>Range\<close> visits them, which Go leaves open. Go compares
  strings bytewise, which is the order of \<open>List_Lexorder\<close> over \<open>Char_ord\<close>.
\<close>

section \<open>Data\<close>

text \<open>\<open>model.Storage\<close> without the embedded \<open>Sort\<close> and \<open>Proxy\<close> settings.\<close>

record Storage =
  StorageID :: nat
  MountPath :: string
  Order :: int
  DriverName :: string
  CacheExpiration :: int
  CustomCachePolicies :: string
  Status :: string
  Addition :: string
  Remark :: string
  Modified :: int
  Disabled :: bool
  DisableIndex :: bool
  EnableSign :: bool

text \<open>\<open>ConfigName\<close> is \<open>Config().Name\<close>, \<open>GetStorage\<close> the storage embedded in the driver.\<close>

record Driver =
  ConfigName :: string
  GetStorage :: Storage

type_synonym storages_map = "(string \<times> Driver) list"

text \<open>The bits of \<open>model.ObjMask\<close> (\<open>internal/model/obj.go\<close>).\<close>

definition mask_Virtual :: "8 word" where "mask_Virtual = 1"
definition mask_NoRename :: "8 word" where "mask_NoRename = 2"
definition mask_NoRemove :: "8 word" where "mask_NoRemove = 4"
definition mask_NoMove :: "8 word" where "mask_NoMove = 8"
definition mask_NoCopy :: "8 word" where "mask_NoCopy = 16"
definition mask_NoWrite :: "8 word" where "mask_NoWrite = 32"
definition mask_Temp :: "8 word" where "mask_Temp = 64"

unbundle bit_operations_syntax

definition mask_Locked :: "8 word" where
  "mask_Locked = mask_NoRename OR mask_NoRemove OR mask_NoMove"
definition mask_ReadOnly :: "8 word" where
  "mask_ReadOnly = mask_Locked OR mask_NoWrite"

text \<open>The fields of \<open>model.Object\<close> that a virtual directory sets.\<close>

record Object =
  ObjName :: string
  ObjModified :: int
  ObjIsFolder :: bool
  ObjMask :: "8 word"

section \<open>Lookup by path\<close>

definition GetStorageByMountPath :: "storages_map \<Rightarrow> string \<Rightarrow> Driver option" where
  "GetStorageByMountPath storagesMap mountPath = map_of storagesMap (FixAndCleanPath mountPath)"

definition HasStorage :: "storages_map \<Rightarrow> string \<Rightarrow> bool" where
  "HasStorage storagesMap mountPath \<longleftrightarrow> map_of storagesMap (FixAndCleanPath mountPath) \<noteq> None"

definition slash_count :: "string \<Rightarrow> nat" where
  "slash_count mountPath = count_list (PathAddSeparatorSuffix mountPath) (CHR ''/'')"

text \<open>The callback of \<open>storagesMap.Range\<close> on \<open>(storages, curSlashCount)\<close>.\<close>

definition range_storage :: "string \<Rightarrow> Driver list \<times> nat \<Rightarrow> string \<times> Driver \<Rightarrow> Driver list \<times> nat" where
  "range_storage path st kv =
     (case st of (storages, curSlashCount) \<Rightarrow> case kv of (mountPath, v) \<Rightarrow>
        let mountPath = GetActualMountPath mountPath in
          if IsSubPath mountPath path then
            (let slashCount = slash_count mountPath;
                 (storages, curSlashCount) =
                   (if slashCount > curSlashCount then ([], slashCount) else (storages, curSlashCount))
             in if slashCount = curSlashCount then (storages @ [v], curSlashCount)
                else (storages, curSlashCount))
          else (storages, curSlashCount))"

definition getStoragesByPath :: "storages_map \<Rightarrow> string \<Rightarrow> Driver list" where
  "getStoragesByPath storagesMap path =
     sort_key (\<lambda>d. MountPath (GetStorage d)) (fst (foldl (range_storage path) ([], 0) storagesMap))"

text \<open>\<open>balanceMap\<close> is the state of the round robin.\<close>

definition GetBalancedStorage ::
    "storages_map \<Rightarrow> string \<Rightarrow> (string \<rightharpoonup> nat) \<Rightarrow> Driver option \<times> (string \<rightharpoonup> nat)" where
  "GetBalancedStorage storagesMap path balanceMap =
     (let path = FixAndCleanPath path;
          storages = getStoragesByPath storagesMap path;
          storageNum = length storages
      in if storageNum = 0 then (None, balanceMap)
         else if storageNum = 1 then (Some (storages ! 0), balanceMap)
         else (let virtualPath = GetActualMountPath (MountPath (GetStorage (storages ! 0)));
                   i = (case balanceMap virtualPath of None \<Rightarrow> 0 | Some i \<Rightarrow> i);
                   i = (i + 1) mod storageNum
               in (Some (storages ! i), balanceMap(virtualPath \<mapsto> i))))"

datatype storage_error = StorageNotFound string

definition GetStorageAndActualPath ::
    "storages_map \<Rightarrow> string \<Rightarrow> (string \<rightharpoonup> nat) \<Rightarrow> (storage_error + Driver \<times> string) \<times> (string \<rightharpoonup> nat)" where
  "GetStorageAndActualPath storagesMap rawPath balanceMap =
     (let rawPath = FixAndCleanPath rawPath in
        case GetBalancedStorage storagesMap rawPath balanceMap of
          (None, b) \<Rightarrow>
            (Inl (StorageNotFound
               (if rawPath = ''/'' then ''please add a storage first'' else ''rawPath: '' @ rawPath)), b)
        | (Some storage, b) \<Rightarrow>
            (let mountPath = GetActualMountPath (MountPath (GetStorage storage));
                 actualPath = FixAndCleanPath (trim_prefix rawPath mountPath)
             in (Inr (storage, actualPath), b)))"

text \<open>\<open>urlTreeSplitLineFormPath\<close>.\<close>

definition urlTreeSplitLineFormPath :: "string \<Rightarrow> string \<times> string" where
  "urlTreeSplitLineFormPath path =
     (let path = replace_first ''https:/'' ''https://'' path;
          path = replace_first ''http:/'' ''http://'' path;
          (pp, file) =
            (if contains path '':https:/'' \<or> contains path '':http:/'' then
               (let fPath = fst (cut_at (CHR '':'') path); pp = fst (path_split fPath)
                in (pp, drop (length pp) path))
             else if contains path ''/https:/'' \<or> contains path ''/http:/'' then
               (case (case index_str ''/http://'' path of
                        Some i \<Rightarrow> Some i | None \<Rightarrow> index_str ''/https://'' path) of
                  Some i \<Rightarrow> (take i path, drop (Suc i) path)
                | None \<Rightarrow> path_split path)
             else path_split path)
      in (if pp = [] then ''/'' else pp, file))"

section \<open>Virtual directories\<close>

text \<open>One round of the loop of \<open>getStorageVirtualFilesByPath\<close> without a root callback, on the
  pair of \<open>files\<close> and \<open>set\<close>.\<close>

definition virtual_file_step ::
    "string \<Rightarrow> string \<Rightarrow> Object list \<times> (string \<rightharpoonup> nat) \<Rightarrow> Driver \<Rightarrow> Object list \<times> (string \<rightharpoonup> nat)" where
  "virtual_file_step prefx filterByName st v =
     (case st of (files, seen) \<Rightarrow>
        let mp = GetActualMountPath (MountPath (GetStorage v)) in
        if \<not> has_prefix mp prefx \<or> trim_prefix mp prefx = [] then st
        else (case cut_at (CHR ''/'') (trim_prefix mp prefx) of (name, _, found) \<Rightarrow>
          if filterByName \<noteq> [] \<and> name \<noteq> filterByName then st
          else (case seen name of
              Some idx \<Rightarrow>
                if \<not> found then (files[idx := (files ! idx)\<lparr>ObjMask := mask_Locked OR mask_Virtual\<rparr>], seen)
                else st
            | None \<Rightarrow>
                (files @ [\<lparr>ObjName = name, ObjModified = Modified (GetStorage v), ObjIsFolder = True,
                    ObjMask = (if \<not> found then mask_Locked OR mask_Virtual
                               else mask_ReadOnly OR mask_Virtual)\<rparr>],
                 seen(name \<mapsto> length files)))))"

definition storages_in_order :: "storages_map \<Rightarrow> Driver list" where
  "storages_in_order storagesMap =
     sort_key (\<lambda>d. Order (GetStorage d)) (sort_key (\<lambda>d. MountPath (GetStorage d)) (map snd storagesMap))"

definition getStorageVirtualFilesByPath :: "storages_map \<Rightarrow> string \<Rightarrow> string \<Rightarrow> Object list" where
  "getStorageVirtualFilesByPath storagesMap prefx filterByName =
     (let prefx = (if \<not> has_suffix prefx ''/'' then prefx @ ''/'' else prefx)
      in fst (foldl (virtual_file_step prefx filterByName) ([], Map.empty) (storages_in_order storagesMap)))"

definition GetStorageVirtualFilesByPath :: "storages_map \<Rightarrow> string \<Rightarrow> Object list" where
  "GetStorageVirtualFilesByPath storagesMap prefx = getStorageVirtualFilesByPath storagesMap prefx []"

section \<open>Drivers by name\<close>

definition GetStorages :: "storages_map \<Rightarrow> string \<Rightarrow> Driver list" where
  "GetStorages storagesMap name = filter (\<lambda>d. ConfigName d = name) (map snd storagesMap)"

definition GetDriverCount :: "storages_map \<Rightarrow> string \<Rightarrow> nat" where
  "GetDriverCount storagesMap name = foldl (\<lambda>count d. if ConfigName d = name then count + 1 else count) 0 (map snd storagesMap)"

text \<open>A setting that is missing is \<open>None\<close>; \<open>GetBool\<close> then dereferences nil.\<close>

definition GetBool :: "(string \<rightharpoonup> string) \<Rightarrow> string \<Rightarrow> bool option" where
  "GetBool settings key = map_option (\<lambda>v. v = ''true'' \<or> v = ''1'') (settings key)"

text \<open>\<open>uint(id)\<close> of a negative \<open>id\<close> wraps around.\<close>

definition getMasterId :: "(string \<rightharpoonup> string) \<Rightarrow> string \<Rightarrow> nat" where
  "getMasterId settings prefx =
     (case settings (prefx @ ''_id'') of
        None \<Rightarrow> 0
      | Some v \<Rightarrow> (case parse_int v of None \<Rightarrow> 0 | Some i \<Rightarrow> nat (i mod 2 ^ 64)))"

datatype driver_result = DriverPanic | DriverNil | DriverFound Driver

definition GetMasterDriver :: "storages_map \<Rightarrow> (string \<rightharpoonup> string) \<Rightarrow> string \<Rightarrow> string \<Rightarrow> int \<Rightarrow> driver_result" where
  "GetMasterDriver storagesMap settings name prefx dind =
     (let storages = sort_key (\<lambda>d. StorageID (GetStorage d)) (map snd storagesMap);
          master = (if prefx \<noteq> [] \<and> getMasterId settings prefx > 0
                    then find (\<lambda>d. ConfigName d = name \<and> StorageID (GetStorage d) = getMasterId settings prefx) storages
                    else None)
      in case master of
           Some d \<Rightarrow> DriverFound d
         | None \<Rightarrow>
             (let drivers = filter (\<lambda>d. ConfigName d = name) storages in
                if length drivers = 1 then DriverFound (drivers ! 0)
                else if length drivers > 1 then
                  (let i = go_mod dind (int (length drivers))
                   in if i < 0 then DriverPanic else DriverFound (drivers ! nat i))
                else DriverNil))"

text \<open>The prefix table of \<open>GetFirstDriver\<close>; the \<open>conf\<close> constants are written out.\<close>

definition driver_prefix :: "string \<Rightarrow> string" where
  "driver_prefix name =
     (if name = ''115 Cloud'' then ''PAN115''
      else if name = ''Quark'' then ''QUARK''
      else if name = ''UC'' then ''UC''
      else if name = ''QuarkTV'' then ''QUARK_TV''
      else if name = ''UCTV'' then ''UC_TV''
      else if name = ''ThunderBrowser'' then ''THUNDER''
      else if name = ''189CloudPC'' then ''CLOUD189''
      else if name = ''139Yun'' then ''PAN139''
      else if name = ''115 Open'' then ''OPEN115''
      else if name = ''BaiduNetdisk'' then ''BAIDU''
      else if name = ''123Pan'' then ''PAN123''
      else if name = ''AliyundriveOpen'' then ''ali_account''
      else [])"

definition GetFirstDriver :: "storages_map \<Rightarrow> (string \<rightharpoonup> string) \<Rightarrow> string \<Rightarrow> int \<Rightarrow> driver_result" where
  "GetFirstDriver storagesMap settings name dind =
     (case GetBool settings ''driver_round_robin'' of
        None \<Rightarrow> DriverPanic
      | Some True \<Rightarrow> GetMasterDriver storagesMap settings name [] dind
      | Some False \<Rightarrow> GetMasterDriver storagesMap settings name (driver_prefix name) dind)"

section \<open>Mount tables\<close>

text \<open>What the storage operations keep of \<open>storagesMap\<close>: the keys are the mount paths, no two
  entries share one, and a mount path is clean once its balance suffix is cut off.\<close>

definition mount_table :: "storages_map \<Rightarrow> bool" where
  "mount_table storagesMap \<longleftrightarrow>
     distinct (map fst storagesMap) \<and>
     (\<forall>(k, d) \<in> set storagesMap. k = MountPath (GetStorage d) \<and>
        FixAndCleanPath (GetActualMountPath k) = GetActualMountPath k)"

definition mounted_above :: "string \<Rightarrow> string \<times> Driver \<Rightarrow> bool" where
  "mounted_above path kv \<longleftrightarrow> IsSubPath (GetActualMountPath (fst kv)) path"

definition mount_depth :: "string \<times> Driver \<Rightarrow> nat" where
  "mount_depth kv = slash_count (GetActualMountPath (fst kv))"

lemma range_storage_eq:
  "range_storage path (ds, n) kv =
     (if \<not> mounted_above path kv then (ds, n)
      else if n < mount_depth kv then ([snd kv], mount_depth kv)
      else if mount_depth kv = n then (ds @ [snd kv], n) else (ds, n))"
  by (cases kv) (simp add: range_storage_def mounted_above_def mount_depth_def Let_def)

lemma foldl_range_storage:
  "foldl (range_storage path) ([], 0) m = (ds, n) \<Longrightarrow>
     ds = map snd (filter (\<lambda>kv. mounted_above path kv \<and> mount_depth kv = n) m) \<and>
     (\<forall>kv \<in> set m. mounted_above path kv \<longrightarrow> mount_depth kv \<le> n) \<and>
     (n \<noteq> 0 \<longrightarrow> (\<exists>kv \<in> set m. mounted_above path kv \<and> mount_depth kv = n))"
proof (induction m arbitrary: ds n rule: rev_induct)
  case Nil
  then show ?case by simp
next
  case (snoc kv m)
  obtain ds' n' where st: "foldl (range_storage path) ([], 0) m = (ds', n')" by fastforce
  note IH = snoc.IH [OF st]
  have step: "range_storage path (ds', n') kv = (ds, n)" using snoc.prems st by simp
  consider "\<not> mounted_above path kv" | "mounted_above path kv" "n' < mount_depth kv"
    | "mounted_above path kv" "mount_depth kv \<le> n'" by linarith
  then show ?case
  proof cases
    case 2
    then have "filter (\<lambda>kv'. mounted_above path kv' \<and> mount_depth kv' = mount_depth kv) m = []"
      using IH by (auto simp: filter_empty_conv)
    moreover have "\<forall>kv' \<in> set m. mounted_above path kv' \<longrightarrow> mount_depth kv' \<le> mount_depth kv"
      using IH 2 by fastforce
    ultimately show ?thesis using 2 step by (auto simp: range_storage_eq)
  qed (use IH step in \<open>auto simp: range_storage_eq split: if_splits\<close>)
qed

lemma count_slash_join:
  "good_comps cs \<Longrightarrow> count_list (join_with ''/'' cs) (CHR ''/'') = length cs - 1"
  by (induction "''/''" cs rule: join_with.induct) (auto simp: good_comp_def count_notin)

lemma slash_count_abs_path: "good_comps cs \<Longrightarrow> slash_count (abs_path cs) = Suc (length cs)"
  by (cases cs)
    (auto simp: slash_count_def PathAddSeparatorSuffix_def has_suffix_def abs_path_suffix_slash,
      auto simp: abs_path_def count_slash_join)

lemma mount_depth_comps:
  assumes "mount_table m" "kv \<in> set m"
  shows "mount_depth kv = Suc (length (path_comps (GetActualMountPath (fst kv))))"
proof -
  have "GetActualMountPath (fst kv) = abs_path (path_comps (GetActualMountPath (fst kv)))"
    using assms by (cases kv) (auto simp: mount_table_def FixAndCleanPath_comps)
  then show ?thesis using slash_count_abs_path [OF path_comps_good]
    by (metis mount_depth_def)
qed

lemma mounted_above_nested:
  assumes "mounted_above path kv" "mounted_above path kv'" 
  shows "length (path_comps (GetActualMountPath (fst kv'))) \<le> length (path_comps (GetActualMountPath (fst kv)))
    \<longleftrightarrow> IsSubPath (GetActualMountPath (fst kv')) (GetActualMountPath (fst kv))"
  using assms unfolding mounted_above_def IsSubPath_comps
  by (meson prefix_length_le prefix_length_prefix)

lemma mset_getStoragesByPath:
  assumes "mount_table m"
  shows "mset (getStoragesByPath m path) =
    mset (map snd (filter (\<lambda>kv. mounted_above path kv \<and> (\<forall>kv' \<in> set m. mounted_above path kv' \<longrightarrow>
      IsSubPath (GetActualMountPath (fst kv')) (GetActualMountPath (fst kv)))) m))"
proof -
  obtain ds n where st: "foldl (range_storage path) ([], 0) m = (ds, n)" by fastforce
  note R = foldl_range_storage [OF st]
  have "mounted_above path kv \<and> mount_depth kv = n \<longleftrightarrow>
      mounted_above path kv \<and> (\<forall>kv' \<in> set m. mounted_above path kv' \<longrightarrow>
        IsSubPath (GetActualMountPath (fst kv')) (GetActualMountPath (fst kv)))" if "kv \<in> set m" for kv
  proof (cases "mounted_above path kv")
    case True
    have "mount_depth kv' \<le> mount_depth kv \<longleftrightarrow>
        IsSubPath (GetActualMountPath (fst kv')) (GetActualMountPath (fst kv))"
      if "kv' \<in> set m" "mounted_above path kv'" for kv'
      using mounted_above_nested [OF True that(2)] mount_depth_comps [OF assms] that(1) \<open>kv \<in> set m\<close>
      by simp
    moreover have "mount_depth kv = n \<longleftrightarrow>
        (\<forall>kv' \<in> set m. mounted_above path kv' \<longrightarrow> mount_depth kv' \<le> mount_depth kv)"
    proof -
      have "mount_depth kv \<le> n" "0 < mount_depth kv"
        using R True that mount_depth_comps [OF assms that] by auto
      then obtain kv' where "kv' \<in> set m" "mounted_above path kv'" "mount_depth kv' = n"
        using R by auto
      then show ?thesis using R \<open>mount_depth kv \<le> n\<close> by (auto intro: le_antisym)
    qed
    ultimately show ?thesis by blast
  qed simp
  then have "ds = map snd (filter (\<lambda>kv. mounted_above path kv \<and> (\<forall>kv' \<in> set m. mounted_above path kv' \<longrightarrow>
      IsSubPath (GetActualMountPath (fst kv')) (GetActualMountPath (fst kv)))) m)"
    using conjunct1 [OF R] by (simp cong: filter_cong)
  then show ?thesis using st by (simp add: getStoragesByPath_def)
qed

lemma set_getStoragesByPath:
  assumes "mount_table m"
  shows "d \<in> set (getStoragesByPath m path) \<longleftrightarrow>
    (\<exists>k. (k, d) \<in> set m \<and> IsSubPath (GetActualMountPath k) path \<and>
      (\<forall>(k', d') \<in> set m. IsSubPath (GetActualMountPath k') path \<longrightarrow>
         IsSubPath (GetActualMountPath k') (GetActualMountPath k)))"
proof -
  have "set (getStoragesByPath m path) = snd ` {kv \<in> set m. mounted_above path kv \<and>
      (\<forall>kv' \<in> set m. mounted_above path kv' \<longrightarrow>
        IsSubPath (GetActualMountPath (fst kv')) (GetActualMountPath (fst kv)))}"
    using arg_cong [OF mset_getStoragesByPath [OF assms, of path], of set_mset] by simp
  then have "d \<in> set (getStoragesByPath m path) \<longleftrightarrow>
      (\<exists>k. (k, d) \<in> set m \<and> mounted_above path (k, d) \<and> (\<forall>kv' \<in> set m. mounted_above path kv' \<longrightarrow>
        IsSubPath (GetActualMountPath (fst kv')) (GetActualMountPath k)))"
    by (auto simp: image_iff)
  then show ?thesis by (simp add: mounted_above_def case_prod_beta)
qed

lemma mount_table_mset: "mount_table m \<Longrightarrow> mset m' = mset m \<Longrightarrow> mount_table m'"
  using mset_eq_imp_distinct_iff [of "map fst m'" "map fst m"] mset_eq_setD [of m' m]
  by (auto simp: mount_table_def)

lemma distinct_getStoragesByPath:
  assumes "mount_table m"
  shows "distinct (map (\<lambda>d. MountPath (GetStorage d)) (getStoragesByPath m path))"
proof -
  have "map fst m = map (\<lambda>d. MountPath (GetStorage d)) (map snd m)"
    using assms by (auto simp: mount_table_def)
  moreover have "distinct (map fst m)" using assms by (simp add: mount_table_def)
  ultimately have "distinct (map (\<lambda>d. MountPath (GetStorage d)) (map snd m))" by (simp only:)
  then have "distinct (map (\<lambda>d. MountPath (GetStorage d)) (map snd (filter P m)))" for P
    by (simp add: comp_def distinct_map_filter)
  then show ?thesis
    using mset_getStoragesByPath [OF assms, of path] mset_eq_imp_distinct_iff
    by (metis (no_types, lifting) mset_map)
qed

lemma getStoragesByPath_order:
  assumes "mount_table m" "mset m' = mset m"
  shows "getStoragesByPath m' path = getStoragesByPath m path"
proof -
  let ?f = "\<lambda>d. MountPath (GetStorage d)"
  note m' = mount_table_mset [OF assms]
  have sets: "set (getStoragesByPath m' path) = set (getStoragesByPath m path)"
    using set_getStoragesByPath [OF assms(1)] set_getStoragesByPath [OF m'] mset_eq_setD [OF assms(2)]
    by (auto simp: set_eq_iff)
  moreover have "inj_on ?f (set (getStoragesByPath m path))"
    using distinct_getStoragesByPath [OF assms(1)] by (simp add: distinct_map)
  ultimately have "inj_on ?f (set (getStoragesByPath m' path) \<union> set (getStoragesByPath m path))" by simp
  from map_sorted_distinct_set_unique [OF this]
  show ?thesis using distinct_getStoragesByPath assms(1) m' sets by (simp add: getStoragesByPath_def)
qed

section \<open>Round robin\<close>

text \<open>The storages that \<open>n\<close> calls of \<open>GetBalancedStorage\<close> for one path return in turn.\<close>

fun balanced_calls :: "nat \<Rightarrow> storages_map \<Rightarrow> string \<Rightarrow> (string \<rightharpoonup> nat) \<Rightarrow> Driver option list" where
  "balanced_calls 0 m path b = []"
| "balanced_calls (Suc n) m path b =
     (case GetBalancedStorage m path b of (d, b') \<Rightarrow> d # balanced_calls n m path b')"

lemma mset_rotate: "mset (rotate n xs) = mset xs"
  by (simp add: rotate_drop_take) (metis append_take_drop_id mset_append union_commute)

lemma balanced_calls_rotate:
  assumes L: "L = getStoragesByPath m (FixAndCleanPath path)" "1 < length L"
    and i: "i = (case b (GetActualMountPath (MountPath (GetStorage (L ! 0)))) of None \<Rightarrow> 0 | Some i \<Rightarrow> i)"
  shows "balanced_calls n m path b = map (\<lambda>k. Some (L ! ((i + 1 + k) mod length L))) [0..<n]"
  using i
proof (induction n arbitrary: b i)
  case 0
  then show ?case by simp
next
  case (Suc n)
  let ?v = "GetActualMountPath (MountPath (GetStorage (L ! 0)))"
  let ?j = "(i + 1) mod length L"
  have "GetBalancedStorage m path b = (Some (L ! ?j), b(?v \<mapsto> ?j))"
    using L Suc.prems by (auto simp: GetBalancedStorage_def Let_def)
  moreover have "balanced_calls n m path (b(?v \<mapsto> ?j)) =
      map (\<lambda>k. Some (L ! ((i + 1 + Suc k) mod length L))) [0..<n]"
  proof -
    have "(?j + 1 + k) mod length L = (i + 1 + Suc k) mod length L" for k
      using mod_add_left_eq [of "i + 1" "length L" "k + 1"] by (simp add: add.assoc)
    then show ?thesis using Suc.IH [of ?j "b(?v \<mapsto> ?j)"] by (simp only: fun_upd_same option.case)
  qed
  ultimately show ?case
    by (simp add: upt_conv_Cons map_Suc_upt [symmetric] comp_def del: upt_Suc)
qed

section \<open>Properties of the lookup\<close>

definition example_driver :: "nat \<Rightarrow> string \<Rightarrow> Driver" where
  "example_driver i mp = \<lparr>ConfigName = ''Local'', GetStorage = \<lparr>StorageID = i, MountPath = mp, Order = 0,
     DriverName = ''Local'', CacheExpiration = 30, CustomCachePolicies = [], Status = ''work'',
     Addition = [], Remark = [], Modified = 0, Disabled = False, DisableIndex = False, EnableSign = False\<rparr>\<rparr>"

definition example_mounts :: storages_map where
  "example_mounts = map (\<lambda>(i, mp). (mp, example_driver i mp))
     [(1, ''/a''), (2, ''/a/d/e''), (3, ''/a/d/e.balance''), (4, ''/av'')]"

lemma mount_table_example: "mount_table example_mounts"
  by code_simp

text \<open>C14 (longest match): the storages chosen for a path are those mounted at the deepest mount
  point above it, balance suffixes ignored, and the choice does not depend on the order in which the
  map is traversed.\<close>

theorem getStoragesByPath_longest:
  assumes "mount_table m" "mset m' = mset m"
  shows "getStoragesByPath m' path = getStoragesByPath m path \<and>
    (d \<in> set (getStoragesByPath m path) \<longleftrightarrow>
      (\<exists>k. (k, d) \<in> set m \<and> IsSubPath (GetActualMountPath k) path \<and>
        (\<forall>(k', d') \<in> set m. IsSubPath (GetActualMountPath k') path \<longrightarrow>
           IsSubPath (GetActualMountPath k') (GetActualMountPath k))))"
  using getStoragesByPath_order [OF assms] set_getStoragesByPath [OF assms(1)] by simp

theorem getStoragesByPath_longest_witness:
  "getStoragesByPath (rev example_mounts) ''/a/d/e/f'' =
     [example_driver 2 ''/a/d/e'', example_driver 3 ''/a/d/e.balance'']"
proof -
  have "getStoragesByPath (rev example_mounts) ''/a/d/e/f'' = getStoragesByPath example_mounts ''/a/d/e/f''"
    using getStoragesByPath_longest [OF mount_table_example, of "rev example_mounts"] by simp
  also have "\<dots> = [example_driver 2 ''/a/d/e'', example_driver 3 ''/a/d/e.balance'']" by code_simp
  finally show ?thesis .
qed

text \<open>C32 (round robin): as many consecutive requests for one path as there are storages for it
  use each of these storages exactly once, whatever the balance map held before.\<close>

theorem GetBalancedStorage_fair:
  "mset (balanced_calls (length (getStoragesByPath m (FixAndCleanPath path))) m path b) =
   image_mset Some (mset (getStoragesByPath m (FixAndCleanPath path)))"
proof -
  let ?L = "getStoragesByPath m (FixAndCleanPath path)"
  consider "?L = []" | d where "?L = [d]" | "1 < length ?L"
    by (cases ?L; cases "tl ?L") auto
  then show ?thesis
  proof cases
    case 3
    define i where "i = (case b (GetActualMountPath (MountPath (GetStorage (?L ! 0)))) of None \<Rightarrow> 0 | Some i \<Rightarrow> i)"
    have "balanced_calls (length ?L) m path b = map Some (rotate (i + 1) ?L)"
      using balanced_calls_rotate [of ?L m path i b "length ?L"] 3
      by (intro nth_equalityI) (simp_all add: nth_rotate del: rotate_Suc add: i_def [symmetric])
    then show ?thesis by (metis mset_map mset_rotate)
  qed (auto simp: GetBalancedStorage_def Let_def)
qed

section \<open>Paths inside a storage\<close>

lemma path_comps_slash [simp]: "path_comps (CHR ''/'' # s) = path_comps s"
  by (simp add: path_comps_def replace_byte_def)

lemma path_comps_Nil [simp]: "path_comps [] = []"
  by (simp add: path_comps_def replace_byte_def norm_comps_def clean_step_def)

lemma path_comps_trim:
  assumes "path_comps q = cs @ es" "cs = path_comps p"
  shows "path_comps (trim_prefix (abs_path (cs @ es)) (abs_path cs)) = es"
proof -
  have es: "path_comps (abs_path es) = es"
    using assms path_comps_good [of q] path_comps_no_backslash [of _ q]
    by (intro path_comps_abs_path) auto
  consider "cs = []" | "es = []" | "cs \<noteq> []" "es \<noteq> []" by blast
  then show ?thesis
  proof cases
    case 1
    then show ?thesis using es by (simp add: abs_path_def trim_prefix_def)
  next
    case 2
    then show ?thesis by (simp add: trim_prefix_def)
  next
    case 3
    then show ?thesis using es by (simp add: abs_path_append)
  qed
qed

lemma GetBalancedStorage_member:
  assumes "GetBalancedStorage m path b = (Some d, b')"
  shows "d \<in> set (getStoragesByPath m (FixAndCleanPath path))"
  using assms by (auto simp: GetBalancedStorage_def Let_def split: if_splits)

text \<open>C31 (path translation): the path inside the chosen storage is clean, and joining it to the
  mount point of that storage gives the requested path back.\<close>

theorem GetStorageAndActualPath_round_trip:
  assumes "mount_table m" "GetStorageAndActualPath m rawPath b = (Inr (d, actualPath), b')"
  shows "GetFullPath (MountPath (GetStorage d)) actualPath = FixAndCleanPath rawPath \<and>
    FixAndCleanPath actualPath = actualPath \<and>
    d \<in> set (getStoragesByPath m (FixAndCleanPath rawPath))"
proof -
  let ?mp = "GetActualMountPath (MountPath (GetStorage d))"
  have "GetBalancedStorage m (FixAndCleanPath rawPath) b = (Some d, b')"
    and actual: "actualPath = FixAndCleanPath (trim_prefix (FixAndCleanPath rawPath) ?mp)"
    using assms(2) by (auto simp: GetStorageAndActualPath_def Let_def split: prod.splits option.splits)
  then have d: "d \<in> set (getStoragesByPath m (FixAndCleanPath rawPath))"
    using GetBalancedStorage_member by fastforce
  then have "(MountPath (GetStorage d), d) \<in> set m" "IsSubPath ?mp (FixAndCleanPath rawPath)"
    using assms(1) by (auto simp: set_getStoragesByPath mount_table_def)
  then have mp: "?mp = abs_path (path_comps ?mp)" and "prefix (path_comps ?mp) (path_comps rawPath)"
    using assms(1) by (auto simp: mount_table_def FixAndCleanPath_comps IsSubPath_comps)
  then obtain es where es: "path_comps rawPath = path_comps ?mp @ es" by (auto simp: prefix_def)
  then have "path_comps (trim_prefix (FixAndCleanPath rawPath) ?mp) = es"
    using path_comps_trim [OF es refl] mp by (simp add: FixAndCleanPath_comps)
  then have "actualPath = abs_path es" by (simp add: actual FixAndCleanPath_comps)
  moreover have "good_comps es" using path_comps_good [of rawPath] es by simp
  ultimately have "GetFullPath (MountPath (GetStorage d)) actualPath = FixAndCleanPath rawPath"
    using mp es path_join_abs [OF path_comps_good [of ?mp]]
    by (simp add: GetFullPath_def FixAndCleanPath_comps)
  then show ?thesis using d actual by simp
qed

theorem GetStorageAndActualPath_round_trip_witness:
  "GetStorageAndActualPath example_mounts ''a/d/e/./f'' Map.empty =
     (Inr (example_driver 3 ''/a/d/e.balance'', ''/f''), [''/a/d/e'' \<mapsto> 1]) \<and>
   GetFullPath ''/a/d/e.balance'' ''/f'' = ''/a/d/e/f''"
proof -
  have run: "GetStorageAndActualPath example_mounts ''a/d/e/./f'' Map.empty =
     (Inr (example_driver 3 ''/a/d/e.balance'', ''/f''), [''/a/d/e'' \<mapsto> 1])"
  proof -
    have "getStoragesByPath example_mounts ''/a/d/e/f'' =
        [example_driver 2 ''/a/d/e'', example_driver 3 ''/a/d/e.balance'']"
      "FixAndCleanPath ''a/d/e/./f'' = ''/a/d/e/f''" "FixAndCleanPath ''/a/d/e/f'' = ''/a/d/e/f''"
      "GetActualMountPath ''/a/d/e'' = ''/a/d/e''" "GetActualMountPath ''/a/d/e.balance'' = ''/a/d/e''"
      "trim_prefix ''/a/d/e/f'' ''/a/d/e'' = ''/f''" "FixAndCleanPath ''/f'' = ''/f''"
      by code_simp+
    then show ?thesis by (simp add: GetStorageAndActualPath_def GetBalancedStorage_def example_driver_def)
  qed
  have "FixAndCleanPath ''a/d/e/./f'' = ''/a/d/e/f''" by code_simp
  with GetStorageAndActualPath_round_trip [OF mount_table_example run] run show ?thesis
    by (simp add: example_driver_def)
qed

text \<open>A mount point that consists of a balance suffix below a folder, \<open>/a/.balance\<close>, is not a clean
  mount table entry: the folder \<open>/a\<close> itself is then handed to the storage as \<open>/a\<close> instead of \<open>/\<close>.\<close>

lemma balance_only_mount:
  "fst (GetStorageAndActualPath [(''/a/.balance'', example_driver 1 ''/a/.balance'')] ''/a'' Map.empty) =
     Inr (example_driver 1 ''/a/.balance'', ''/a'') \<and>
   GetFullPath ''/a/.balance'' ''/a'' = ''/a/a''"
  by (simp add: GetStorageAndActualPath_def GetBalancedStorage_def) code_simp

section \<open>Virtual directories\<close>

text \<open>The name and the flag that one storage contributes below \<open>prefx\<close>.\<close>

definition virtual_entry :: "string \<Rightarrow> Driver \<Rightarrow> (string \<times> bool) option" where
  "virtual_entry prefx v =
     (let mp = GetActualMountPath (MountPath (GetStorage v)) in
        if \<not> has_prefix mp prefx \<or> trim_prefix mp prefx = [] then None
        else (case cut_at (CHR ''/'') (trim_prefix mp prefx) of (name, _, found) \<Rightarrow> Some (name, found)))"

definition virtual_mask :: "bool \<Rightarrow> 8 word" where
  "virtual_mask root = (if root then mask_Locked OR mask_Virtual else mask_ReadOnly OR mask_Virtual)"

lemma virtual_file_step_entry:
  "virtual_file_step prefx [] (files, seen) v =
     (case virtual_entry prefx v of
        None \<Rightarrow> (files, seen)
      | Some (name, found) \<Rightarrow>
          (case seen name of
             Some idx \<Rightarrow> if \<not> found then (files[idx := (files ! idx)\<lparr>ObjMask := virtual_mask True\<rparr>], seen)
                         else (files, seen)
           | None \<Rightarrow> (files @ [\<lparr>ObjName = name, ObjModified = Modified (GetStorage v), ObjIsFolder = True,
                         ObjMask = virtual_mask (\<not> found)\<rparr>], seen(name \<mapsto> length files))))"
  by (auto simp: virtual_file_step_def virtual_entry_def virtual_mask_def Let_def
      split: prod.splits option.splits)

text \<open>The state of the loop after the storages \<open>vs\<close>: \<open>seen\<close> indexes the distinct names of
  \<open>files\<close>, which are the names of the entries, and a file is unlocked for writing when one of the
  storages is mounted at it.\<close>

definition virtual_inv :: "string \<Rightarrow> Driver list \<Rightarrow> Object list \<times> (string \<rightharpoonup> nat) \<Rightarrow> bool" where
  "virtual_inv prefx vs st \<longleftrightarrow>
     (case st of (files, seen) \<Rightarrow>
        (\<forall>n i. seen n = Some i \<longleftrightarrow> i < length files \<and> ObjName (files ! i) = n) \<and>
        ObjName ` set files = {n. \<exists>v \<in> set vs. \<exists>f. virtual_entry prefx v = Some (n, f)} \<and>
        (\<forall>i < length files. ObjIsFolder (files ! i) \<and>
           ObjMask (files ! i) =
             virtual_mask (\<exists>v \<in> set vs. virtual_entry prefx v = Some (ObjName (files ! i), False))))"

lemma virtual_inv_seen:
  "virtual_inv prefx vs (files, seen) \<Longrightarrow>
     seen n = Some i \<longleftrightarrow> i < length files \<and> ObjName (files ! i) = n"
  by (simp add: virtual_inv_def)

lemma virtual_inv_update:
  assumes "virtual_inv prefx vs (files, seen)" "virtual_entry prefx v = Some (n, f)" "seen n = Some idx"
  shows "virtual_inv prefx (vs @ [v])
    (if \<not> f then (files[idx := (files ! idx)\<lparr>ObjMask := virtual_mask True\<rparr>], seen) else (files, seen))"
proof -
  let ?files = "if \<not> f then files[idx := (files ! idx)\<lparr>ObjMask := virtual_mask True\<rparr>] else files"
  have idx: "idx < length files" "ObjName (files ! idx) = n"
    using assms unfolding virtual_inv_def by auto
  have names: "map ObjName ?files = map ObjName files"
    using idx by (auto simp: map_update list_update_same_conv)
  then have same: "ObjName (?files ! i) = ObjName (files ! i)" if "i < length files" for i
    using that by (metis (no_types, lifting) length_map nth_map)
  have uniq: "i = idx" if "i < length files" "ObjName (files ! i) = n" for i
    using assms(3) that virtual_inv_seen [OF assms(1), of n i] by simp
  have "ObjIsFolder (?files ! i) \<and> ObjMask (?files ! i) = virtual_mask (\<exists>v' \<in> set (vs @ [v]).
      virtual_entry prefx v' = Some (ObjName (?files ! i), False))" if "i < length files" for i
  proof -
    have old: "ObjIsFolder (files ! i)"
      "ObjMask (files ! i) = virtual_mask (\<exists>v' \<in> set vs. virtual_entry prefx v' = Some (ObjName (files ! i), False))"
      using assms(1) that by (simp_all add: virtual_inv_def)
    show ?thesis
    proof (cases "i = idx")
      case True
      then show ?thesis using old idx assms(2) by (cases f) auto
    next
      case False
      then have "ObjName (files ! i) \<noteq> n" "?files ! i = files ! i" using uniq [OF that] by auto
      then show ?thesis using old assms(2) by simp
    qed
  qed
  moreover have "ObjName ` set ?files =
      {n. \<exists>v' \<in> set (vs @ [v]). \<exists>f. virtual_entry prefx v' = Some (n, f)}"
  proof -
    have "ObjName ` set ?files = ObjName ` set files" using names by (metis list.set_map)
    moreover have "n \<in> ObjName ` set files" using idx by force
    ultimately show ?thesis using assms(1,2) unfolding virtual_inv_def by auto
  qed
  moreover have "seen n' = Some i \<longleftrightarrow> i < length ?files \<and> ObjName (?files ! i) = n'" for n' i
    using assms(1) same unfolding virtual_inv_def by (cases "i < length files") auto
  ultimately show ?thesis unfolding virtual_inv_def by (simp split: if_splits)
qed

lemma virtual_inv_append:
  assumes "virtual_inv prefx vs (files, seen)" "virtual_entry prefx v = Some (n, f)" "seen n = None"
    and "ObjName file = n" "ObjIsFolder file" "ObjMask file = virtual_mask (\<not> f)"
  shows "virtual_inv prefx (vs @ [v]) (files @ [file], seen(n \<mapsto> length files))"
proof -
  have fresh: "n \<noteq> ObjName (files ! i)" if "i < length files" for i
    using assms(3) that virtual_inv_seen [OF assms(1), of n i] by auto
  then have "n \<notin> ObjName ` set files" by (metis imageE in_set_conv_nth)
  then have new: "virtual_entry prefx v' \<noteq> Some (n, g)" if "v' \<in> set vs" for v' g
    using assms(1) that unfolding virtual_inv_def by auto
  have "(seen(n \<mapsto> length files)) n' = Some i \<longleftrightarrow>
      i < length (files @ [file]) \<and> ObjName ((files @ [file]) ! i) = n'" for n' i
    using assms(4) fresh [of i] virtual_inv_seen [OF assms(1), of n' i]
    by (auto simp: nth_append less_Suc_eq)
  moreover have "ObjIsFolder ((files @ [file]) ! i) \<and> ObjMask ((files @ [file]) ! i) =
      virtual_mask (\<exists>v' \<in> set (vs @ [v]). virtual_entry prefx v' = Some (ObjName ((files @ [file]) ! i), False))"
    if "i < length (files @ [file])" for i
  proof (cases "i < length files")
    case True
    then show ?thesis using assms(1,2) fresh [OF True] unfolding virtual_inv_def
      by (auto simp: nth_append)
  next
    case False
    with that have "i = length files" by simp
    then show ?thesis using assms(2,4-6) new by auto
  qed
  moreover have "ObjName ` set (files @ [file]) =
      {n. \<exists>v' \<in> set (vs @ [v]). \<exists>f. virtual_entry prefx v' = Some (n, f)}"
    using assms(1,2,4) unfolding virtual_inv_def by auto
  ultimately show ?thesis unfolding virtual_inv_def by simp
qed

lemma virtual_inv_step:
  assumes "virtual_inv prefx vs st"
  shows "virtual_inv prefx (vs @ [v]) (virtual_file_step prefx [] st v)"
proof (cases st)
  case (Pair files seen)
  show ?thesis
  proof (cases "virtual_entry prefx v")
    case None
    with assms Pair show ?thesis by (auto simp: virtual_file_step_entry virtual_inv_def)
  next
    case (Some nf)
    then show ?thesis using assms Pair virtual_inv_update virtual_inv_append
      by (cases nf; cases "seen (fst nf)") (auto simp: virtual_file_step_entry)
  qed
qed

lemma virtual_inv_foldl:
  "virtual_inv prefx vs (foldl (virtual_file_step prefx []) ([], Map.empty) vs)"
proof (induction vs rule: rev_induct)
  case Nil
  then show ?case by (simp add: virtual_inv_def)
next
  case (snoc v vs)
  then show ?case by (simp add: virtual_inv_step)
qed

text \<open>In components: a storage contributes the first component of its mount path below the folder.\<close>

lemma virtual_entry_comps:
  assumes "mp = GetActualMountPath (MountPath (GetStorage v))" "mp = abs_path cs" "good_comps cs"
    and "good_comps ps" "prefx = (if ps = [] then ''/'' else abs_path ps @ ''/'')"
  shows "virtual_entry prefx v =
    (if strict_prefix ps cs
     then Some (cs ! length ps, Suc (length ps) < length cs) else None)"
proof -
  have guard: "has_prefix mp prefx \<and> trim_prefix mp prefx \<noteq> [] \<longleftrightarrow> strict_prefix ps cs"
  proof (cases "ps = []")
    case True
    obtain J where J: "J = join_with ''/'' cs" by simp
    then have "prefx = ''/''" "mp = CHR ''/'' # J"
      using assms(2,5) True by (simp_all add: abs_path_def)
    then have "has_prefix mp prefx \<and> trim_prefix mp prefx \<noteq> [] \<longleftrightarrow> J \<noteq> []"
      by (simp add: has_prefix_def trim_prefix_def)
    moreover have "J = [] \<longleftrightarrow> cs = []"
    proof -
      have "\<forall>p \<in> set cs. p \<noteq> []" using assms(3) by (auto simp: good_comps_def good_comp_def)
      then show ?thesis using join_with_eq_Nil [of "''/''" cs] J by (metis join_with.simps(1))
    qed
    ultimately show ?thesis using True by (auto simp: strict_prefix_def)
  next
    case False
    then have prefx: "prefx = abs_path ps @ ''/''" using assms(5) by simp
    have "mp \<noteq> abs_path ps @ ''/''"
    proof
      assume eq: "mp = abs_path ps @ ''/''"
      then have "suffix ''/'' (abs_path cs)" using assms(2) unfolding suffix_def by metis
      then have "mp = ''/''" using abs_path_suffix_slash [OF assms(3)] assms(2) by (simp add: abs_path_def)
      with eq have "length (abs_path ps @ ''/'') = length ''/''" by simp
      then show False by (simp add: abs_path_def)
    qed
    then show ?thesis
      using prefix_abs_path [OF assms(4,3) False] unfolding assms(2) prefx has_prefix_def trim_prefix_def
      by (auto elim: prefixE)
  qed
  have cut: "cut_at (CHR ''/'') (trim_prefix mp prefx) =
      (c, join_with ''/'' es, es \<noteq> [])" if "cs = ps @ c # es" for c es
  proof -
    have "c \<noteq> []" "CHR ''/'' \<notin> set c"
      using assms(3) that by (auto simp: good_comp_def)
    moreover have "trim_prefix mp prefx = join_with ''/'' (c # es)"
      using assms(2,5) that
      by (cases "ps = []") (auto simp: abs_path_append, auto simp: abs_path_def trim_prefix_def)
    moreover have "cut_at (CHR ''/'') c = (c, [], False)"
      using \<open>CHR ''/'' \<notin> set c\<close> by (induction c) auto
    ultimately show ?thesis by (cases es) (simp_all add: cut_at_found)
  qed
  show ?thesis
  proof (cases "strict_prefix ps cs")
    case True
    then obtain c es where "cs = ps @ c # es"
      by (metis append.right_neutral neq_Nil_conv prefix_def strict_prefix_def)
    with cut [OF this] guard True show ?thesis
      unfolding virtual_entry_def assms(1) [symmetric] Let_def by (simp add: nth_append)
  next
    case False
    with guard show ?thesis unfolding virtual_entry_def assms(1) [symmetric] Let_def by auto
  qed
qed

lemma virtual_entry_mount:
  assumes "mount_table m" "v \<in> set (map snd m)" "good_comps ps"
    "prefx = (if ps = [] then ''/'' else abs_path ps @ ''/'')"
  shows "virtual_entry prefx v = Some (n, f) \<longleftrightarrow>
    (\<exists>rest. path_comps (GetActualMountPath (MountPath (GetStorage v))) = ps @ n # rest \<and> f = (rest \<noteq> []))"
proof -
  let ?mp = "GetActualMountPath (MountPath (GetStorage v))"
  have "?mp = abs_path (path_comps ?mp)"
    using assms(1,2) by (auto simp: mount_table_def FixAndCleanPath_comps)
  from virtual_entry_comps [OF refl this path_comps_good assms(3,4)]
  show ?thesis by (auto simp: strict_prefix_def prefix_def nth_append neq_Nil_conv)
qed

lemma set_storages_in_order: "set (storages_in_order m) = set (map snd m)"
  by (simp add: storages_in_order_def)

lemma distinct_ObjName:
  assumes "virtual_inv prefx vs (files, seen)" shows "distinct (map ObjName files)"
  using virtual_inv_seen [OF assms]
  by (auto simp: distinct_conv_nth) (metis option.inject)

text \<open>C30 (virtual directories): listing the mount points below a clean path shows each name once,
  namely the components that follow the path in some mount point; a name that is itself a mount
  point is locked but writable, a name that only leads to mount points is read-only.\<close>

theorem virtual_files_of_mounts:
  assumes "mount_table m" "FixAndCleanPath path = path"
  shows "distinct (map ObjName (GetStorageVirtualFilesByPath m path)) \<and>
    ObjName ` set (GetStorageVirtualFilesByPath m path) =
      {n. \<exists>(k, d) \<in> set m. \<exists>rest. path_comps (GetActualMountPath k) = path_comps path @ n # rest} \<and>
    (\<forall>obj \<in> set (GetStorageVirtualFilesByPath m path). ObjIsFolder obj \<and>
      ObjMask obj =
        (if \<exists>(k, d) \<in> set m. path_comps (GetActualMountPath k) = path_comps path @ [ObjName obj]
         then mask_Locked OR mask_Virtual else mask_ReadOnly OR mask_Virtual))"
proof -
  let ?ps = "path_comps path" and ?vs = "storages_in_order m"
  let ?prefx = "if ?ps = [] then ''/'' else abs_path ?ps @ ''/''"
  obtain files seen where st: "foldl (virtual_file_step ?prefx []) ([], Map.empty) ?vs = (files, seen)"
    by fastforce
  then have inv: "virtual_inv ?prefx ?vs (files, seen)" by (metis virtual_inv_foldl)
  have path: "path = abs_path ?ps" using assms(2) by (simp add: FixAndCleanPath_comps)
  then have "(if \<not> has_suffix path ''/'' then path @ ''/'' else path) = ?prefx"
    using abs_path_suffix_slash [OF path_comps_good [of path]]
    by (metis abs_path_def has_suffix_def join_with.simps(1))
  then have files: "GetStorageVirtualFilesByPath m path = files"
    using st by (simp only: GetStorageVirtualFilesByPath_def getStorageVirtualFilesByPath_def Let_def fst_conv)
  have key: "k = MountPath (GetStorage d)" if "(k, d) \<in> set m" for k d
    using assms(1) that by (auto simp: mount_table_def)
  have ex: "(\<exists>v \<in> set ?vs. P (MountPath (GetStorage v))) \<longleftrightarrow> (\<exists>(k, d) \<in> set m. P k)" for P
    using key by (force simp: set_storages_in_order)
  have entry: "virtual_entry ?prefx v = Some (n, f) \<longleftrightarrow>
      (\<exists>rest. path_comps (GetActualMountPath (MountPath (GetStorage v))) = ?ps @ n # rest \<and> f = (rest \<noteq> []))"
    if "v \<in> set ?vs" for v n f
    using virtual_entry_mount [OF assms(1) _ path_comps_good refl] that
    by (simp add: set_storages_in_order)
  have names: "(\<exists>v \<in> set ?vs. \<exists>f. virtual_entry ?prefx v = Some (n, f)) \<longleftrightarrow>
      (\<exists>(k, d) \<in> set m. \<exists>rest. path_comps (GetActualMountPath k) = ?ps @ n # rest)" for n
    unfolding ex [of "\<lambda>k. \<exists>rest. path_comps (GetActualMountPath k) = ?ps @ n # rest", symmetric]
    by (simp add: entry cong: bex_cong)
  have roots: "(\<exists>v \<in> set ?vs. virtual_entry ?prefx v = Some (n, False)) \<longleftrightarrow>
      (\<exists>(k, d) \<in> set m. path_comps (GetActualMountPath k) = ?ps @ [n])" for n
    unfolding ex [of "\<lambda>k. path_comps (GetActualMountPath k) = ?ps @ [n]", symmetric]
    by (simp add: entry cong: bex_cong)
  show ?thesis unfolding files
  proof (intro conjI ballI)
    show "ObjName ` set files =
        {n. \<exists>(k, d) \<in> set m. \<exists>rest. path_comps (GetActualMountPath k) = ?ps @ n # rest}"
      using inv unfolding virtual_inv_def prod.case names by blast
    fix obj
    assume "obj \<in> set files"
    then have "ObjIsFolder obj \<and> ObjMask obj =
        virtual_mask (\<exists>v \<in> set ?vs. virtual_entry ?prefx v = Some (ObjName obj, False))"
      using inv unfolding virtual_inv_def prod.case in_set_conv_nth by blast
    then show "ObjIsFolder obj" and "ObjMask obj =
        (if \<exists>(k, d) \<in> set m. path_comps (GetActualMountPath k) = ?ps @ [ObjName obj]
         then mask_Locked OR mask_Virtual else mask_ReadOnly OR mask_Virtual)"
      unfolding roots virtual_mask_def by blast+
  qed (rule distinct_ObjName [OF inv])
qed

theorem virtual_files_of_mounts_witness:
  "ObjName ` set (GetStorageVirtualFilesByPath example_mounts ''/a'') = {''d''}"
proof -
  have "FixAndCleanPath ''/a'' = ''/a''" by code_simp
  from virtual_files_of_mounts [OF mount_table_example this]
  have "ObjName ` set (GetStorageVirtualFilesByPath example_mounts ''/a'') =
      {n. \<exists>(k, d) \<in> set example_mounts. \<exists>rest. path_comps (GetActualMountPath k) = path_comps ''/a'' @ n # rest}"
    by blast
  moreover have "map (path_comps \<circ> GetActualMountPath \<circ> fst) example_mounts =
      [[''a''], [''a'', ''d'', ''e''], [''a'', ''d'', ''e''], [''av'']]" "path_comps ''/a'' = [''a'']"
    by code_simp+
  ultimately show ?thesis by (auto simp: example_mounts_def)
qed

end
