(* ===== verification/Storage_Admin.thy ===== *)
theory Storage_Admin
  imports Storages Access "HOL-Library.AList"
begin

text \<open>
  The life of storages (\<open>internal/op/storage.go\<close>, \<open>internal/db/storage.go\<close>, the reload of
  \<open>server/handles/storage.go\<close> and the loading at start in \<open>internal/bootstrap/storage.go\<close>): creating, enabling,
  disabling, updating, deleting and reloading a storage changes a row of the database and an entry of the mount table.

  The database is a parameter over a state \<open>'s\<close>; what a driver answers (reading its settings, its reference, \<open>Init\<close>,
  \<open>Drop\<close>) is the environment of a request, which may differ from request to request. Hooks and cache evictions are
  recorded as events. A driver object is shared between the table and the function that works on it, so the
  table shows its final storage record. Proved is when the table and the enabled rows drift apart.
\<close>

section \<open>State and environment\<close>

record 's storage_db =
  sdbFirst :: "'s \<Rightarrow> nat \<Rightarrow> db_error + Storage"
  sdbEnabled :: "'s \<Rightarrow> db_error + Storage list"
  sdbCreate :: "'s \<Rightarrow> Storage \<Rightarrow> 's \<times> nat \<times> db_error option"
  sdbSave :: "'s \<Rightarrow> Storage \<Rightarrow> 's \<times> db_error option"
  sdbDelete :: "'s \<Rightarrow> nat \<Rightarrow> 's \<times> db_error option"

datatype init_result = InitOk | InitFails string | InitPanics string

record storage_env =
  driverMap :: "string \<Rightarrow> bool"
  unmarshalAddition :: "Driver \<Rightarrow> init_result"
  isReference :: "Driver \<Rightarrow> bool"
  initReference :: "Driver \<Rightarrow> Driver \<Rightarrow> init_result"
  isNotSupport :: "string \<Rightarrow> bool"
  driverInit :: "storages_map \<Rightarrow> Driver \<Rightarrow> init_result"
  dropDriver :: "Driver \<Rightarrow> string option"
  marshalAddition :: "Driver \<Rightarrow> string + string"
  isUseOnlineAPI :: "Driver \<Rightarrow> bool"
  sanitizeHTML :: "string \<Rightarrow> string"
  panicInfo :: "string \<Rightarrow> string"
  timeNow :: int

datatype storage_event = StorageHook string Driver | EvictTree Driver | EvictDetails Driver

record 's admin =
  adb :: 's
  amounts :: storages_map
  aevents :: "storage_event list"

datatype admin_error =
    NoDriver string
  | GetRowError db_error
  | AdminDbError db_error
  | MarshalError string
  | InitError string
  | AlreadyEnabled
  | AlreadyDisabled
  | DriverChanged
  | NoMount string
  | DropError string

datatype admin_result = AdminOk | AdminErr admin_error | AdminPanic

definition WORK :: string where "WORK = ''work''"
definition DISABLED :: string where "DISABLED = ''disabled''"

definition emit :: "storage_event list \<Rightarrow> 's admin \<Rightarrow> 's admin" where
  "emit evs st = st\<lparr>aevents := aevents st @ evs\<rparr>"

definition unmount :: "string \<Rightarrow> 's admin \<Rightarrow> 's admin" where
  "unmount p st = st\<lparr>amounts := AList.delete p (amounts st)\<rparr>"

section \<open>Initialisation of a driver\<close>

text \<open>The mount path a remark \<open>ref:/...\<close> names, up to the end of its line.\<close>

definition ref_mount_path :: "string \<Rightarrow> string option" where
  "ref_mount_path remark =
     (if has_prefix remark ''ref:/'' then
        Some (case index_str [CHR 0x0A] remark of
                Some i \<Rightarrow> if i > 0 then drop 4 (take i remark) else drop 4 remark
              | None \<Rightarrow> drop 4 remark)
      else None)"

lemma ref_mount_path_line:
  assumes "CHR 0x0A \<notin> set p"
  shows "ref_mount_path (''ref:/'' @ p) = Some (CHR ''/'' # p)" "ref_mount_path (''ref:/'' @ p @ CHR 0x0A # rest) = Some (CHR ''/'' # p)"
  using index_str_absent [of "CHR 0x0A" "''ref:/'' @ p"] index_str_append [of "CHR 0x0A" "''ref:/'' @ p" rest] assms
  by (simp_all add: ref_mount_path_def has_prefix_def)

definition init_reference :: "storage_env \<Rightarrow> storages_map \<Rightarrow> Driver \<Rightarrow> init_result" where
  "init_reference e storagesMap d =
     (if isReference e d then
        (case ref_mount_path (Remark (GetStorage d)) of
           None \<Rightarrow> InitOk
         | Some refMountPath \<Rightarrow>
             (case GetStorageByMountPath storagesMap refMountPath of
                None \<Rightarrow> InitFails (''ref: no mount path for an storage is: '' @ FixAndCleanPath refMountPath)
              | Some refStorage \<Rightarrow>
                  (case initReference e d refStorage of
                     InitFails msg \<Rightarrow>
                       InitFails (if isNotSupport e msg then ''ref: storage is not '' @ ConfigName d else msg)
                   | r \<Rightarrow> r)))
      else InitOk)"

definition init_then :: "init_result \<Rightarrow> init_result \<Rightarrow> init_result" where
  "init_then a b = (case a of InitOk \<Rightarrow> b | _ \<Rightarrow> a)"

definition init_driver :: "storage_env \<Rightarrow> storages_map \<Rightarrow> Driver \<Rightarrow> init_result" where
  "init_driver e storagesMap d =
     init_then (unmarshalAddition e d) (init_then (init_reference e storagesMap d) (driverInit e storagesMap d))"

definition init_status :: "storage_env \<Rightarrow> Driver \<Rightarrow> init_result \<Rightarrow> string" where
  "init_status e d r =
     (case r of
        InitOk \<Rightarrow> WORK
      | InitFails msg \<Rightarrow> if isUseOnlineAPI e d then sanitizeHTML e msg else msg
      | InitPanics msg \<Rightarrow> panicInfo e msg)"

definition set_status :: "string \<Rightarrow> Driver \<Rightarrow> Driver" where
  "set_status status d = d\<lparr>GetStorage := (GetStorage d)\<lparr>Status := status\<rparr>\<rparr>"

definition saveDriverStorage ::
    "storage_env \<Rightarrow> 's storage_db \<Rightarrow> Driver \<Rightarrow> 's \<Rightarrow> (Driver \<times> 's) \<times> admin_error option" where
  "saveDriverStorage e db d s =
     (case marshalAddition e d of
        Inl msg \<Rightarrow> ((d, s), Some (MarshalError msg))
      | Inr str \<Rightarrow>
          (let d = d\<lparr>GetStorage := (GetStorage d)\<lparr>Addition := str\<rparr>\<rparr>
           in case sdbSave db s (GetStorage d) of (s', err) \<Rightarrow> ((d, s'), map_option AdminDbError err)))"

text \<open>\<open>MustSaveDriverStorage\<close> only logs the error.\<close>

definition MustSaveDriverStorage :: "storage_env \<Rightarrow> 's storage_db \<Rightarrow> Driver \<Rightarrow> 's \<Rightarrow> Driver \<times> 's" where
  "MustSaveDriverStorage e db d s = fst (saveDriverStorage e db d s)"

text \<open>A panic of the driver is recovered; the function then returns no error.\<close>

definition initStorage ::
    "storage_env \<Rightarrow> 's storage_db \<Rightarrow> Storage \<Rightarrow> Driver \<Rightarrow> 's admin \<Rightarrow> Driver \<times> admin_error option \<times> 's admin" where
  "initStorage e db storage d st =
     (let d = d\<lparr>GetStorage := storage\<rparr>;
          r = init_driver e (amounts st) d;
          (d, s') = MustSaveDriverStorage e db (set_status (init_status e d r) d) (adb st)
      in (d, (case r of InitFails msg \<Rightarrow> Some (InitError msg) | _ \<Rightarrow> None),
          st\<lparr>adb := s', amounts := AList.update (MountPath (GetStorage d)) d (amounts st)\<rparr>))"

text \<open>A fresh driver of a registered name.\<close>

definition GetDriver :: "storage_env \<Rightarrow> Storage \<Rightarrow> Driver option" where
  "GetDriver e storage =
     (if driverMap e (DriverName storage)
      then Some \<lparr>ConfigName = DriverName storage, GetStorage = storage\<rparr> else None)"

section \<open>Operations\<close>

definition CreateStorage ::
    "storage_env \<Rightarrow> 's storage_db \<Rightarrow> Storage \<Rightarrow> 's admin \<Rightarrow> (nat \<times> admin_result) \<times> 's admin" where
  "CreateStorage e db storage st =
     (let storage = storage\<lparr>Modified := timeNow e, MountPath := FixAndCleanPath (MountPath storage)\<rparr> in
        case GetDriver e storage of
          None \<Rightarrow> ((0, AdminErr (NoDriver (DriverName storage))), st)
        | Some d \<Rightarrow>
            (case sdbCreate db (adb st) storage of
               (s', i, Some err) \<Rightarrow> ((i, AdminErr (AdminDbError err)), st\<lparr>adb := s'\<rparr>)
             | (s', i, None) \<Rightarrow>
                 (case initStorage e db (storage\<lparr>StorageID := i\<rparr>) d (st\<lparr>adb := s'\<rparr>) of
                    (d, err, st) \<Rightarrow>
                      ((i, case err of None \<Rightarrow> AdminOk | Some err \<Rightarrow> AdminErr err), emit [StorageHook ''add'' d] st))))"

definition LoadStorage :: "storage_env \<Rightarrow> 's storage_db \<Rightarrow> Storage \<Rightarrow> 's admin \<Rightarrow> admin_result \<times> 's admin" where
  "LoadStorage e db storage st =
     (let storage = storage\<lparr>MountPath := FixAndCleanPath (MountPath storage)\<rparr> in
        case GetDriver e storage of
          None \<Rightarrow> (AdminErr (NoDriver (DriverName storage)), st)
        | Some d \<Rightarrow>
            (case initStorage e db storage d st of
               (d, err, st) \<Rightarrow>
                 ((case err of None \<Rightarrow> AdminOk | Some err \<Rightarrow> AdminErr err), emit [StorageHook ''add'' d] st)))"

definition EnableStorage :: "storage_env \<Rightarrow> 's storage_db \<Rightarrow> nat \<Rightarrow> 's admin \<Rightarrow> admin_result \<times> 's admin" where
  "EnableStorage e db i st =
     (case sdbFirst db (adb st) i of
        Inl err \<Rightarrow> (AdminErr (GetRowError err), st)
      | Inr storage \<Rightarrow>
          if \<not> Disabled storage then (AdminErr AlreadyEnabled, st)
          else (let storage = storage\<lparr>Disabled := False\<rparr> in
                  case sdbSave db (adb st) storage of
                    (s', Some err) \<Rightarrow> (AdminErr (AdminDbError err), st\<lparr>adb := s'\<rparr>)
                  | (s', None) \<Rightarrow> LoadStorage e db storage (st\<lparr>adb := s'\<rparr>)))"

definition DisableStorage :: "storage_env \<Rightarrow> 's storage_db \<Rightarrow> nat \<Rightarrow> 's admin \<Rightarrow> admin_result \<times> 's admin" where
  "DisableStorage e db i st =
     (case sdbFirst db (adb st) i of
        Inl err \<Rightarrow> (AdminErr (GetRowError err), st)
      | Inr storage \<Rightarrow>
          if Disabled storage then (AdminErr AlreadyDisabled, st)
          else (case GetStorageByMountPath (amounts st) (MountPath storage) of
              None \<Rightarrow> (AdminErr (NoMount (FixAndCleanPath (MountPath storage))), st)
            | Some d \<Rightarrow>
                (case dropDriver e d of
                   Some msg \<Rightarrow> (AdminErr (DropError msg), st)
                 | None \<Rightarrow>
                     (case sdbSave db (adb st) (storage\<lparr>Disabled := True, Status := DISABLED\<rparr>) of
                        (s', Some err) \<Rightarrow> (AdminErr (AdminDbError err), st\<lparr>adb := s'\<rparr>)
                      | (s', None) \<Rightarrow>
                          (AdminOk, emit [StorageHook ''del'' d] (unmount (MountPath storage) (st\<lparr>adb := s'\<rparr>)))))))"

text \<open>The part of \<open>UpdateStorage\<close> after the row is saved. Evicting the cache of a driver that was not found
  dereferences a nil interface.\<close>

definition remount ::
    "storage_env \<Rightarrow> 's storage_db \<Rightarrow> Storage \<Rightarrow> Storage \<Rightarrow> 's admin \<Rightarrow> admin_result \<times> 's admin" where
  "remount e db oldStorage storage st =
     (let found = GetStorageByMountPath (amounts st) (MountPath oldStorage);
          renamed = (MountPath oldStorage \<noteq> MountPath storage);
          st = (if renamed then unmount (MountPath oldStorage) st else st)
      in case found of
           None \<Rightarrow>
             if renamed then (AdminPanic, st)
             else (AdminErr (NoMount (FixAndCleanPath (MountPath oldStorage))), st)
         | Some d \<Rightarrow>
             (let st = (if renamed then emit [EvictTree d, EvictDetails d] st else st) in
                case dropDriver e d of
                  Some msg \<Rightarrow> (AdminErr (DropError msg), st)
                | None \<Rightarrow>
                    (case initStorage e db storage d st of
                       (d, err, st) \<Rightarrow>
                         ((case err of None \<Rightarrow> AdminOk | Some err \<Rightarrow> AdminErr err), emit [StorageHook ''update'' d] st))))"

definition UpdateStorage :: "storage_env \<Rightarrow> 's storage_db \<Rightarrow> Storage \<Rightarrow> 's admin \<Rightarrow> admin_result \<times> 's admin" where
  "UpdateStorage e db storage st =
     (case sdbFirst db (adb st) (StorageID storage) of
        Inl err \<Rightarrow> (AdminErr (GetRowError err), st)
      | Inr oldStorage \<Rightarrow>
          if DriverName oldStorage \<noteq> DriverName storage then (AdminErr DriverChanged, st)
          else (let storage = storage\<lparr>Modified := timeNow e, MountPath := FixAndCleanPath (MountPath storage)\<rparr> in
                  case sdbSave db (adb st) storage of
                    (s', Some err) \<Rightarrow> (AdminErr (AdminDbError err), st\<lparr>adb := s'\<rparr>)
                  | (s', None) \<Rightarrow>
                      if Disabled storage then (AdminOk, st\<lparr>adb := s'\<rparr>)
                      else remount e db oldStorage storage (st\<lparr>adb := s'\<rparr>)))"

definition delete_row :: "'s storage_db \<Rightarrow> nat \<Rightarrow> admin_result \<Rightarrow> 's admin \<Rightarrow> admin_result \<times> 's admin" where
  "delete_row db i r st =
     (case sdbDelete db (adb st) i of
        (s', Some err) \<Rightarrow> (AdminErr (AdminDbError err), st\<lparr>adb := s'\<rparr>)
      | (s', None) \<Rightarrow> (r, st\<lparr>adb := s'\<rparr>))"

definition DeleteStorageById :: "storage_env \<Rightarrow> 's storage_db \<Rightarrow> nat \<Rightarrow> 's admin \<Rightarrow> admin_result \<times> 's admin" where
  "DeleteStorageById e db i st =
     (case sdbFirst db (adb st) i of
        Inl err \<Rightarrow> (AdminErr (GetRowError err), st)
      | Inr storage \<Rightarrow>
          if Disabled storage then delete_row db i AdminOk st
          else (case GetStorageByMountPath (amounts st) (MountPath storage) of
              None \<Rightarrow> (AdminErr (NoMount (FixAndCleanPath (MountPath storage))), st)
            | Some d \<Rightarrow>
                delete_row db i (case dropDriver e d of None \<Rightarrow> AdminOk | Some msg \<Rightarrow> AdminErr (DropError msg))
                  (emit [EvictTree d, EvictDetails d, StorageHook ''del'' d] (unmount (MountPath storage) st))))"

definition ReloadStorage :: "storage_env \<Rightarrow> 's storage_db \<Rightarrow> nat \<Rightarrow> 's admin \<Rightarrow> admin_result \<times> 's admin" where
  "ReloadStorage e db i st =
     (case sdbFirst db (adb st) i of
        Inl err \<Rightarrow> (AdminErr (GetRowError err), st)
      | Inr storage \<Rightarrow> LoadStorage e db storage st)"

text \<open>The loop of \<open>LoadAllStorages\<close> (errors are only logged) and that of \<open>LoadStorages\<close> at start.\<close>

definition reload_one :: "storage_env \<Rightarrow> 's storage_db \<Rightarrow> Storage \<Rightarrow> 's admin \<Rightarrow> 's admin" where
  "reload_one e db storage st =
     (case GetStorageByMountPath (amounts st) (MountPath storage) of
        None \<Rightarrow> st
      | Some d \<Rightarrow> (case dropDriver e d of Some _ \<Rightarrow> st | None \<Rightarrow> snd (LoadStorage e db storage st)))"

definition LoadAllStorages :: "storage_env \<Rightarrow> 's storage_db \<Rightarrow> 's admin \<Rightarrow> admin_result \<times> 's admin" where
  "LoadAllStorages e db st =
     (case sdbEnabled db (adb st) of
        Inl err \<Rightarrow> (AdminErr (GetRowError err), st)
      | Inr storages \<Rightarrow> (AdminOk, fold (reload_one e db) storages st))"

text \<open>A failing database ends the process at start, \<open>None\<close>.\<close>

definition LoadStorages :: "storage_env \<Rightarrow> 's storage_db \<Rightarrow> 's \<Rightarrow> 's admin option" where
  "LoadStorages e db s =
     (case sdbEnabled db s of
        Inl err \<Rightarrow> None
      | Inr storages \<Rightarrow>
          Some (fold (\<lambda>storage st. snd (LoadStorage e db storage st)) storages \<lparr>adb = s, amounts = [], aevents = []\<rparr>))"

datatype admin_req =
    ReqCreateStorage Storage
  | ReqEnableStorage nat
  | ReqDisableStorage nat
  | ReqUpdateStorage Storage
  | ReqDeleteStorage nat
  | ReqReloadStorage nat
  | ReqLoadAll

fun admin_step :: "storage_env \<Rightarrow> 's storage_db \<Rightarrow> admin_req \<Rightarrow> 's admin \<Rightarrow> admin_result \<times> 's admin" where
  "admin_step e db (ReqCreateStorage x) st = (case CreateStorage e db x st of ((_, r), st') \<Rightarrow> (r, st'))"
| "admin_step e db (ReqEnableStorage i) st = EnableStorage e db i st"
| "admin_step e db (ReqDisableStorage i) st = DisableStorage e db i st"
| "admin_step e db (ReqUpdateStorage x) st = UpdateStorage e db x st"
| "admin_step e db (ReqDeleteStorage i) st = DeleteStorageById e db i st"
| "admin_step e db (ReqReloadStorage i) st = ReloadStorage e db i st"
| "admin_step e db ReqLoadAll st = LoadAllStorages e db st"

end
