(* ===== verification/Storage_Mounts.thy ===== *)
theory Storage_Mounts
  imports Storage_Admin
begin

text \<open>
  The mount table against the database: what a database with a unique mount path promises, the table serves exactly
  the enabled rows, and for each request when this stops to hold.
\<close>

section \<open>Rows and mounts\<close>

type_synonym rows = "nat \<rightharpoonup> Storage"

text \<open>The table of storages is a function \<open>rows\<close> of the state of the database; an answer may be an error at any time, a
  failed write changes nothing, an insert takes a fresh identifier, and no two rows share a mount path.\<close>

definition storage_db_laws :: "'s storage_db \<Rightarrow> ('s \<Rightarrow> rows) \<Rightarrow> bool" where
  "storage_db_laws db rows \<longleftrightarrow>
     (\<forall>s i x. sdbFirst db s i = Inr x \<longrightarrow> i \<noteq> 0 \<longrightarrow> rows s i = Some x) \<and>
     (\<forall>s xs. sdbEnabled db s = Inr xs \<longrightarrow> set xs = {x. \<exists>i. rows s i = Some x \<and> \<not> Disabled x}) \<and>
     (\<forall>s x s' i. sdbCreate db s x = (s', i, None) \<longrightarrow> i \<noteq> 0 \<and> rows s i = None \<and>
        rows s' = (rows s)(i \<mapsto> x\<lparr>StorageID := i\<rparr>) \<and> (\<forall>j y. rows s j = Some y \<longrightarrow> MountPath y \<noteq> MountPath x)) \<and>
     (\<forall>s x s' i err. sdbCreate db s x = (s', i, Some err) \<longrightarrow> rows s' = rows s) \<and>
     (\<forall>s x s' err. sdbSave db s x = (s', err) \<longrightarrow> rows s (StorageID x) \<noteq> None \<longrightarrow>
        (if err = None
         then rows s' = (rows s)(StorageID x \<mapsto> x) \<and>
           (\<forall>j y. rows s j = Some y \<longrightarrow> j \<noteq> StorageID x \<longrightarrow> MountPath y \<noteq> MountPath x)
         else rows s' = rows s)) \<and>
     (\<forall>s i s' err. sdbDelete db s i = (s', err) \<longrightarrow>
        rows s' = (if err = None then (rows s)(i := None) else rows s))"

lemma storage_db_lawsD:
  assumes "storage_db_laws db rows"
  shows storage_first: "sdbFirst db s i = Inr x \<Longrightarrow> i \<noteq> 0 \<Longrightarrow> rows s i = Some x"
    and storage_enabled: "sdbEnabled db s = Inr xs \<Longrightarrow> x \<in> set xs \<longleftrightarrow> (\<exists>i. rows s i = Some x \<and> \<not> Disabled x)"
    and storage_create: "sdbCreate db s x = (s', i, None) \<Longrightarrow> i \<noteq> 0 \<and> rows s i = None \<and>
      rows s' = (rows s)(i \<mapsto> x\<lparr>StorageID := i\<rparr>) \<and> (\<forall>j y. rows s j = Some y \<longrightarrow> MountPath y \<noteq> MountPath x)"
    and storage_create_fails: "sdbCreate db s x = (s', i, Some err) \<Longrightarrow> rows s' = rows s"
    and storage_save: "sdbSave db s x = (s', None) \<Longrightarrow> rows s (StorageID x) = Some y \<Longrightarrow>
      rows s' = (rows s)(StorageID x \<mapsto> x) \<and>
      (\<forall>j y. rows s j = Some y \<longrightarrow> j \<noteq> StorageID x \<longrightarrow> MountPath y \<noteq> MountPath x)"
    and storage_save_fails: "sdbSave db s x = (s', Some err) \<Longrightarrow> rows s (StorageID x) = Some y \<Longrightarrow> rows s' = rows s"
    and storage_delete: "sdbDelete db s i = (s', None) \<Longrightarrow> rows s' = (rows s)(i := None)"
    and storage_delete_fails: "sdbDelete db s i = (s', Some err) \<Longrightarrow> rows s' = rows s"
  using assms unfolding storage_db_laws_def by (blast | fastforce)+

definition rows_ok :: "rows \<Rightarrow> bool" where
  "rows_ok R \<longleftrightarrow>
     (\<forall>i x. R i = Some x \<longrightarrow> i \<noteq> 0 \<and> StorageID x = i \<and> FixAndCleanPath (MountPath x) = MountPath x) \<and>
     (\<forall>i j x y. R i = Some x \<longrightarrow> R j = Some y \<longrightarrow> MountPath x = MountPath y \<longrightarrow> i = j)"

definition enabled_at :: "rows \<Rightarrow> nat \<Rightarrow> string \<Rightarrow> bool" where
  "enabled_at R i p \<longleftrightarrow> (\<exists>x. R i = Some x \<and> \<not> Disabled x \<and> MountPath x = p)"

definition mounted :: "storages_map \<Rightarrow> string \<rightharpoonup> nat" where
  "mounted m p = map_option (\<lambda>d. StorageID (GetStorage d)) (map_of m p)"

text \<open>The table serves the enabled storages: at each mount path the storage whose row is enabled there.\<close>

definition serves :: "rows \<Rightarrow> storages_map \<Rightarrow> bool" where
  "serves R m \<longleftrightarrow> (\<forall>p i. mounted m p = Some i \<longleftrightarrow> enabled_at R i p)"

lemma mounted_update [simp]:
  "mounted (AList.update p d m) = (mounted m)(p \<mapsto> StorageID (GetStorage d))"
  by (auto simp: mounted_def update_conv')

lemma mounted_delete [simp]: "mounted (AList.delete p m) = (mounted m)(p := None)"
  by (auto simp: mounted_def delete_conv')

lemma mounted_Nil [simp]: "mounted [] = Map.empty"
  by (auto simp: mounted_def)

lemma enabled_at_upd [simp]:
  "enabled_at (R(i \<mapsto> x)) j p \<longleftrightarrow> (if j = i then \<not> Disabled x \<and> MountPath x = p else enabled_at R j p)"
  "enabled_at (R(i := None)) j p \<longleftrightarrow> j \<noteq> i \<and> enabled_at R j p"
  by (auto simp: enabled_at_def)

lemma enabled_at_row: "R i = Some old \<Longrightarrow> enabled_at R i p \<longleftrightarrow> \<not> Disabled old \<and> MountPath old = p"
  by (simp add: enabled_at_def)

lemma rows_ok_row:
  assumes "rows_ok R" "R i = Some x"
  shows "i \<noteq> 0" "StorageID x = i" "FixAndCleanPath (MountPath x) = MountPath x"
  using assms by (auto simp: rows_ok_def)

lemma rows_ok_inj: "rows_ok R \<Longrightarrow> R i = Some x \<Longrightarrow> R j = Some y \<Longrightarrow> MountPath x = MountPath y \<Longrightarrow> i = j"
  unfolding rows_ok_def by blast

lemma rows_ok_unique: "rows_ok R \<Longrightarrow> R i = Some x \<Longrightarrow> enabled_at R j (MountPath x) \<Longrightarrow> j = i"
  by (auto simp: rows_ok_def enabled_at_def)

lemma rows_ok_upd:
  assumes "rows_ok R" "i \<noteq> 0" "StorageID x = i" "FixAndCleanPath (MountPath x) = MountPath x"
    "\<forall>j y. R j = Some y \<longrightarrow> j \<noteq> i \<longrightarrow> MountPath y \<noteq> MountPath x"
  shows "rows_ok (R(i \<mapsto> x))"
  using assms unfolding rows_ok_def by (auto split: if_splits) metis+

lemma rows_ok_delete: "rows_ok R \<Longrightarrow> rows_ok (R(i := None))"
  by (auto simp: rows_ok_def)

text \<open>Rows that agree on what the mount table depends on.\<close>

definition same_keys :: "rows \<Rightarrow> rows \<Rightarrow> bool" where
  "same_keys R R' \<longleftrightarrow>
     (\<forall>i. map_option (\<lambda>x. (StorageID x, Disabled x, MountPath x)) (R' i) =
          map_option (\<lambda>x. (StorageID x, Disabled x, MountPath x)) (R i))"

lemma same_keys_refl [simp]: "same_keys R R"
  by (simp add: same_keys_def)

lemma same_keysD:
  "same_keys R R' \<Longrightarrow> R' i = Some x' \<Longrightarrow>
    \<exists>x. R i = Some x \<and> StorageID x = StorageID x' \<and> Disabled x = Disabled x' \<and> MountPath x = MountPath x'"
  unfolding same_keys_def by (cases "R i") (auto dest: spec [of _ i])

lemma same_keys_sym: "same_keys R R' \<Longrightarrow> same_keys R' R"
  by (simp add: same_keys_def)

lemma same_keys_enabled: "same_keys R R' \<Longrightarrow> enabled_at R' = enabled_at R"
  using same_keysD [of R R'] same_keysD [of R' R] same_keys_sym [of R R']
  by (fastforce simp: enabled_at_def fun_eq_iff)

lemma same_keys_rows_ok:
  assumes "same_keys R R'" "rows_ok R"
  shows "rows_ok R'"
proof -
  note key = same_keysD [OF assms(1)]
  have "i \<noteq> 0 \<and> StorageID x = i \<and> FixAndCleanPath (MountPath x) = MountPath x" if "R' i = Some x" for i x
    using key [OF that] rows_ok_row [OF assms(2)] by metis
  moreover have "i = j" if "R' i = Some x" "R' j = Some y" "MountPath x = MountPath y" for i j x y
    using key [OF that(1)] key [OF that(2)] that(3) assms(2) unfolding rows_ok_def by metis
  ultimately show ?thesis unfolding rows_ok_def by blast
qed

lemma same_keys_upd:
  "R (StorageID x) = Some y \<Longrightarrow> StorageID y = StorageID x \<Longrightarrow> Disabled y = Disabled x \<Longrightarrow> MountPath y = MountPath x \<Longrightarrow>
    same_keys R (R(StorageID x \<mapsto> x))"
  by (simp add: same_keys_def)

section \<open>Effect of loading a driver\<close>

lemma saveDriverStorage_keys:
  assumes laws: "storage_db_laws db rows" and row: "rows s (StorageID (GetStorage d)) = Some y"
    and key: "StorageID y = StorageID (GetStorage d)" "Disabled y = Disabled (GetStorage d)" "MountPath y = MountPath (GetStorage d)"
    and save: "MustSaveDriverStorage e db d s = (d', s')"
  shows "same_keys (rows s) (rows s') \<and> StorageID (GetStorage d') = StorageID (GetStorage d) \<and>
    MountPath (GetStorage d') = MountPath (GetStorage d)"
proof (cases "marshalAddition e d")
  case (Inl msg)
  then show ?thesis using save by (simp add: MustSaveDriverStorage_def saveDriverStorage_def)
next
  case (Inr str)
  define x where "x = (GetStorage d)\<lparr>Addition := str\<rparr>"
  obtain err where saved: "sdbSave db s x = (s', err)" and d': "GetStorage d' = x"
    using save Inr by (auto simp: MustSaveDriverStorage_def saveDriverStorage_def x_def Let_def split: prod.splits)
  have row': "rows s (StorageID x) = Some y" using row by (simp add: x_def)
  have "same_keys (rows s) (rows s')"
  proof (cases err)
    case None
    then have "rows s' = (rows s)(StorageID x \<mapsto> x)" using storage_save [OF laws _ row'] saved by auto
    then show ?thesis using same_keys_upd [where R = "rows s", OF row'] key by (simp add: x_def)
  next
    case (Some a)
    then show ?thesis using storage_save_fails [OF laws _ row'] saved by auto
  qed
  then show ?thesis by (simp add: d' x_def)
qed

lemma initStorage_effect:
  assumes laws: "storage_db_laws db rows" and row: "rows (adb st) (StorageID x) = Some y"
    and key: "StorageID y = StorageID x" "Disabled y = Disabled x" "MountPath y = MountPath x"
    and init: "initStorage e db x d st = (d', err, st')"
  shows "same_keys (rows (adb st)) (rows (adb st'))"
    and "mounted (amounts st') = (mounted (amounts st))(MountPath x \<mapsto> StorageID x)"
    and "err = None \<or> (\<exists>msg. err = Some (InitError msg))"
proof -
  define d0 where "d0 = set_status (init_status e (d\<lparr>GetStorage := x\<rparr>) (init_driver e (amounts st) (d\<lparr>GetStorage := x\<rparr>)))
    (d\<lparr>GetStorage := x\<rparr>)"
  obtain s' where saved: "MustSaveDriverStorage e db d0 (adb st) = (d', s')"
    and st': "adb st' = s'" "amounts st' = AList.update (MountPath (GetStorage d')) d' (amounts st)"
    and err: "err = None \<or> (\<exists>msg. err = Some (InitError msg))"
    using init by (auto simp: initStorage_def d0_def Let_def split: prod.splits init_result.splits)
  have "same_keys (rows (adb st)) (rows s') \<and> StorageID (GetStorage d') = StorageID (GetStorage d0) \<and>
      MountPath (GetStorage d') = MountPath (GetStorage d0)"
    by (rule saveDriverStorage_keys [where y = y, OF laws _ _ _ _ saved]) (use row key in \<open>simp_all add: d0_def set_status_def\<close>)
  then show "same_keys (rows (adb st)) (rows (adb st'))"
    and "mounted (amounts st') = (mounted (amounts st))(MountPath x \<mapsto> StorageID x)"
    by (simp_all add: st' d0_def set_status_def)
  show "err = None \<or> (\<exists>msg. err = Some (InitError msg))" by (rule err)
qed

text \<open>\<open>LoadStorage\<close> of a row: the row's storage is mounted at its path, unless its driver is unknown.\<close>

lemma LoadStorage_effect:
  assumes laws: "storage_db_laws db rows" and ok: "rows_ok (rows (adb st))" and row: "rows (adb st) i = Some y"
    and x: "StorageID x = i" "Disabled x = Disabled y" "MountPath x = MountPath y"
    and load: "LoadStorage e db x st = (r, st')"
  shows "same_keys (rows (adb st)) (rows (adb st'))"
    and "(\<exists>n. r = AdminErr (NoDriver n)) \<and> \<not> driverMap e (DriverName x) \<and> st' = st \<or>
      (r = AdminOk \<or> (\<exists>msg. r = AdminErr (InitError msg))) \<and> driverMap e (DriverName x) \<and>
      mounted (amounts st') = (mounted (amounts st))(MountPath y \<mapsto> i)"
proof -
  have clean: "x\<lparr>MountPath := FixAndCleanPath (MountPath x)\<rparr> = x"
    using rows_ok_row [OF ok row] x by simp
  have load': "LoadStorage e db x st = (case GetDriver e x of
          None \<Rightarrow> (AdminErr (NoDriver (DriverName x)), st)
        | Some d \<Rightarrow> (case initStorage e db x d st of (d, err, st) \<Rightarrow>
                 ((case err of None \<Rightarrow> AdminOk | Some err \<Rightarrow> AdminErr err), emit [StorageHook ''add'' d] st)))"
    unfolding LoadStorage_def Let_def clean ..
  have *: "same_keys (rows (adb st)) (rows (adb st')) \<and>
     ((\<exists>n. r = AdminErr (NoDriver n)) \<and> \<not> driverMap e (DriverName x) \<and> st' = st \<or>
      (r = AdminOk \<or> (\<exists>msg. r = AdminErr (InitError msg))) \<and> driverMap e (DriverName x) \<and>
      mounted (amounts st') = (mounted (amounts st))(MountPath y \<mapsto> i))"
  proof (cases "GetDriver e x")
    case None
    then show ?thesis using load unfolding load' by (auto simp: GetDriver_def split: if_splits)
  next
    case (Some d)
    obtain d' err st1 where init: "initStorage e db x d st = (d', err, st1)"
      by (metis prod_cases3)
    have row': "rows (adb st) (StorageID x) = Some y" using row x by simp
    note eff = initStorage_effect [OF laws row' _ _ _ init]
    show ?thesis
      using load Some init eff rows_ok_row [OF ok row] x unfolding load'
      by (auto simp: emit_def GetDriver_def split: if_splits)
  qed
  then show "same_keys (rows (adb st)) (rows (adb st'))"
    and "(\<exists>n. r = AdminErr (NoDriver n)) \<and> \<not> driverMap e (DriverName x) \<and> st' = st \<or>
      (r = AdminOk \<or> (\<exists>msg. r = AdminErr (InitError msg))) \<and> driverMap e (DriverName x) \<and>
      mounted (amounts st') = (mounted (amounts st))(MountPath y \<mapsto> i)"
    by auto
qed

section \<open>Requests\<close>

text \<open>The answers after which the table and the rows differ. \<open>R\<close> are the rows before the request.\<close>

fun diverges :: "rows \<Rightarrow> admin_req \<Rightarrow> admin_result \<Rightarrow> bool" where
  "diverges R (ReqCreateStorage x) r \<longleftrightarrow> Disabled x \<and> (r = AdminOk \<or> (\<exists>msg. r = AdminErr (InitError msg)))"
| "diverges R (ReqEnableStorage i) r \<longleftrightarrow> (\<exists>n. r = AdminErr (NoDriver n))"
| "diverges R (ReqDisableStorage i) r \<longleftrightarrow> False"
| "diverges R (ReqUpdateStorage x) r \<longleftrightarrow>
     (\<exists>old. R (StorageID x) = Some old \<and>
       (if Disabled x then \<not> Disabled old \<and> r = AdminOk
        else r = AdminPanic \<or> (\<exists>p. r = AdminErr (NoMount p)) \<or>
          (\<exists>msg. r = AdminErr (DropError msg)) \<and> MountPath old \<noteq> FixAndCleanPath (MountPath x)))"
| "diverges R (ReqDeleteStorage i) r \<longleftrightarrow>
     (\<exists>x. R i = Some x \<and> \<not> Disabled x) \<and> (\<exists>err. r = AdminErr (AdminDbError err))"
| "diverges R (ReqReloadStorage i) r \<longleftrightarrow>
     (\<exists>x. R i = Some x \<and> Disabled x) \<and> (r = AdminOk \<or> (\<exists>msg. r = AdminErr (InitError msg)))"
| "diverges R ReqLoadAll r \<longleftrightarrow> False"

fun req_id :: "admin_req \<Rightarrow> nat option" where
  "req_id (ReqCreateStorage x) = None"
| "req_id (ReqEnableStorage i) = Some i"
| "req_id (ReqDisableStorage i) = Some i"
| "req_id (ReqUpdateStorage x) = Some (StorageID x)"
| "req_id (ReqDeleteStorage i) = Some i"
| "req_id (ReqReloadStorage i) = Some i"
| "req_id ReqLoadAll = None"

lemma serves_same: "same_keys R R' \<Longrightarrow> serves R' m \<longleftrightarrow> serves R m"
  by (simp add: serves_def same_keys_enabled)

lemma found_iff:
  assumes "rows_ok R" "serves R m" "R i = Some x"
  shows "GetStorageByMountPath m (MountPath x) = None \<longleftrightarrow> Disabled x"
proof -
  have "mounted m (MountPath x) = None \<longleftrightarrow> (\<forall>j. \<not> enabled_at R j (MountPath x))"
    using assms(2) unfolding serves_def by (metis not_None_eq option.distinct(1))
  also have "\<dots> \<longleftrightarrow> Disabled x"
    using enabled_at_row [of R i x] assms(3) rows_ok_unique [OF assms(1,3)] by metis
  finally show ?thesis
    using rows_ok_row [OF assms(1,3)] by (simp add: mounted_def GetStorageByMountPath_def)
qed

text \<open>How the table follows a change of the row \<open>i\<close>: its old entry goes, its new one comes.\<close>

lemma serves_change:
  assumes serves: "serves R m"
    and fresh: "\<forall>j y. R j = Some y \<longrightarrow> j \<noteq> i \<longrightarrow> MountPath y \<noteq> MountPath x"
    and mounts: "mounted m' = (\<lambda>p. if p = MountPath x then Some i else if enabled_at R i p then None else mounted m p)"
  shows "serves (R(i \<mapsto> x)) m' \<longleftrightarrow> \<not> Disabled x"
proof
  assume "serves (R(i \<mapsto> x)) m'"
  then have "mounted m' (MountPath x) = Some i \<longleftrightarrow> enabled_at (R(i \<mapsto> x)) i (MountPath x)"
    unfolding serves_def by blast
  then show "\<not> Disabled x" by (simp add: mounts)
next
  assume "\<not> Disabled x"
  moreover have "\<not> enabled_at R j (MountPath x)" if "j \<noteq> i" for j
    using fresh that by (auto simp: enabled_at_def)
  moreover have "\<not> enabled_at R j p" if "enabled_at R i p" "j \<noteq> i" for j p
    using serves that unfolding serves_def by (metis option.inject)
  ultimately show "serves (R(i \<mapsto> x)) m'"
    using serves by (auto simp: serves_def mounts)
qed

text \<open>A change of the row alone, without one of the table.\<close>

lemma serves_row_only:
  assumes "serves R m" "R i = Some old"
  shows "serves (R(i \<mapsto> x)) m \<longleftrightarrow>
    Disabled x = Disabled old \<and> (Disabled x \<or> MountPath x = MountPath old)"
proof -
  have "serves (R(i \<mapsto> x)) m \<longleftrightarrow> (\<forall>p. enabled_at R i p \<longleftrightarrow> \<not> Disabled x \<and> MountPath x = p)"
    using assms(1) unfolding serves_def by (simp add: all_conj_distrib)
  then show ?thesis unfolding enabled_at_row [where R = R, OF assms(2)] by metis
qed

lemma serves_unmount:
  assumes "serves R m" "rows_ok R" "R i = Some old" "\<not> Disabled old"
  shows "serves (R(i := None)) (AList.delete (MountPath old) m)"
    and "Disabled x \<Longrightarrow> serves (R(i \<mapsto> x)) (AList.delete (MountPath old) m)"
    and "\<not> serves R (AList.delete (MountPath old) m)"
proof -
  have own: "enabled_at R j (MountPath old) \<longleftrightarrow> j = i" for j
    using assms(3,4) rows_ok_unique [OF assms(2,3)] by (auto simp: enabled_at_def)
  have at_i: "enabled_at R i p \<longleftrightarrow> p = MountPath old" for p
    using assms(3,4) by (auto simp: enabled_at_def)
  show "serves (R(i := None)) (AList.delete (MountPath old) m)"
    and "Disabled x \<Longrightarrow> serves (R(i \<mapsto> x)) (AList.delete (MountPath old) m)"
    using assms(1) own at_i by (auto simp: serves_def)
  show "\<not> serves R (AList.delete (MountPath old) m)"
    using at_i by (auto simp: serves_def)
qed

text \<open>What is known when a request starts, and what each request answers.\<close>

definition mounts_ok :: "('s \<Rightarrow> rows) \<Rightarrow> 's admin \<Rightarrow> bool" where
  "mounts_ok rows st \<longleftrightarrow> rows_ok (rows (adb st)) \<and> serves (rows (adb st)) (amounts st)"

definition answers :: "('s \<Rightarrow> rows) \<Rightarrow> 's admin \<Rightarrow> admin_req \<Rightarrow> admin_result \<times> 's admin \<Rightarrow> bool" where
  "answers rows st req res \<longleftrightarrow>
     (case res of (r, st') \<Rightarrow> rows_ok (rows (adb st')) \<and>
        (serves (rows (adb st')) (amounts st') \<longleftrightarrow> \<not> diverges (rows (adb st)) req r))"

lemma answersI:
  "rows_ok (rows (adb st')) \<Longrightarrow> serves (rows (adb st')) (amounts st') \<longleftrightarrow> \<not> diverges (rows (adb st)) req r \<Longrightarrow>
    answers rows st req (r, st')"
  by (simp add: answers_def)

lemma answers_same:
  "mounts_ok rows st \<Longrightarrow> rows (adb st') = rows (adb st) \<Longrightarrow> amounts st' = amounts st \<Longrightarrow>
    \<not> diverges (rows (adb st)) req r \<Longrightarrow> answers rows st req (r, st')"
  by (simp add: answers_def mounts_ok_def)

lemma mounts_okD: "mounts_ok rows st \<Longrightarrow> rows_ok (rows (adb st))" "mounts_ok rows st \<Longrightarrow> serves (rows (adb st)) (amounts st)"
  by (simp_all add: mounts_ok_def)

lemma CreateStorage_answers:
  assumes laws: "storage_db_laws db rows" and ok: "mounts_ok rows st"
  shows "answers rows st (ReqCreateStorage x) (admin_step e db (ReqCreateStorage x) st)"
proof -
  define y where "y = x\<lparr>Modified := timeNow e, MountPath := FixAndCleanPath (MountPath x)\<rparr>"
  obtain s' i err where create: "sdbCreate db (adb st) y = (s', i, err)" by (metis prod_cases3)
  show ?thesis
  proof (cases "driverMap e (DriverName x) \<and> err = None")
    case False
    then show ?thesis using ok create storage_create_fails [OF laws, of "adb st" y s' i]
      by (auto simp: CreateStorage_def GetDriver_def y_def [symmetric] Let_def intro!: answers_same split: option.splits)
        (auto simp: y_def)
  next
    case True
    define z where "z = y\<lparr>StorageID := i\<rparr>"
    have new: "i \<noteq> 0" "rows (adb st) i = None" "rows s' = (rows (adb st))(i \<mapsto> z)"
        "\<forall>j w. rows (adb st) j = Some w \<longrightarrow> j \<noteq> i \<longrightarrow> MountPath w \<noteq> MountPath z"
      using storage_create [OF laws, of "adb st" y s' i] create True by (auto simp: z_def)
    obtain d d' err' st1 where d: "d = \<lparr>ConfigName = DriverName y, GetStorage = y\<rparr>"
      and init: "initStorage e db z d (st\<lparr>adb := s'\<rparr>) = (d', err', st1)"
      by (metis prod_cases3)
    have step: "admin_step e db (ReqCreateStorage x) st =
        (case err' of None \<Rightarrow> AdminOk | Some err \<Rightarrow> AdminErr err, emit [StorageHook ''add'' d'] st1)"
      using True create init
      by (simp add: CreateStorage_def GetDriver_def y_def [symmetric] z_def [symmetric] d Let_def) (simp add: y_def)
    have row: "rows (adb (st\<lparr>adb := s'\<rparr>)) (StorageID z) = Some z" using new by (simp add: z_def)
    note eff = initStorage_effect [OF laws row refl refl refl init]
    have keys: "same_keys ((rows (adb st))(i \<mapsto> z)) (rows (adb st1))" using eff(1) unfolding new(3) [symmetric] by simp
    have "serves ((rows (adb st))(i \<mapsto> z)) (amounts st1) \<longleftrightarrow> \<not> Disabled z"
      by (rule serves_change [OF mounts_okD(2) [OF ok] new(4)])
        (use eff(2) new(2) in \<open>auto simp: z_def enabled_at_def\<close>)
    moreover have "rows_ok ((rows (adb st))(i \<mapsto> z))"
      by (rule rows_ok_upd [OF mounts_okD(1) [OF ok] new(1) _ _ new(4)]) (simp_all add: z_def y_def)
    moreover have "Disabled z = Disabled x" by (simp add: z_def y_def)
    ultimately show ?thesis
      unfolding step using eff(3) keys
      by (auto simp: emit_def serves_same same_keys_rows_ok intro!: answersI split: option.splits)
  qed
qed

lemma rows_ok_others: "rows_ok R \<Longrightarrow> R i = Some x \<Longrightarrow> \<forall>j y. R j = Some y \<longrightarrow> j \<noteq> i \<longrightarrow> MountPath y \<noteq> MountPath x"
  by (auto simp: rows_ok_def)

lemma LoadStorage_row:
  assumes laws: "storage_db_laws db rows" and ok: "mounts_ok rows st" and row: "rows (adb st) i = Some y"
    and x: "StorageID x = i" "Disabled x = Disabled y" "MountPath x = MountPath y"
    and load: "LoadStorage e db x st = (r, st')"
  shows "same_keys (rows (adb st)) (rows (adb st'))" "rows_ok (rows (adb st'))"
    "serves (rows (adb st')) (amounts st') \<longleftrightarrow> \<not> (Disabled y \<and> (r = AdminOk \<or> (\<exists>msg. r = AdminErr (InitError msg))))"
proof -
  let ?R = "rows (adb st)"
  note eff = LoadStorage_effect [OF laws mounts_okD(1) [OF ok] row x load]
  show keys: "same_keys ?R (rows (adb st'))" by (rule eff(1))
  show "rows_ok (rows (adb st'))" by (rule same_keys_rows_ok [OF keys mounts_okD(1) [OF ok]])
  consider (unknown) "\<exists>n. r = AdminErr (NoDriver n)" "st' = st"
    | (loaded) "mounted (amounts st') = (mounted (amounts st))(MountPath y \<mapsto> i)"
        "r = AdminOk \<or> (\<exists>msg. r = AdminErr (InitError msg))"
    using eff(2) by blast
  then show "serves (rows (adb st')) (amounts st') \<longleftrightarrow>
    \<not> (Disabled y \<and> (r = AdminOk \<or> (\<exists>msg. r = AdminErr (InitError msg))))"
  proof cases
    case unknown
    then show ?thesis using mounts_okD(2) [OF ok] by auto
  next
    case loaded
    have "serves (?R(i \<mapsto> y)) (amounts st') \<longleftrightarrow> \<not> Disabled y"
      by (rule serves_change [OF mounts_okD(2) [OF ok] rows_ok_others [OF mounts_okD(1) [OF ok] row]])
        (use enabled_at_row [where R = ?R, OF row] in \<open>auto simp: loaded(1)\<close>)
    moreover have "?R(i \<mapsto> y) = ?R" using row by (simp add: fun_upd_idem)
    ultimately show ?thesis using loaded(2) serves_same [OF keys] by auto
  qed
qed

lemma ReloadStorage_answers:
  assumes laws: "storage_db_laws db rows" and ok: "mounts_ok rows st" and "i \<noteq> 0"
  shows "answers rows st (ReqReloadStorage i) (admin_step e db (ReqReloadStorage i) st)"
proof (cases "sdbFirst db (adb st) i")
  case (Inl err)
  then show ?thesis by (auto simp: ReloadStorage_def intro!: answers_same [OF ok])
next
  case (Inr x)
  have row: "rows (adb st) i = Some x" by (rule storage_first [OF laws Inr assms(3)])
  obtain r st' where load: "LoadStorage e db x st = (r, st')" by fastforce
  show ?thesis
    using LoadStorage_row [OF laws ok row rows_ok_row(2) [OF mounts_okD(1) [OF ok] row] refl refl load] row
    by (simp add: ReloadStorage_def Inr load answers_def)
qed

lemma EnableStorage_answers:
  assumes laws: "storage_db_laws db rows" and ok: "mounts_ok rows st" and "i \<noteq> 0"
  shows "answers rows st (ReqEnableStorage i) (admin_step e db (ReqEnableStorage i) st)"
proof (cases "sdbFirst db (adb st) i")
  case (Inl err)
  then show ?thesis by (auto simp: EnableStorage_def intro!: answers_same [OF ok])
next
  case (Inr y)
  let ?R = "rows (adb st)"
  have row: "?R i = Some y" by (rule storage_first [OF laws Inr assms(3)])
  note y = rows_ok_row [OF mounts_okD(1) [OF ok] row]
  define x where "x = y\<lparr>Disabled := False\<rparr>"
  have row_x: "?R (StorageID x) = Some y" using row y by (simp add: x_def)
  obtain s' err where save: "sdbSave db (adb st) x = (s', err)" by fastforce
  show ?thesis
  proof (cases "Disabled y \<and> err = None")
    case False
    then show ?thesis
      using Inr save storage_save_fails [OF laws _ row_x]
      by (auto simp: EnableStorage_def x_def Let_def intro!: answers_same [OF ok])
  next
    case True
    have saved: "rows s' = ?R(i \<mapsto> x)" "\<forall>j z. ?R j = Some z \<longrightarrow> j \<noteq> i \<longrightarrow> MountPath z \<noteq> MountPath x"
      using storage_save [OF laws _ row_x] save True y by (auto simp: x_def)
    obtain r st' where load: "LoadStorage e db x (st\<lparr>adb := s'\<rparr>) = (r, st')" by fastforce
    have step: "admin_step e db (ReqEnableStorage i) st = (r, st')"
      using Inr True save load by (simp add: EnableStorage_def x_def Let_def)
    have ok': "rows_ok (rows (adb (st\<lparr>adb := s'\<rparr>)))"
      using rows_ok_upd [OF mounts_okD(1) [OF ok] y(1) _ _ saved(2)] y by (simp add: saved(1) x_def)
    have row': "rows (adb (st\<lparr>adb := s'\<rparr>)) i = Some x" by (simp add: saved(1))
    note eff = LoadStorage_effect [OF laws ok' row' _ refl refl load]
    have x: "StorageID x = i" "\<not> Disabled x" using y by (simp_all add: x_def)
    have keys: "same_keys (?R(i \<mapsto> x)) (rows (adb st'))" using eff(1) x unfolding saved(1) [symmetric] by simp
    have none: "\<not> enabled_at ?R i p" for p using enabled_at_row [where R = ?R, OF row] True by simp
    have "serves (rows (adb st')) (amounts st') \<longleftrightarrow> \<not> diverges ?R (ReqEnableStorage i) r"
    proof -
      consider (unknown) "\<exists>n. r = AdminErr (NoDriver n)" "st' = st\<lparr>adb := s'\<rparr>"
        | (loaded) "mounted (amounts st') = (mounted (amounts (st\<lparr>adb := s'\<rparr>)))(MountPath x \<mapsto> i)"
            "r = AdminOk \<or> (\<exists>msg. r = AdminErr (InitError msg))"
        using eff(2) [OF x(1)] by blast
      then show ?thesis
      proof cases
        case unknown
        then show ?thesis
          using serves_row_only [where R = ?R, OF mounts_okD(2) [OF ok] row, of x] x True by (simp add: saved(1))
      next
        case loaded
        then have "serves (?R(i \<mapsto> x)) (amounts st') \<longleftrightarrow> \<not> Disabled x"
          using none by (intro serves_change [OF mounts_okD(2) [OF ok] saved(2)]) auto
        then show ?thesis using loaded(2) x serves_same [OF keys] by auto
      qed
    qed
    moreover have "rows_ok (rows (adb st'))"
      using same_keys_rows_ok [OF keys] ok' by (simp add: saved(1))
    ultimately show ?thesis unfolding step by (rule answersI [rotated])
  qed
qed

lemma DisableStorage_answers:
  assumes laws: "storage_db_laws db rows" and ok: "mounts_ok rows st" and "i \<noteq> 0"
  shows "answers rows st (ReqDisableStorage i) (admin_step e db (ReqDisableStorage i) st)"
proof (cases "sdbFirst db (adb st) i")
  case (Inl err)
  then show ?thesis by (auto simp: DisableStorage_def intro!: answers_same [OF ok])
next
  case (Inr y)
  let ?R = "rows (adb st)"
  have row: "?R i = Some y" by (rule storage_first [OF laws Inr assms(3)])
  note y = rows_ok_row [OF mounts_okD(1) [OF ok] row]
  define x where "x = y\<lparr>Disabled := True, Status := DISABLED\<rparr>"
  have row_x: "?R (StorageID x) = Some y" using row y by (simp add: x_def)
  obtain s' err where save: "sdbSave db (adb st) x = (s', err)" by fastforce
  show ?thesis
  proof (cases "err = None")
    case False
    then have "rows s' = ?R" using save storage_save_fails [OF laws _ row_x] by auto
    then show ?thesis using Inr save False
      by (auto simp: DisableStorage_def x_def intro!: answers_same [OF ok] split: option.split)
  next
    case True
    have saved: "rows s' = ?R(i \<mapsto> x)" "\<forall>j z. ?R j = Some z \<longrightarrow> j \<noteq> i \<longrightarrow> MountPath z \<noteq> MountPath x"
      using storage_save [OF laws _ row_x] save True y by (auto simp: x_def)
    have "rows_ok (?R(i \<mapsto> x))"
      using rows_ok_upd [OF mounts_okD(1) [OF ok] y(1) _ _ saved(2)] y by (simp add: x_def)
    moreover have "\<not> Disabled y \<Longrightarrow> serves (?R(i \<mapsto> x)) (AList.delete (MountPath y) (amounts st))"
      using serves_unmount(2) [OF mounts_okD(2,1) [OF ok] row] by (simp add: x_def)
    ultimately have "answers rows st (ReqDisableStorage i)
        (AdminOk, emit [StorageHook ''del'' d] (unmount (MountPath y) (st\<lparr>adb := s'\<rparr>)))" if "\<not> Disabled y" for d
      using that by (intro answersI) (simp_all add: emit_def unmount_def saved(1) del: fun_upd_apply)
    then show ?thesis using Inr save True
      by (auto simp: DisableStorage_def x_def intro!: answers_same [OF ok] split: option.split)
  qed
qed

lemma DeleteStorage_answers:
  assumes laws: "storage_db_laws db rows" and ok: "mounts_ok rows st" and "i \<noteq> 0"
  shows "answers rows st (ReqDeleteStorage i) (admin_step e db (ReqDeleteStorage i) st)"
proof (cases "sdbFirst db (adb st) i")
  case (Inl err)
  then show ?thesis by (auto simp: DeleteStorageById_def intro!: answers_same [OF ok])
next
  case (Inr y)
  let ?R = "rows (adb st)"
  have row: "?R i = Some y" by (rule storage_first [OF laws Inr assms(3)])
  obtain s' err where del: "sdbDelete db (adb st) i = (s', err)" by fastforce
  have rows': "rows s' = (if err = None then ?R(i := None) else ?R)"
    using storage_delete [OF laws] storage_delete_fails [OF laws] del by (cases err) auto
  have rows_ok': "rows_ok (rows s')"
    using rows_ok_delete mounts_okD(1) [OF ok] by (simp add: rows')
  show ?thesis
  proof (cases "Disabled y")
    case True
    have "serves (rows s') (amounts st)"
      using mounts_okD(2) [OF ok] enabled_at_row [where R = ?R, OF row] True
      by (auto simp: rows' serves_def)
    then show ?thesis using Inr True rows_ok' row del
      by (auto simp: DeleteStorageById_def delete_row_def intro!: answersI split: option.split)
  next
    case False
    then obtain d where found: "GetStorageByMountPath (amounts st) (MountPath y) = Some d"
      using found_iff [OF mounts_okD [OF ok] row] by blast
    have "serves (rows s') (AList.delete (MountPath y) (amounts st)) \<longleftrightarrow> err = None"
      using serves_unmount [OF mounts_okD(2,1) [OF ok] row False] by (simp add: rows')
    then show ?thesis using Inr False rows_ok' row del found
      by (auto simp: DeleteStorageById_def delete_row_def emit_def unmount_def intro!: answersI split: option.split)
  qed
qed

text \<open>\<open>UpdateStorage\<close> of an enabled storage that stays enabled: the driver is found and mounted at the new path.\<close>

lemma remount_effect:
  assumes laws: "storage_db_laws db rows" and ok: "mounts_ok rows st" and row: "rows (adb st) i = Some old"
    and rows': "rows s' = (rows (adb st))(i \<mapsto> x)" and x: "StorageID x = i" "\<not> Disabled x" "\<not> Disabled old"
    and fresh: "\<forall>j y. rows (adb st) j = Some y \<longrightarrow> j \<noteq> i \<longrightarrow> MountPath y \<noteq> MountPath x"
    and re: "remount e db old x (st\<lparr>adb := s'\<rparr>) = (r, st')"
  shows "same_keys (rows s') (rows (adb st')) \<and>
    ((r = AdminOk \<or> (\<exists>msg. r = AdminErr (InitError msg))) \<and> serves (rows s') (amounts st') \<or>
      (\<exists>msg. r = AdminErr (DropError msg)) \<and> (serves (rows s') (amounts st') \<longleftrightarrow> MountPath old = MountPath x))"
proof -
  let ?R = "rows (adb st)"
  let ?m = "mounted (amounts st)"
  obtain d where found: "GetStorageByMountPath (amounts st) (MountPath old) = Some d"
    using found_iff [OF mounts_okD [OF ok] row] x by blast
  define st1 where "st1 = (if MountPath old \<noteq> MountPath x
    then emit [EvictTree d, EvictDetails d] (unmount (MountPath old) (st\<lparr>adb := s'\<rparr>)) else st\<lparr>adb := s'\<rparr>)"
  have st1: "adb st1 = s'" "mounted (amounts st1) = (if MountPath old = MountPath x then ?m else ?m(MountPath old := None))"
    by (simp_all add: st1_def emit_def unmount_def)
  have at_i: "enabled_at ?R i p \<longleftrightarrow> MountPath old = p" for p
    using enabled_at_row [where R = ?R, OF row] x by simp
  show ?thesis
  proof (cases "dropDriver e d")
    case (Some msg)
    then have r: "r = AdminErr (DropError msg)" "st' = st1"
      using re found by (auto simp: remount_def st1_def Let_def Some split: if_splits)
    have "serves (rows s') (amounts st1) \<longleftrightarrow> MountPath old = MountPath x"
    proof (cases "MountPath old = MountPath x")
      case True
      then have "amounts st1 = amounts st" by (simp add: st1_def)
      then show ?thesis
        using serves_row_only [where R = ?R, OF mounts_okD(2) [OF ok] row, of x] x True by (simp add: rows')
    next
      case False
      have "mounted (amounts st1) (MountPath x) \<noteq> Some i"
        using mounts_okD(2) [OF ok] at_i False by (simp add: st1 serves_def)
      then show ?thesis using False x by (auto simp: rows' serves_def)
    qed
    then show ?thesis by (simp add: r st1)
  next
    case None
    obtain d' err st2 where init: "initStorage e db x d st1 = (d', err, st2)" by (metis prod_cases3)
    have r: "r = (case err of None \<Rightarrow> AdminOk | Some err \<Rightarrow> AdminErr err)" "st' = emit [StorageHook ''update'' d'] st2"
      using re found init unfolding st1_def by (simp_all add: remount_def Let_def None split: if_splits)
    have row1: "rows (adb st1) (StorageID x) = Some x" using x by (simp add: st1 rows')
    note eff = initStorage_effect [OF laws row1 refl refl refl init]
    have "mounted (amounts st') = (\<lambda>p. if p = MountPath x then Some i else if enabled_at ?R i p then None else ?m p)"
      by (rule ext) (auto simp: eff(2) r emit_def st1 at_i x(1))
    then have "serves (rows s') (amounts st') \<longleftrightarrow> \<not> Disabled x"
      unfolding rows' by (rule serves_change [OF mounts_okD(2) [OF ok] fresh])
    then show ?thesis
      using eff(1,3) x by (auto simp: r emit_def st1 split: option.splits)
  qed
qed

lemma UpdateStorage_answers:
  assumes laws: "storage_db_laws db rows" and ok: "mounts_ok rows st" and "StorageID x \<noteq> 0"
  shows "answers rows st (ReqUpdateStorage x) (admin_step e db (ReqUpdateStorage x) st)"
proof (cases "sdbFirst db (adb st) (StorageID x)")
  case (Inl err)
  then show ?thesis by (auto simp: UpdateStorage_def intro!: answers_same [OF ok] split: if_splits)
next
  case (Inr old)
  let ?R = "rows (adb st)"
  define y where "y = x\<lparr>Modified := timeNow e, MountPath := FixAndCleanPath (MountPath x)\<rparr>"
  have row: "?R (StorageID x) = Some old" by (rule storage_first [OF laws Inr assms(3)])
  then have row_y: "?R (StorageID y) = Some old" by (simp add: y_def)
  obtain s' err where save: "sdbSave db (adb st) y = (s', err)" by fastforce
  show ?thesis
  proof (cases "DriverName old = DriverName x \<and> err = None")
    case False
    then show ?thesis
      using Inr save storage_save_fails [OF laws _ row_y]
      by (auto simp: UpdateStorage_def y_def [symmetric] Let_def intro!: answers_same [OF ok] split: if_splits)
  next
    case True
    have y: "StorageID y = StorageID x" "Disabled y = Disabled x" "MountPath y = FixAndCleanPath (MountPath x)"
      by (simp_all add: y_def)
    have saved: "rows s' = ?R(StorageID x \<mapsto> y)"
        "\<forall>j z. ?R j = Some z \<longrightarrow> j \<noteq> StorageID x \<longrightarrow> MountPath z \<noteq> MountPath y"
      using storage_save [OF laws _ row_y] save True y by auto
    have rows_ok': "rows_ok (rows s')"
      unfolding saved(1) by (rule rows_ok_upd [OF mounts_okD(1) [OF ok] assms(3) _ _ saved(2)]) (simp_all add: y)
    have only: "serves (rows s') (amounts st) \<longleftrightarrow>
        Disabled x = Disabled old \<and> (Disabled x \<or> MountPath y = MountPath old)"
      using serves_row_only [where R = ?R, OF mounts_okD(2) [OF ok] row] by (simp add: saved(1) y)
    have step: "admin_step e db (ReqUpdateStorage x) st =
        (if Disabled x then (AdminOk, st\<lparr>adb := s'\<rparr>) else remount e db old y (st\<lparr>adb := s'\<rparr>))"
      using Inr save True by (simp add: UpdateStorage_def y_def [symmetric] Let_def y)
    obtain r st' where re: "remount e db old y (st\<lparr>adb := s'\<rparr>) = (r, st')" by fastforce
    consider (off) "Disabled x" | (stay) "\<not> Disabled x" "\<not> Disabled old" | (on) "\<not> Disabled x" "Disabled old"
      by blast
    then show ?thesis
    proof cases
      case off
      then show ?thesis unfolding step using rows_ok' only row by (auto intro!: answersI)
    next
      case stay
      note eff = remount_effect [OF laws ok row saved(1) y(1) _ stay(2) saved(2) re]
      show ?thesis
        unfolding step using stay eff y row serves_same rows_ok' same_keys_rows_ok
        by (auto simp: re intro!: answersI)
    next
      case on
      have "GetStorageByMountPath (amounts st) (MountPath old) = None"
        using found_iff [OF mounts_okD [OF ok] row] on by simp
      moreover have "serves (rows s') (AList.delete (MountPath old) (amounts st)) \<longleftrightarrow> serves (rows s') (amounts st)"
        using calculation rows_ok_row [OF mounts_okD(1) [OF ok] row]
        by (simp add: serves_def mounted_def GetStorageByMountPath_def fun_upd_idem)
      ultimately show ?thesis
        unfolding step using on only row rows_ok'
        by (auto simp: remount_def unmount_def Let_def intro!: answersI)
    qed
  qed
qed

text \<open>Loading all rows again, and loading them at start.\<close>

lemma same_keys_trans: "same_keys R R' \<Longrightarrow> same_keys R' R'' \<Longrightarrow> same_keys R R''"
  by (simp add: same_keys_def)

lemma reload_one_ok:
  assumes laws: "storage_db_laws db rows" and ok: "mounts_ok rows st" and keys: "same_keys R (rows (adb st))"
    and row: "R (StorageID x) = Some x" "\<not> Disabled x"
  shows "mounts_ok rows (reload_one e db x st) \<and> same_keys R (rows (adb (reload_one e db x st)))"
proof -
  obtain y where y: "rows (adb st) (StorageID x) = Some y" "Disabled x = Disabled y" "MountPath x = MountPath y"
    using same_keysD [OF same_keys_sym [OF keys] row(1)] by metis
  obtain r st' where load: "LoadStorage e db x st = (r, st')" by fastforce
  have "mounts_ok rows st'" "same_keys R (rows (adb st'))"
    using LoadStorage_row [OF laws ok y(1) refl y(2,3) load] same_keys_trans [OF keys] row(2) y(2)
    by (auto simp: mounts_ok_def)
  then show ?thesis using ok keys by (simp add: reload_one_def load split: option.split)
qed

lemma LoadAllStorages_answers:
  assumes laws: "storage_db_laws db rows" and ok: "mounts_ok rows st"
  shows "answers rows st ReqLoadAll (admin_step e db ReqLoadAll st)"
proof (cases "sdbEnabled db (adb st)")
  case (Inl err)
  then show ?thesis by (auto simp: LoadAllStorages_def intro!: answers_same [OF ok])
next
  case (Inr xs)
  let ?R = "rows (adb st)"
  have rows: "?R (StorageID x) = Some x \<and> \<not> Disabled x" if "x \<in> set xs" for x
    using that rows_ok_row(2) [OF mounts_okD(1) [OF ok]] by (auto simp: storage_enabled [OF laws Inr])
  have "mounts_ok rows (fold (reload_one e db) xs st) \<and> same_keys ?R (rows (adb (fold (reload_one e db) xs st)))"
    by (rule fold_invariant [where Q = "\<lambda>x. ?R (StorageID x) = Some x \<and> \<not> Disabled x"])
      (use rows ok reload_one_ok [OF laws] in auto)
  then show ?thesis by (simp add: LoadAllStorages_def Inr answers_def mounts_ok_def)
qed

lemma serves_unique: "serves R m \<Longrightarrow> serves R m' \<Longrightarrow> mounted m' = mounted m"
  unfolding serves_def by (metis ext not_Some_eq)

definition load_each :: "storage_env \<Rightarrow> 's storage_db \<Rightarrow> Storage list \<Rightarrow> 's admin \<Rightarrow> 's admin" where
  "load_each e db xs = fold (\<lambda>storage st. snd (LoadStorage e db storage st)) xs"

lemma load_each_mounts:
  assumes laws: "storage_db_laws db rows" and ok: "rows_ok R"
    and rows: "\<forall>x \<in> set xs. R (StorageID x) = Some x \<and> driverMap e (DriverName x)"
    and start: "same_keys R (rows (adb st))" "amounts st = []"
  shows "same_keys R (rows (adb (load_each e db xs st))) \<and>
    (\<forall>p i. mounted (amounts (load_each e db xs st)) p = Some i \<longleftrightarrow> (\<exists>x \<in> set xs. MountPath x = p \<and> StorageID x = i))"
  using rows
proof (induction xs rule: rev_induct)
  case Nil
  then show ?case using start by (simp add: load_each_def)
next
  case (snoc x xs)
  let ?st = "load_each e db xs st"
  have keys: "same_keys R (rows (adb ?st))" and known: "R (StorageID x) = Some x" "driverMap e (DriverName x)"
    using snoc by auto
  obtain y where y: "rows (adb ?st) (StorageID x) = Some y" "Disabled x = Disabled y" "MountPath x = MountPath y"
    using same_keysD [OF same_keys_sym [OF keys] known(1)] by metis
  obtain r st' where load: "LoadStorage e db x ?st = (r, st')" by fastforce
  note eff = LoadStorage_effect [OF laws same_keys_rows_ok [OF keys ok] y(1) refl y(2,3) load]
  have "mounted (amounts st') = (mounted (amounts ?st))(MountPath x \<mapsto> StorageID x)"
    using eff(2) known y(3) by auto
  moreover have "StorageID z = StorageID x" if "z \<in> set xs" "MountPath z = MountPath x" for z
    using that snoc.prems rows_ok_inj [OF ok _ known(1)] by auto
  moreover have "load_each e db (xs @ [x]) st = st'" using load by (simp add: load_each_def)
  moreover have "mounted (amounts ?st) p = Some i \<longleftrightarrow> (\<exists>z \<in> set xs. MountPath z = p \<and> StorageID z = i)" for p i
    using snoc by auto
  ultimately show ?case
    using same_keys_trans [OF keys eff(1)] by auto
qed

end
