(* ===== verification/Storage_Properties.thy ===== *)
theory Storage_Properties
  imports Storage_Mounts
begin

text \<open>
  Properties of the life of storages, with a table of rows as an instance of the database.
\<close>

section \<open>A concrete database\<close>

text \<open>Rows by identifier, with a unique mount path.\<close>

definition clash :: "(nat \<times> Storage) list \<Rightarrow> Storage \<Rightarrow> bool" where
  "clash s x \<longleftrightarrow> (\<exists>(j, y) \<in> set (AList.clearjunk s). j \<noteq> StorageID x \<and> MountPath y = MountPath x)"

definition fresh_id :: "(nat \<times> Storage) list \<Rightarrow> nat" where
  "fresh_id s = Suc (foldr max (map fst s) 0)"

definition row_table :: "(nat \<times> Storage) list storage_db" where
  "row_table =
     \<lparr>sdbFirst = (\<lambda>s i. case map_of s i of None \<Rightarrow> Inl RecordNotFound | Some x \<Rightarrow> Inr x),
      sdbEnabled = (\<lambda>s. Inr (filter (\<lambda>x. \<not> Disabled x) (map snd (AList.clearjunk s)))),
      sdbCreate = (\<lambda>s x. let i = fresh_id s in
        if clash s (x\<lparr>StorageID := i\<rparr>) then (s, 0, Some (DbFailure ''UNIQUE constraint failed''))
        else (AList.update i (x\<lparr>StorageID := i\<rparr>) s, i, None)),
      sdbSave = (\<lambda>s x. if clash s x then (s, Some (DbFailure ''UNIQUE constraint failed''))
        else (AList.update (StorageID x) x s, None)),
      sdbDelete = (\<lambda>s i. (AList.delete i s, None))\<rparr>"

lemma clash_iff: "clash s x \<longleftrightarrow> (\<exists>j y. map_of s j = Some y \<and> j \<noteq> StorageID x \<and> MountPath y = MountPath x)"
  unfolding clash_def using map_of_eq_Some_iff [OF distinct_clearjunk, of s] by (fastforce simp: map_of_clearjunk)

lemma fresh_id_pos [simp]: "0 < fresh_id s" "fresh_id s \<noteq> 0"
  by (simp_all add: fresh_id_def)

lemma fresh_id_fresh: "map_of s (fresh_id s) = None"
proof -
  have "k \<in> set ks \<Longrightarrow> k \<le> foldr max ks 0" for k :: nat and ks
    by (induction ks) auto
  then have "fresh_id s \<notin> set (map fst s)" by (fastforce simp: fresh_id_def)
  then show ?thesis by (simp add: map_of_eq_None_iff)
qed

lemma row_table_laws: "storage_db_laws row_table map_of"
proof -
  have enabled: "(\<exists>i. map_of s i = Some x) \<longleftrightarrow> x \<in> snd ` set (AList.clearjunk s)" for s :: "(nat \<times> Storage) list" and x
    using map_of_eq_Some_iff [OF distinct_clearjunk, of s] by (force simp: map_of_clearjunk)
  show ?thesis
    unfolding storage_db_laws_def
    by (auto simp: row_table_def enabled clash_iff Let_def update_conv' delete_conv' fresh_id_fresh
        split: option.splits if_splits) (metis fresh_id_fresh option.distinct(1))
qed

text \<open>Drivers that never fail.\<close>

definition calm_env :: storage_env where
  "calm_env = \<lparr>driverMap = (\<lambda>n. n = ''Local''), unmarshalAddition = (\<lambda>_. InitOk), isReference = (\<lambda>_. False),
     initReference = (\<lambda>_ _. InitOk), isNotSupport = (\<lambda>_. False), driverInit = (\<lambda>_ _. InitOk), dropDriver = (\<lambda>_. None),
     marshalAddition = (\<lambda>d. Inr (Addition (GetStorage d))), isUseOnlineAPI = (\<lambda>_. False), sanitizeHTML = (\<lambda>s. s),
     panicInfo = (\<lambda>s. s), timeNow = 5\<rparr>"

definition example_row :: Storage where
  "example_row = GetStorage (example_driver 1 ''/a'')"

definition example_admin :: "(nat \<times> Storage) list admin" where
  "example_admin = \<lparr>adb = [(1, example_row)], amounts = [(''/a'', example_driver 1 ''/a'')], aevents = []\<rparr>"

lemma example_row_simps [simp]:
  "StorageID example_row = 1" "MountPath example_row = ''/a''" "\<not> Disabled example_row" "DriverName example_row = ''Local''"
  by (simp_all add: example_row_def example_driver_def)

lemma clean_example: "FixAndCleanPath ''/a'' = ''/a''" "FixAndCleanPath ''/b'' = ''/b''"
  by code_simp+

lemma mounts_ok_example: "mounts_ok map_of example_admin"
  by (auto simp: mounts_ok_def rows_ok_def serves_def mounted_def enabled_at_def example_admin_def example_driver_def
      clean_example split: if_splits)

section \<open>Properties\<close>

text \<open>C4 (mounts follow rows): if the mount table serves exactly the enabled storages of the database, then after a request of
  the storage interface that names no storage or one by an identifier other than 0 (for which the database would answer with its
  first row) it does so again, except after exactly these answers: a storage created as disabled is mounted; an
  enabled storage whose driver is unknown is not mounted; an update that disables a storage leaves it mounted; an update
  that enables one, or that renames one whose driver cannot be dropped, leaves it unmounted; a storage whose row could
  not be deleted is unmounted; a disabled storage that is reloaded is mounted.\<close>

theorem mounts_diverge_iff:
  assumes "storage_db_laws db rows" "mounts_ok rows st" "req_id req \<noteq> Some 0"
    and "admin_step e db req st = (r, st')"
  shows "mounts_ok rows st' \<longleftrightarrow> \<not> diverges (rows (adb st)) req r"
proof -
  have "answers rows st req (admin_step e db req st)"
    using assms(3)
    by (cases req) (simp_all del: admin_step.simps diverges.simps add: CreateStorage_answers EnableStorage_answers
        DisableStorage_answers UpdateStorage_answers DeleteStorage_answers ReloadStorage_answers LoadAllStorages_answers assms(1,2))
  then show ?thesis by (auto simp: answers_def mounts_ok_def assms(4))
qed

theorem mounts_diverge_iff_witness:
  "\<exists>r st'. admin_step calm_env row_table (ReqUpdateStorage (example_row\<lparr>MountPath := ''/b''\<rparr>)) example_admin = (r, st') \<and>
     mounts_ok map_of st' \<and> mounted (amounts st') ''/b'' = Some 1"
proof -
  let ?req = "ReqUpdateStorage (example_row\<lparr>MountPath := ''/b''\<rparr>)"
  obtain r st' where step: "admin_step calm_env row_table ?req example_admin = (r, st')" by fastforce
  have "mounts_ok map_of st' \<longleftrightarrow> \<not> diverges (map_of (adb example_admin)) ?req r"
    by (rule mounts_diverge_iff [OF row_table_laws mounts_ok_example _ step]) simp
  moreover have "fst (admin_step calm_env row_table ?req example_admin) = AdminOk"
    "mounted (amounts (snd (admin_step calm_env row_table ?req example_admin))) ''/b'' = Some 1"
    by code_simp+
  then have "r = AdminOk" "mounted (amounts st') ''/b'' = Some 1" unfolding step by simp_all
  ultimately show ?thesis using step by auto
qed

text \<open>C36 (restart): if the mount table serves exactly the enabled storages of the database and the drivers of all of these are known,
  then loading the storages at a new start, when it succeeds, gives the same mount points with the same storages again.\<close>

theorem restart_same_mounts:
  assumes laws: "storage_db_laws db rows" and ok: "mounts_ok rows st"
    and known: "\<forall>i x. rows (adb st) i = Some x \<longrightarrow> \<not> Disabled x \<longrightarrow> driverMap e (DriverName x)"
    and start: "LoadStorages e db (adb st) = Some st'"
  shows "mounts_ok rows st' \<and> mounted (amounts st') = mounted (amounts st)"
proof -
  let ?R = "rows (adb st)"
  let ?st0 = "\<lparr>adb = adb st, amounts = [], aevents = []\<rparr>"
  obtain xs where xs: "sdbEnabled db (adb st) = Inr xs" and st': "st' = load_each e db xs ?st0"
    using start by (auto simp: LoadStorages_def load_each_def split: sum.splits)
  note R_ok = mounts_okD(1) [OF ok]
  have row: "x \<in> set xs \<longleftrightarrow> ?R (StorageID x) = Some x \<and> \<not> Disabled x" for x
    using storage_enabled [OF laws xs] rows_ok_row(2) [OF R_ok] by auto
  have loaded: "same_keys ?R (rows (adb st'))"
      "mounted (amounts st') p = Some i \<longleftrightarrow> (\<exists>x \<in> set xs. MountPath x = p \<and> StorageID x = i)" for p i
    using load_each_mounts [OF laws R_ok, of xs e ?st0] row known by (auto simp: st')
  have "serves ?R (amounts st')"
    unfolding serves_def loaded(2) enabled_at_def using row rows_ok_row(2) [OF R_ok] by auto
  then show ?thesis
    using serves_unique [OF mounts_okD(2) [OF ok]] same_keys_rows_ok [OF loaded(1) R_ok] serves_same [OF loaded(1)]
    by (simp add: mounts_ok_def)
qed

theorem restart_same_mounts_witness:
  "\<exists>st'. LoadStorages calm_env row_table (adb example_admin) = Some st' \<and> mounts_ok map_of st' \<and>
     mounted (amounts st') = mounted (amounts example_admin)"
proof -
  obtain st' where start: "LoadStorages calm_env row_table (adb example_admin) = Some st'"
    by (simp add: LoadStorages_def row_table_def)
  have "\<forall>i x. map_of (adb example_admin) i = Some x \<longrightarrow> \<not> Disabled x \<longrightarrow> driverMap calm_env (DriverName x)"
    by (simp add: example_admin_def calm_env_def)
  from restart_same_mounts [OF row_table_laws mounts_ok_example this start] start show ?thesis by blast
qed

text \<open>An update that marks a mounted storage as disabled succeeds and leaves it mounted. Afterwards
  it cannot be disabled, and deleting it removes its row but not its mount: the mount table, and with it every
  lookup by path, stays what it was.\<close>

theorem disabled_by_update_stays_mounted:
  assumes laws: "storage_db_laws db rows" and ok: "mounts_ok rows st"
    and row: "rows (adb st) (StorageID x) = Some old" "\<not> Disabled old" "Disabled x"
    and update: "UpdateStorage e db x st = (AdminOk, st1)"
  shows "(\<exists>d. GetStorageByMountPath (amounts st1) (MountPath old) = Some d \<and> StorageID (GetStorage d) = StorageID x) \<and>
    (\<exists>y. rows (adb st1) (StorageID x) = Some y \<and> Disabled y) \<and>
    (\<forall>e r st2. DisableStorage e db (StorageID x) st1 = (r, st2) \<longrightarrow> r \<noteq> AdminOk \<and> amounts st2 = amounts st) \<and>
    (\<forall>e st2. DeleteStorageById e db (StorageID x) st1 = (AdminOk, st2) \<longrightarrow>
      rows (adb st2) (StorageID x) = None \<and> amounts st2 = amounts st)"
proof -
  let ?i = "StorageID x"
  define y where "y = x\<lparr>Modified := timeNow e, MountPath := FixAndCleanPath (MountPath x)\<rparr>"
  note old = rows_ok_row [OF mounts_okD(1) [OF ok] row(1)]
  obtain s' where save: "sdbSave db (adb st) y = (s', None)" and st1: "st1 = st\<lparr>adb := s'\<rparr>"
    using update row(3)
    by (auto simp: UpdateStorage_def y_def Let_def split: sum.splits prod.splits option.splits if_splits)
  have row_y: "rows (adb st) (StorageID y) = Some old" using row(1) by (simp add: y_def)
  have now: "rows s' ?i = Some y" "Disabled y"
    using storage_save [OF laws save row_y] row(3) by (simp_all add: y_def)
  have first: "sdbFirst db s' ?i = Inr z \<Longrightarrow> z = y" for z
    using storage_first [OF laws _ old(1), of s' z] now(1) by auto
  have "enabled_at (rows (adb st)) ?i (MountPath old)" using row by (simp add: enabled_at_def)
  then have "mounted (amounts st) (MountPath old) = Some ?i" using mounts_okD(2) [OF ok] by (simp add: serves_def)
  then have mount: "\<exists>d. GetStorageByMountPath (amounts st) (MountPath old) = Some d \<and> StorageID (GetStorage d) = ?i"
    using old by (auto simp: mounted_def GetStorageByMountPath_def)
  have disable: "r \<noteq> AdminOk \<and> amounts st2 = amounts st" if "DisableStorage e db ?i st1 = (r, st2)" for e r st2
    using that first now(2) by (auto simp: DisableStorage_def st1 split: sum.splits)
  have delete: "rows (adb st2) ?i = None \<and> amounts st2 = amounts st" if "DeleteStorageById e db ?i st1 = (AdminOk, st2)" for e st2
    using that first now(2) storage_delete [OF laws, of s' ?i]
    by (auto simp: DeleteStorageById_def delete_row_def st1 split: sum.splits prod.splits option.splits)
  show ?thesis using mount now disable delete by (auto simp: st1)
qed

theorem disabled_by_update_stays_mounted_witness:
  "\<exists>st1. UpdateStorage calm_env row_table (example_row\<lparr>Disabled := True\<rparr>) example_admin = (AdminOk, st1) \<and>
     (\<exists>st2. DeleteStorageById calm_env row_table 1 st1 = (AdminOk, st2) \<and> map_of (adb st2) 1 = None \<and>
       amounts st2 = amounts example_admin)"
proof -
  let ?x = "example_row\<lparr>Disabled := True\<rparr>"
  define st1 where "st1 = snd (UpdateStorage calm_env row_table ?x example_admin)"
  define st2 where "st2 = snd (DeleteStorageById calm_env row_table 1 st1)"
  have update: "UpdateStorage calm_env row_table ?x example_admin = (AdminOk, st1)"
    unfolding st1_def by (rule prod_eqI; code_simp)
  have delete: "DeleteStorageById calm_env row_table 1 st1 = (AdminOk, st2)"
    unfolding st2_def st1_def by (rule prod_eqI; code_simp)
  have row: "map_of (adb example_admin) (StorageID ?x) = Some example_row" by (simp add: example_admin_def)
  have "map_of (adb st2) 1 = None \<and> amounts st2 = amounts example_admin"
    using disabled_by_update_stays_mounted [OF row_table_laws mounts_ok_example row _ _ update] delete by simp
  then show ?thesis using update delete by blast
qed

end
