(* ===== verification/Dir_Cache.thy ===== *)
theory Dir_Cache
  imports Storages "HOL-Library.AList"
begin

text \<open>
  The cache of directory listings (\<open>internal/op/cache.go\<close>, \<open>internal/cache/keyed_cache.go\<close>) and the objects it holds
  (\<open>internal/model/obj.go\<close>, \<open>internal/model/object.go\<close>). A cached listing keeps the objects and a sorted copy,
  with flags that say why the copy is out of date. The cache is the list of its entries by key; the clock is a
  parameter. The links of files are a second cache, of which only the removal of a key matters here.

  Slices handed out to callers are values: that a listing shares memory with its callers is not modelled.
\<close>

section \<open>Objects\<close>

unbundle bit_operations_syntax

record FObject =
  FID :: string
  FPath :: string
  FName :: string
  FSize :: int
  FModified :: int
  FCtime :: int
  FIsFolder :: bool
  FMask :: "8 word"

datatype fs_obj = Plain FObject | ObjWrapName string fs_obj | ObjWrapMask fs_obj "8 word"

primrec GetName :: "fs_obj \<Rightarrow> string" where
  "GetName (Plain o') = FName o'"
| "GetName (ObjWrapName name obj) = name"
| "GetName (ObjWrapMask obj msk) = GetName obj"

primrec GetSize :: "fs_obj \<Rightarrow> int" where
  "GetSize (Plain o') = FSize o'"
| "GetSize (ObjWrapName name obj) = GetSize obj"
| "GetSize (ObjWrapMask obj msk) = GetSize obj"

primrec IsDir :: "fs_obj \<Rightarrow> bool" where
  "IsDir (Plain o') = FIsFolder o'"
| "IsDir (ObjWrapName name obj) = IsDir obj"
| "IsDir (ObjWrapMask obj msk) = IsDir obj"

primrec GetObjMask :: "fs_obj \<Rightarrow> 8 word" where
  "GetObjMask (Plain o') = FMask o'"
| "GetObjMask (ObjWrapName name obj) = GetObjMask obj"
| "GetObjMask (ObjWrapMask obj msk) = msk"

definition ObjHasMask :: "fs_obj \<Rightarrow> 8 word \<Rightarrow> bool" where
  "ObjHasMask obj msk \<longleftrightarrow> GetObjMask obj AND msk \<noteq> 0"

definition UnwrapObjName :: "fs_obj \<Rightarrow> fs_obj" where
  "UnwrapObjName obj = (case obj of ObjWrapName name inner \<Rightarrow> inner | _ \<Rightarrow> obj)"

definition WrapObjName :: "(string \<Rightarrow> string) \<Rightarrow> fs_obj \<Rightarrow> fs_obj" where
  "WrapObjName mappingName obj = ObjWrapName (mappingName (GetName obj)) obj"

text \<open>\<open>ExtractFolder\<close> sorts stably by whether an object is a folder.\<close>

definition ExtractFolder :: "fs_obj list \<Rightarrow> string \<Rightarrow> fs_obj list" where
  "ExtractFolder objs extractFolder =
     (if extractFolder = [] then objs
      else if extractFolder = ''front'' then filter IsDir objs @ filter (\<lambda>x. \<not> IsDir x) objs
      else filter (\<lambda>x. \<not> IsDir x) objs @ filter IsDir objs)"

lemma mset_ExtractFolder [simp]: "mset (ExtractFolder objs x) = mset objs"
  by (simp add: ExtractFolder_def union_commute)

section \<open>A cached listing\<close>

text \<open>How a storage shows its listings: \<open>SortFiles\<close> rests on \<open>sort.Slice\<close> and the natural order of names, and is a
  parameter.\<close>

record display =
  LocalSort :: bool
  OrderBy :: string
  OrderDirection :: string
  ExtractFolderTo :: string
  SortFiles :: "fs_obj list \<Rightarrow> string \<Rightarrow> string \<Rightarrow> fs_obj list"

definition display_order :: "display \<Rightarrow> fs_obj list \<Rightarrow> fs_obj list" where
  "display_order m objs =
     ExtractFolder (if LocalSort m then SortFiles m objs (OrderBy m) (OrderDirection m) else objs) (ExtractFolderTo m)"

record directoryCache =
  objs :: "fs_obj list"
  sorted_objs :: "fs_obj list"
  dirtyFlags :: "8 word"

definition dirtyRemove :: "8 word" where "dirtyRemove = 1"
definition dirtyUpdate :: "8 word" where "dirtyUpdate = 2"

definition newDirectoryCache :: "fs_obj list \<Rightarrow> directoryCache" where
  "newDirectoryCache xs = \<lparr>objs = xs, sorted_objs = xs, dirtyFlags = 0\<rparr>"

fun remove_first :: "string \<Rightarrow> fs_obj list \<Rightarrow> fs_obj list option" where
  "remove_first name [] = None"
| "remove_first name (x # xs) = (if GetName x = name then Some xs else map_option ((#) x) (remove_first name xs))"

definition RemoveObject :: "string \<Rightarrow> directoryCache \<Rightarrow> directoryCache" where
  "RemoveObject name dc =
     (case remove_first name (objs dc) of
        None \<Rightarrow> dc
      | Some xs \<Rightarrow> dc\<lparr>objs := xs, dirtyFlags := dirtyFlags dc OR dirtyRemove\<rparr>)"

fun replace_named :: "string \<Rightarrow> fs_obj \<Rightarrow> fs_obj list \<Rightarrow> fs_obj list option" where
  "replace_named name new [] = None"
| "replace_named name new (x # xs) = (if GetName x = name then Some (new # xs) else map_option ((#) x) (replace_named name new xs))"

definition UpdateObject :: "string \<Rightarrow> fs_obj \<Rightarrow> directoryCache \<Rightarrow> directoryCache" where
  "UpdateObject oldName newObj dc =
     dc\<lparr>objs := (case if oldName = [] then None else replace_named oldName newObj (objs dc) of
                   Some xs \<Rightarrow> xs | None \<Rightarrow> objs dc @ [newObj]),
        dirtyFlags := dirtyFlags dc OR dirtyUpdate\<rparr>"

definition GetSortedObjects :: "display \<Rightarrow> directoryCache \<Rightarrow> fs_obj list \<times> directoryCache" where
  "GetSortedObjects m dc =
     (if dirtyFlags dc = 0 then (sorted_objs dc, dc)
      else (let xs = (if dirtyFlags dc AND dirtyUpdate \<noteq> 0 then display_order m (objs dc) else objs dc)
            in (xs, dc\<lparr>sorted_objs := xs, dirtyFlags := 0\<rparr>)))"

section \<open>The caches\<close>

text \<open>An entry carries the time after which it has expired. \<open>clock\<close> is read once per lookup.\<close>

record caches =
  dirCache :: "(string \<times> directoryCache \<times> int) list"
  linkCache :: "(string \<times> (string \<times> string) list) list"
  ticks :: nat

definition dirCache_Get :: "(nat \<Rightarrow> int) \<Rightarrow> string \<Rightarrow> caches \<Rightarrow> directoryCache option \<times> caches" where
  "dirCache_Get clock key c =
     (case map_of (dirCache c) key of
        None \<Rightarrow> (None, c)
      | Some (dc, expiration) \<Rightarrow>
          if clock (ticks c) > expiration
          then (None, c\<lparr>dirCache := AList.delete key (dirCache c), ticks := Suc (ticks c)\<rparr>)
          else (Some dc, c\<lparr>ticks := Suc (ticks c)\<rparr>))"

definition dirCache_SetWithTTL :: "(nat \<Rightarrow> int) \<Rightarrow> string \<Rightarrow> directoryCache \<Rightarrow> int \<Rightarrow> caches \<Rightarrow> caches" where
  "dirCache_SetWithTTL clock key dc ttl c =
     c\<lparr>dirCache := AList.update key (dc, clock (ticks c) + ttl) (dirCache c), ticks := Suc (ticks c)\<rparr>"

definition dirCache_GC :: "(nat \<Rightarrow> int) \<Rightarrow> caches \<Rightarrow> caches" where
  "dirCache_GC clock c = c\<lparr>dirCache := filter (\<lambda>(_, _, expiration). \<not> clock (ticks c) > expiration) (dirCache c), ticks := Suc (ticks c)\<rparr>"

definition linkCache_DeleteKey :: "string \<Rightarrow> caches \<Rightarrow> caches" where
  "linkCache_DeleteKey key c = c\<lparr>linkCache := AList.delete key (linkCache c)\<rparr>"

text \<open>A change of a listing that a caller holds: it is the entry of its key as long as that is in the cache.\<close>

definition change_dir :: "string \<Rightarrow> (directoryCache \<Rightarrow> directoryCache) \<Rightarrow> caches \<Rightarrow> caches" where
  "change_dir key f c = c\<lparr>dirCache := AList.map_entry key (\<lambda>(dc, expiration). (f dc, expiration)) (dirCache c)\<rparr>"

text \<open>\<open>deleteDirectoryTree\<close>. Each level takes an entry out of the cache, so that a depth of one more than the number of
  entries is never reached.\<close>

fun delete_tree :: "nat \<Rightarrow> string \<Rightarrow> caches \<Rightarrow> caches" where
  "delete_tree 0 key c = c"
| "delete_tree (Suc n) key c =
     (case map_of (dirCache c) key of
        None \<Rightarrow> c
      | Some (dc, _) \<Rightarrow>
          fold (\<lambda>obj c. if IsDir obj then delete_tree n (path_join [key, GetName obj]) c
                 else linkCache_DeleteKey (path_join [key, GetName obj]) c)
            (objs dc) (c\<lparr>dirCache := AList.delete key (dirCache c)\<rparr>))"

definition deleteDirectoryTree :: "string \<Rightarrow> caches \<Rightarrow> caches" where
  "deleteDirectoryTree key c = delete_tree (Suc (length (dirCache c))) key c"

definition removeDirectoryObject :: "(nat \<Rightarrow> int) \<Rightarrow> bool \<Rightarrow> string \<Rightarrow> fs_obj \<Rightarrow> caches \<Rightarrow> caches" where
  "removeDirectoryObject clock noCache key obj c =
     (let c = (if IsDir obj then c else linkCache_DeleteKey (path_join [key, GetName obj]) c)
      in if noCache then c
         else (case dirCache_Get clock key c of
             (None, c) \<Rightarrow> c
           | (Some _, c) \<Rightarrow>
               change_dir key (RemoveObject (GetName obj))
                 (if IsDir obj then deleteDirectoryTree (path_join [key, GetName obj]) c else c)))"

end
