(* ===== verification/Op_Fs.thy ===== *)
theory Op_Fs
  imports Dir_Cache Storage_Admin
begin

text \<open>
  The operations on the files of one storage (\<open>internal/op/fs.go\<close>): listing and looking up objects through the cache,
  making folders with their ancestors, moving, renaming, copying, removing and uploading. The driver is a parameter:
  which methods it has and what they answer, which may depend on all its earlier calls. Calls that change the storage are
  recorded in order. Hooks that run after an operation, and callers that share one call (\<open>singleflight\<close>), are left
  out, except where a call would wait for itself: \<open>Deadlock\<close>.
\<close>

section \<open>State and environment\<close>

datatype op_error =
    StorageNotInit string
  | ObjectNotFound
  | ObjectAlreadyExists
  | NotFolder
  | PermissionDenied
  | NotImplement
  | NotSupport
  | OpErr string
  | Deadlock

record FileStream =
  StreamName :: string
  StreamSize :: int
  StreamModTime :: int
  StreamCreateTime :: int
  Exist :: "fs_obj option"

datatype driver_call =
    CallMakeDir fs_obj string
  | CallMove fs_obj fs_obj
  | CallRename fs_obj string
  | CallCopy fs_obj fs_obj
  | CallRemove fs_obj
  | CallPut fs_obj FileStream
  | CallPutURL fs_obj string string

record fs_state =
  fcaches :: caches
  calls :: "driver_call list"

datatype root_kind =
    GetRooter "driver_call list \<Rightarrow> op_error + fs_obj"
  | IRootId string
  | IRootPath string
  | NoRoot

type_synonym 'a driver_fn = "driver_call list \<Rightarrow> 'a"

text \<open>A method that changes the storage answers with its error, or with the new object if it returns one.\<close>

record fs_env =
  CheckStatus :: bool
  NoCache :: bool
  NoOverwriteUpload :: bool
  OnlyIndices :: bool
  fsStorage :: Storage
  fsDisplay :: display
  fsClock :: "nat \<Rightarrow> int"
  opNow :: int
  mappingName :: "string \<Rightarrow> string"
  matchGlob :: "string \<Rightarrow> string \<Rightarrow> bool option"
  rootKind :: root_kind
  getter :: "(string \<Rightarrow> op_error + fs_obj) driver_fn option"
  drvList :: "(fs_obj \<Rightarrow> op_error + fs_obj list) driver_fn"
  drvMakeDir :: "(fs_obj \<Rightarrow> string \<Rightarrow> op_error + fs_obj option) driver_fn option"
  drvMove :: "(fs_obj \<Rightarrow> fs_obj \<Rightarrow> op_error + fs_obj option) driver_fn option"
  drvRename :: "(fs_obj \<Rightarrow> string \<Rightarrow> op_error + fs_obj option) driver_fn option"
  drvCopy :: "(fs_obj \<Rightarrow> fs_obj \<Rightarrow> op_error + fs_obj option) driver_fn option"
  drvRemove :: "(fs_obj \<Rightarrow> op_error option) driver_fn option"
  drvPut :: "(fs_obj \<Rightarrow> FileStream \<Rightarrow> op_error + fs_obj option) driver_fn option"
  drvPutURL :: "(fs_obj \<Rightarrow> string \<Rightarrow> string \<Rightarrow> op_error + fs_obj option) driver_fn option"
  fullSize :: "FileStream \<Rightarrow> int"

type_synonym 'a op_m = "fs_state \<Rightarrow> (op_error + 'a) \<times> fs_state"

definition ok :: "'a \<Rightarrow> 'a op_m" where "ok x st = (Inr x, st)"
definition fail :: "op_error \<Rightarrow> 'a op_m" where "fail err st = (Inl err, st)"

definition op_bind :: "'a op_m \<Rightarrow> ('a \<Rightarrow> 'b op_m) \<Rightarrow> 'b op_m" where
  "op_bind m f st = (case m st of (Inl err, st) \<Rightarrow> (Inl err, st) | (Inr x, st) \<Rightarrow> f x st)"

definition require :: "bool \<Rightarrow> op_error \<Rightarrow> 'a op_m \<Rightarrow> 'a op_m" where
  "require b err k = (if b then k else fail err)"

definition on_caches :: "(caches \<Rightarrow> caches) \<Rightarrow> fs_state \<Rightarrow> fs_state" where
  "on_caches f st = st\<lparr>fcaches := f (fcaches st)\<rparr>"

definition record_call :: "driver_call \<Rightarrow> fs_state \<Rightarrow> fs_state" where
  "record_call call st = st\<lparr>calls := calls st @ [call]\<rparr>"

definition working :: "fs_env \<Rightarrow> bool" where
  "working e \<longleftrightarrow> \<not> (CheckStatus e \<and> Status (fsStorage e) \<noteq> WORK)"

definition check_status :: "fs_env \<Rightarrow> 'a op_m \<Rightarrow> 'a op_m" where
  "check_status e k = require (working e) (StorageNotInit (Status (fsStorage e))) k"

definition Key :: "fs_env \<Rightarrow> string \<Rightarrow> string" where
  "Key e path = GetFullPath (MountPath (fsStorage e)) path"

text \<open>\<open>wrapObjName\<close>: names are mapped unless the driver finds objects by path itself.\<close>

definition wrapObjName :: "fs_env \<Rightarrow> fs_obj \<Rightarrow> fs_obj" where
  "wrapObjName e obj = (if getter e = None then WrapObjName (mappingName e) obj else obj)"

section \<open>Listing and lookup\<close>

text \<open>The lifetime of a listing: the first line of the policies whose pattern matches and whose lifetime is a number.\<close>

fun policy_ttl :: "fs_env \<Rightarrow> string \<Rightarrow> string list \<Rightarrow> int \<Rightarrow> int" where
  "policy_ttl e path [] ttl = ttl"
| "policy_ttl e path (line # lines) ttl =
     (case cut_at (CHR '':'') (trim_space line) of
        (pattern, ttlstr, True) \<Rightarrow>
          if matchGlob e pattern path = Some True then
            (case ParseInt ttlstr of (n, None) \<Rightarrow> n | _ \<Rightarrow> policy_ttl e path lines ttl)
          else policy_ttl e path lines ttl
      | _ \<Rightarrow> policy_ttl e path lines ttl)"

definition listing_ttl :: "fs_env \<Rightarrow> string \<Rightarrow> int" where
  "listing_ttl e path =
     (let ttl = CacheExpiration (fsStorage e); policies = CustomCachePolicies (fsStorage e) in
        wrap64 (60000000000 * (if policies = [] then ttl else policy_ttl e path (split_on (CHR 0x0A) policies) ttl)))"

definition store_listing :: "fs_env \<Rightarrow> string \<Rightarrow> fs_obj list \<Rightarrow> fs_state \<Rightarrow> fs_state" where
  "store_listing e path files st =
     (if NoCache e then st
      else on_caches (if files = [] then deleteDirectoryTree (Key e path)
              else dirCache_SetWithTTL (fsClock e) (Key e path) (newDirectoryCache files) (listing_ttl e path)) st)"

definition fresh_list :: "(string \<Rightarrow> fs_obj op_m) \<Rightarrow> fs_env \<Rightarrow> string \<Rightarrow> fs_obj list op_m" where
  "fresh_list get e path =
     op_bind (get path) (\<lambda>dir.
       require (IsDir (UnwrapObjName dir)) NotFolder
         (\<lambda>st. case drvList e (calls st) (UnwrapObjName dir) of
            Inl err \<Rightarrow> (Inl err, st)
          | Inr files \<Rightarrow>
              (let files = display_order (fsDisplay e) (map (wrapObjName e) files)
               in (Inr files, store_listing e path files st))))"

text \<open>The cached listing of a key, sorted.\<close>

definition cached_listing :: "fs_env \<Rightarrow> string \<Rightarrow> fs_state \<Rightarrow> fs_obj list option \<times> fs_state" where
  "cached_listing e key st =
     (case dirCache_Get (fsClock e) key (fcaches st) of
        (None, c) \<Rightarrow> (None, st\<lparr>fcaches := c\<rparr>)
      | (Some dc, c) \<Rightarrow>
          (case GetSortedObjects (fsDisplay e) dc of
             (xs, dc) \<Rightarrow> (Some xs, st\<lparr>fcaches := change_dir key (\<lambda>_. dc) c\<rparr>)))"

text \<open>\<open>list\<close>, with the lookup of the folder as an argument and the validator of the result.\<close>

definition list_via ::
    "(string \<Rightarrow> fs_obj op_m) \<Rightarrow> fs_env \<Rightarrow> bool \<Rightarrow> (fs_obj list \<Rightarrow> op_error option) \<Rightarrow> string \<Rightarrow> fs_obj list op_m" where
  "list_via get e refresh validator path =
     check_status e
       (let path = FixAndCleanPath path;
            fresh = op_bind (fresh_list get e path)
              (\<lambda>files. case validator files of None \<Rightarrow> ok files | Some err \<Rightarrow> fail err)
        in if refresh then fresh
           else (\<lambda>st. case cached_listing e (Key e path) st of
               (Some files, st) \<Rightarrow> if validator files = None then (Inr files, st) else fresh st
             | (None, st) \<Rightarrow> fresh st))"

lemma list_via_cong [fundef_cong]:
  assumes "get (FixAndCleanPath path) = get' (FixAndCleanPath path)"
  shows "list_via get e refresh validator path = list_via get' e refresh validator path"
  using assms by (simp add: list_via_def fresh_list_def)

definition root_obj :: "fs_env \<Rightarrow> fs_obj op_m" where
  "root_obj e st =
     (let root = \<lparr>FID = [], FPath = [], FName = ''root'', FSize = 0, FModified = Modified (fsStorage e), FCtime = 0,
                  FIsFolder = True, FMask = mask_Locked\<rparr>
      in (case rootKind e of
            GetRooter f \<Rightarrow> f (calls st)
          | IRootId i \<Rightarrow> Inr (Plain (root\<lparr>FID := i\<rparr>))
          | IRootPath p \<Rightarrow> Inr (Plain (root\<lparr>FPath := p\<rparr>))
          | NoRoot \<Rightarrow> Inl (OpErr ''please implement GetRooter or IRootPath or IRootId interface''), st))"

datatype get_step = GetDone "op_error + fs_obj" | GetList bool

definition get_driver :: "fs_env \<Rightarrow> string \<Rightarrow> bool \<Rightarrow> bool \<Rightarrow> fs_state \<Rightarrow> get_step \<times> fs_state" where
  "get_driver e path hit refresh st =
     (let last_resort = (if \<not> hit \<or> refresh then GetList refresh else GetDone (Inl ObjectNotFound)) in
        case getter e of
          None \<Rightarrow> (last_resort, st)
        | Some g \<Rightarrow>
            (case g (calls st) path of
               Inr obj \<Rightarrow> (GetDone (Inr obj), st)
             | Inl err \<Rightarrow> (if err \<noteq> NotImplement \<and> err \<noteq> NotSupport then GetDone (Inl err) else last_resort, st)))"

text \<open>\<open>Get\<close> up to the listing of the parent folder.\<close>

definition get_prefix :: "fs_env \<Rightarrow> bool \<Rightarrow> string \<Rightarrow> fs_state \<Rightarrow> get_step \<times> fs_state" where
  "get_prefix e excludeTemp path st =
     (if path = ''/'' then (case root_obj e st of (r, st) \<Rightarrow> (GetDone r, st))
      else (case path_split path of (dir, name) \<Rightarrow>
        (case cached_listing e (Key e dir) st of
           (None, st) \<Rightarrow> get_driver e path False False st
         | (Some files, st) \<Rightarrow>
             (case find (\<lambda>f. GetName f = name) files of
                Some f \<Rightarrow>
                  if excludeTemp \<and> ObjHasMask f mask_Temp then get_driver e path True True st
                  else (GetDone (Inr f), st)
              | None \<Rightarrow> get_driver e path True False st))))"

definition get_validator :: "bool \<Rightarrow> string \<Rightarrow> fs_obj list \<Rightarrow> op_error option" where
  "get_validator excludeTemp name files =
     (case find (\<lambda>f. GetName f = name) files of
        Some f \<Rightarrow> if excludeTemp \<and> ObjHasMask f mask_Temp then Some ObjectNotFound else None
      | None \<Rightarrow> None)"

lemma path_comps_parent:
  assumes "path_comps path \<noteq> []"
  shows "path_comps (fst (path_split (FixAndCleanPath path))) = butlast (path_comps path)"
    and "snd (path_split (FixAndCleanPath path)) = last (path_comps path)"
proof -
  obtain cs c where p: "path_comps path = cs @ [c]" using assms by (cases "path_comps path" rule: rev_cases) auto
  have good: "good_comps cs" "good_comp c" using path_comps_good [of path] by (simp_all add: p)
  have split: "path_split (FixAndCleanPath path) = ((if cs = [] then ''/'' else abs_path cs @ ''/''), c)"
    by (simp add: FixAndCleanPath_comps p path_split_abs_snoc good)
  have "path_comps (abs_path cs) = cs"
    by (rule path_comps_abs_path [OF good(1)]) (use path_comps_no_backslash [of _ path] in \<open>auto simp: p\<close>)
  then show "path_comps (fst (path_split (FixAndCleanPath path))) = butlast (path_comps path)"
    and "snd (path_split (FixAndCleanPath path)) = last (path_comps path)"
    by (simp_all add: split p)
qed

lemma get_prefix_list: "get_prefix e excludeTemp path st = (GetList refresh, st') \<Longrightarrow> path \<noteq> ''/''"
  by (auto simp: get_prefix_def split: prod.splits)

lemma FixAndCleanPath_root: "FixAndCleanPath path = ''/'' \<longleftrightarrow> path_comps path = []"
  using abs_path_inject [of "path_comps path" "[]"] by (auto simp: FixAndCleanPath_comps abs_path_def)

lemma path_comps_clean: "path_comps (FixAndCleanPath p) = path_comps p"
  by (simp add: FixAndCleanPath_comps)

lemma parent_shorter:
  "FixAndCleanPath path \<noteq> ''/'' \<Longrightarrow> path_split (FixAndCleanPath path) = (dir, name) \<Longrightarrow>
    length (path_comps (FixAndCleanPath dir)) < length (path_comps path)"
  using path_comps_parent(1) [of path] by (simp add: FixAndCleanPath_root path_comps_clean)

function op_Get :: "fs_env \<Rightarrow> bool \<Rightarrow> string \<Rightarrow> fs_obj op_m" where
  "op_Get e excludeTemp path = (\<lambda>st.
     if \<not> working e then (Inl (StorageNotInit (Status (fsStorage e))), st)
     else (let path = FixAndCleanPath path in
        case get_prefix e excludeTemp path st of
          (GetDone r, st) \<Rightarrow> (r, st)
        | (GetList refresh, st) \<Rightarrow>
            (case path_split path of (dir, name) \<Rightarrow>
              (case list_via (\<lambda>p. op_Get e True p) e refresh (get_validator excludeTemp name) dir st of
                 (Inl _, st) \<Rightarrow> (Inl ObjectNotFound, st)
               | (Inr files, st) \<Rightarrow>
                   (case find (\<lambda>f. GetName f = name) files of
                      Some f \<Rightarrow> (Inr f, st)
                    | None \<Rightarrow> (Inl ObjectNotFound, st))))))"
  by pat_completeness auto

termination
  by (relation "measure (\<lambda>(e, x, p). length (path_comps p))")
    (auto dest!: get_prefix_list [OF sym] intro: parent_shorter [OF _ sym])

declare op_Get.simps [simp del]

definition GetUnwrap :: "fs_env \<Rightarrow> string \<Rightarrow> fs_obj op_m" where
  "GetUnwrap e path = op_bind (op_Get e True path) (\<lambda>obj. ok (UnwrapObjName obj))"

definition op_List :: "fs_env \<Rightarrow> bool \<Rightarrow> string \<Rightarrow> fs_obj list op_m" where
  "op_List e refresh path = list_via (op_Get e True) e refresh (\<lambda>_. None) path"

section \<open>Operations that change the storage\<close>

text \<open>A call of a driver method, if the driver has it.\<close>

definition call_driver :: "(op_error + 'a) driver_fn option \<Rightarrow> driver_call \<Rightarrow> 'a op_m" where
  "call_driver f call st =
     (case f of
        None \<Rightarrow> (Inl NotImplement, st)
      | Some g \<Rightarrow> (g (calls st), record_call call st))"

text \<open>What follows a cached listing of a folder, if there is one.\<close>

definition update_listing :: "fs_env \<Rightarrow> string \<Rightarrow> (caches \<Rightarrow> caches) \<Rightarrow> string \<Rightarrow> fs_obj \<Rightarrow> caches \<Rightarrow> caches" where
  "update_listing e key evict oldName newObj c =
     (if NoCache e then c
      else (case dirCache_Get (fsClock e) key c of
          (None, c) \<Rightarrow> c
        | (Some _, c) \<Rightarrow> change_dir key (UpdateObject oldName newObj) (evict c)))"

definition temp_object :: "string \<Rightarrow> int \<Rightarrow> int \<Rightarrow> int \<Rightarrow> bool \<Rightarrow> fs_obj" where
  "temp_object name sz modified created folder =
     Plain \<lparr>FID = [], FPath = [], FName = name, FSize = sz, FModified = modified, FCtime = created, FIsFolder = folder, FMask = mask_Temp\<rparr>"

definition make_in_parent :: "fs_env \<Rightarrow> string \<Rightarrow> string \<Rightarrow> unit op_m" where
  "make_in_parent e parentPath dirName =
     op_bind (GetUnwrap e parentPath) (\<lambda>parentDir.
       require (IsDir parentDir) NotFolder
         (require (\<not> ObjHasMask parentDir mask_NoWrite) PermissionDenied
           (\<lambda>st. case call_driver (map_option (\<lambda>f cs. f cs parentDir dirName) (drvMakeDir e)) (CallMakeDir parentDir dirName) st of
              (r, st) \<Rightarrow>
                if (case r of Inl err \<Rightarrow> err \<noteq> ObjectAlreadyExists | Inr _ \<Rightarrow> False) then (map_sum id (\<lambda>_. ()) r, st)
                else (let newObj = (case r of Inr (Some obj) \<Rightarrow> obj | _ \<Rightarrow> temp_object dirName 0 (opNow e) (opNow e) True)
                      in (Inr (), on_caches (update_listing e (Key e parentPath) id [] (wrapObjName e newObj)) st)))))"

text \<open>\<open>MakeDir\<close>. Making the root would wait for itself.\<close>

function op_MakeDir :: "fs_env \<Rightarrow> string \<Rightarrow> unit op_m" where
  "op_MakeDir e path = (\<lambda>st.
     if \<not> working e then (Inl (StorageNotInit (Status (fsStorage e))), st)
     else (let path = FixAndCleanPath path in
        case op_Get e False path st of
          (Inr f, st) \<Rightarrow> (if IsDir f then Inr () else Inl (OpErr ''file exists''), st)
        | (Inl err, st) \<Rightarrow>
            if err \<noteq> ObjectNotFound then (Inl err, st)
            else if path = ''/'' then (Inl Deadlock, st)
            else (case path_split path of (parentPath, dirName) \<Rightarrow>
              (case op_MakeDir e parentPath st of
                 (Inl err, st) \<Rightarrow> (Inl err, st)
               | (Inr _, st) \<Rightarrow> make_in_parent e parentPath dirName st))))"
  by pat_completeness auto

termination
  by (relation "measure (\<lambda>(e, p). length (path_comps p))")
    (auto simp: path_comps_clean dest!: parent_shorter [OF _ sym])

declare op_MakeDir.simps [simp del]

text \<open>Removal of the links of a file and of an entry of a cached listing, with the listings below it.\<close>

definition delete_links :: "fs_obj \<Rightarrow> string list \<Rightarrow> caches \<Rightarrow> caches" where
  "delete_links obj keys c = (if IsDir obj then c else fold linkCache_DeleteKey keys c)"

definition evict_tree :: "fs_obj \<Rightarrow> string \<Rightarrow> caches \<Rightarrow> caches" where
  "evict_tree obj key = (if IsDir obj then deleteDirectoryTree key else id)"

definition remove_listed :: "fs_env \<Rightarrow> string \<Rightarrow> fs_obj \<Rightarrow> caches \<Rightarrow> caches" where
  "remove_listed e key obj c =
     (if NoCache e then c
      else (case dirCache_Get (fsClock e) key c of
          (None, c) \<Rightarrow> c
        | (Some _, c) \<Rightarrow> change_dir key (RemoveObject (GetName obj)) (evict_tree obj (path_join [key, GetName obj]) c)))"

definition new_or_temp :: "fs_env \<Rightarrow> fs_obj \<Rightarrow> fs_obj option \<Rightarrow> fs_obj" where
  "new_or_temp e srcRawObj newObj =
     (case newObj of None \<Rightarrow> ObjWrapMask srcRawObj mask_Temp | Some obj \<Rightarrow> wrapObjName e obj)"

definition op_Move :: "fs_env \<Rightarrow> string \<Rightarrow> string \<Rightarrow> unit op_m" where
  "op_Move e srcPath dstDirPath =
     check_status e
       (let srcPath = FixAndCleanPath srcPath in
          require (\<not> PathEqual srcPath ''/'') (OpErr ''move root folder is not allowed'')
            (let srcDirPath = path_dir srcPath; dstDirPath = FixAndCleanPath dstDirPath in
               require (dstDirPath \<noteq> srcDirPath) (OpErr ''move in place'')
                 (op_bind (op_Get e True srcPath) (\<lambda>srcRawObj.
                   require (\<not> ObjHasMask srcRawObj mask_NoMove) PermissionDenied
                     (let srcObj = UnwrapObjName srcRawObj in
                        op_bind (GetUnwrap e dstDirPath) (\<lambda>dstDir.
                          require (\<not> ObjHasMask dstDir mask_NoWrite) PermissionDenied
                            (op_bind (call_driver (map_option (\<lambda>f cs. f cs srcObj dstDir) (drvMove e)) (CallMove srcObj dstDir))
                              (\<lambda>newObj st.
                                 (let srcKey = Key e srcDirPath; dstKey = Key e dstDirPath; name = GetName srcRawObj
                                  in (Inr (), on_caches (update_listing e dstKey id name (new_or_temp e srcRawObj newObj) \<circ>
                                        remove_listed e srcKey srcRawObj \<circ>
                                        delete_links srcRawObj [path_join [srcKey, name], path_join [dstKey, name]]) st))))))))))"

definition op_Rename :: "fs_env \<Rightarrow> string \<Rightarrow> string \<Rightarrow> unit op_m" where
  "op_Rename e srcPath dstName =
     check_status e
       (let srcPath = FixAndCleanPath srcPath in
          require (\<not> PathEqual srcPath ''/'') (OpErr ''rename root folder is not allowed'')
            (op_bind (op_Get e True srcPath) (\<lambda>srcRawObj.
              require (\<not> ObjHasMask srcRawObj mask_NoRename) PermissionDenied
                (let oldName = GetName srcRawObj; srcObj = UnwrapObjName srcRawObj in
                   op_bind (call_driver (map_option (\<lambda>f cs. f cs srcObj dstName) (drvRename e)) (CallRename srcObj dstName))
                     (\<lambda>newObj st.
                        (let dirKey = Key e (path_dir srcPath);
                             new = wrapObjName e (case newObj of
                                 None \<Rightarrow> ObjWrapMask (ObjWrapName dstName srcObj) mask_Temp | Some obj \<Rightarrow> obj)
                         in (Inr (), on_caches (update_listing e dirKey (evict_tree srcRawObj (path_join [dirKey, oldName])) oldName new \<circ>
                               delete_links srcRawObj [path_join [dirKey, oldName], path_join [dirKey, dstName]]) st)))))))"

definition op_Copy :: "fs_env \<Rightarrow> string \<Rightarrow> string \<Rightarrow> unit op_m" where
  "op_Copy e srcPath dstDirPath =
     check_status e
       (let srcPath = FixAndCleanPath srcPath; dstDirPath = FixAndCleanPath dstDirPath in
          require (dstDirPath \<noteq> path_dir srcPath) (OpErr ''copy in place'')
            (op_bind (op_Get e True srcPath) (\<lambda>srcRawObj.
              (let srcObj = UnwrapObjName srcRawObj in
                 op_bind (GetUnwrap e dstDirPath) (\<lambda>dstDir.
                   require (\<not> ObjHasMask dstDir mask_NoWrite) PermissionDenied
                     (op_bind (call_driver (map_option (\<lambda>f cs. f cs srcObj dstDir) (drvCopy e)) (CallCopy srcObj dstDir))
                       (\<lambda>newObj st.
                          (let dstKey = Key e dstDirPath; name = GetName srcRawObj
                           in (Inr (), on_caches (update_listing e dstKey id name (new_or_temp e srcRawObj newObj) \<circ>
                                 delete_links srcRawObj [path_join [dstKey, name]]) st)))))))))"

text \<open>\<open>Remove\<close>: an object that is not found counts as removed.\<close>

definition op_Remove :: "fs_env \<Rightarrow> string \<Rightarrow> unit op_m" where
  "op_Remove e path =
     check_status e
       (let path = FixAndCleanPath path in
          require (\<not> PathEqual path ''/'') (OpErr ''delete root folder is not allowed'')
            (\<lambda>st. case op_Get e True path st of
               (Inl err, st) \<Rightarrow> (if err = ObjectNotFound then Inr () else Inl err, st)
             | (Inr rawObj, st) \<Rightarrow>
                 require (\<not> ObjHasMask rawObj mask_NoRemove) PermissionDenied
                   (op_bind
                     (call_driver
                       (map_option (\<lambda>f cs. case f cs (UnwrapObjName rawObj) of None \<Rightarrow> Inr () | Some err \<Rightarrow> Inl err) (drvRemove e))
                       (CallRemove (UnwrapObjName rawObj)))
                     (\<lambda>_ st. (Inr (), on_caches (removeDirectoryObject (fsClock e) (NoCache e) (Key e (path_dir path)) rawObj) st))) st))"

section \<open>Upload\<close>

definition temp_name :: "string \<Rightarrow> string" where
  "temp_name name = name @ ''.openlist_to_delete''"

text \<open>What \<open>Put\<close> does with an object that has the name of the upload: remove it when it is empty, rename it when the
  driver cannot overwrite, else tell the driver about it.\<close>

definition make_room :: "fs_env \<Rightarrow> string \<Rightarrow> FileStream \<Rightarrow> (fs_obj option \<times> FileStream) op_m" where
  "make_room e dstPath stream st =
     (case GetUnwrap e dstPath st of
        (Inl _, st) \<Rightarrow> (Inr (None, stream), st)
      | (Inr fi, st) \<Rightarrow>
          if GetSize fi = 0 then op_bind (op_Remove e dstPath) (\<lambda>_. ok (Some fi, stream)) st
          else if NoOverwriteUpload e then
            op_bind (op_Rename e dstPath (temp_name (StreamName stream))) (\<lambda>_. ok (Some fi, stream)) st
          else ok (Some fi, stream\<lparr>Exist := Some fi\<rparr>) st)"

definition upload :: "fs_env \<Rightarrow> fs_obj \<Rightarrow> FileStream \<Rightarrow> fs_obj option op_m" where
  "upload e parentDir stream =
     call_driver (map_option (\<lambda>f cs. f cs parentDir stream) (drvPut e)) (CallPut parentDir stream)"

definition after_upload :: "fs_env \<Rightarrow> string \<Rightarrow> string \<Rightarrow> FileStream \<Rightarrow> fs_obj option \<Rightarrow> caches \<Rightarrow> caches" where
  "after_upload e dstDirPath dstPath stream newObj c =
     (let new = wrapObjName e (case newObj of
            None \<Rightarrow> temp_object (StreamName stream) (StreamSize stream) (StreamModTime stream) (StreamCreateTime stream) False
          | Some obj \<Rightarrow> obj)
      in update_listing e (Key e dstDirPath) id (GetName new) new (linkCache_DeleteKey (Key e dstPath) c))"

text \<open>The end of \<open>Put\<close>: the object that was renamed is removed, or gets its name back if the upload failed.\<close>

definition settle_old :: "fs_env \<Rightarrow> string \<Rightarrow> FileStream \<Rightarrow> fs_obj option \<Rightarrow> (op_error + unit) \<Rightarrow> unit op_m" where
  "settle_old e tempPath stream fi r st =
     (if NoOverwriteUpload e \<and> (\<exists>f. fi = Some f \<and> GetSize f > 0) then
        (case r of
           Inl err \<Rightarrow> (Inl err, snd (op_Rename e tempPath (StreamName stream) st))
         | Inr _ \<Rightarrow> op_Remove e tempPath st)
      else (r, st))"

definition put_stream :: "fs_env \<Rightarrow> string \<Rightarrow> FileStream \<Rightarrow> unit op_m" where
  "put_stream e dstDirPath stream =
     (let dstDirPath = FixAndCleanPath dstDirPath;
          dstPath = path_join [dstDirPath, StreamName stream];
          tempPath = path_join [dstDirPath, temp_name (StreamName stream)]
      in op_bind (make_room e dstPath stream) (\<lambda>(fi, stream) st.
        (case op_MakeDir e dstDirPath st of
           (r, st) \<Rightarrow>
             if (case r of Inl err \<Rightarrow> err \<noteq> ObjectAlreadyExists | Inr _ \<Rightarrow> False) then (r, st)
             else op_bind (GetUnwrap e dstDirPath) (\<lambda>parentDir.
               require (\<not> ObjHasMask parentDir mask_NoWrite) PermissionDenied
                 (\<lambda>st. (let stream = (if StreamSize stream < 0 then stream\<lparr>StreamSize := fullSize e stream\<rparr> else stream) in
                    if drvPut e = None then (Inl NotImplement, st)
                    else (case upload e parentDir stream st of
                        (Inl err, st) \<Rightarrow> settle_old e tempPath stream fi (Inl err) st
                      | (Inr newObj, st) \<Rightarrow>
                          settle_old e tempPath stream fi (Inr ()) (on_caches (after_upload e dstDirPath dstPath stream newObj) st))))) st)))"

text \<open>\<open>Put\<close>; a storage that only keeps indices takes the link out of the path.\<close>

definition op_Put :: "fs_env \<Rightarrow> string \<Rightarrow> FileStream \<Rightarrow> unit op_m" where
  "op_Put e dstDirPath stream =
     check_status e
       (if OnlyIndices e then
          (case urlTreeSplitLineFormPath (path_join [dstDirPath, StreamName stream]) of
             (dir, link) \<Rightarrow>
               put_stream e dir \<lparr>StreamName = link, StreamSize = 0, StreamModTime = 0, StreamCreateTime = 0, Exist = None\<rparr>)
        else put_stream e dstDirPath stream)"

definition op_PutURL :: "fs_env \<Rightarrow> string \<Rightarrow> string \<Rightarrow> string \<Rightarrow> unit op_m" where
  "op_PutURL e dstDirPath dstName url =
     check_status e
       (let dstDirPath = FixAndCleanPath dstDirPath; dstPath = path_join [dstDirPath, dstName] in
          (\<lambda>st. case op_Get e False dstPath st of
             (Inr _, st) \<Rightarrow> (Inl ObjectAlreadyExists, st)
           | (Inl _, st) \<Rightarrow>
               op_bind (op_MakeDir e dstDirPath) (\<lambda>_.
                 op_bind (GetUnwrap e dstDirPath) (\<lambda>dstDir.
                   require (\<not> ObjHasMask dstDir mask_NoWrite) PermissionDenied
                     (op_bind
                       (call_driver (map_option (\<lambda>f cs. f cs dstDir dstName url) (drvPutURL e)) (CallPutURL dstDir dstName url))
                       (\<lambda>newObj st.
                          (let new = wrapObjName e (case newObj of
                                None \<Rightarrow> temp_object dstName 0 (opNow e) (opNow e) False | Some obj \<Rightarrow> obj)
                           in (Inr (), on_caches (update_listing e (Key e dstDirPath) id (GetName new) new \<circ>
                                 linkCache_DeleteKey (Key e dstPath)) st)))))) st))"

end
