(* ===== verification/Dir_Cache_Proofs.thy ===== *)
theory Dir_Cache_Proofs
  imports Dir_Cache
begin

text \<open>
  Facts on the cache of listings: a listing shows the objects that the changes leave, and evicting a folder removes
  exactly the cached listings below it.
\<close>

section \<open>Changes of one listing\<close>

datatype dir_change = Removed string | Updated string fs_obj | Listed

text \<open>What a change makes of the objects of a folder, and what it makes of the cached listing.\<close>

fun change_objs :: "dir_change \<Rightarrow> fs_obj list \<Rightarrow> fs_obj list" where
  "change_objs (Removed name) xs = (case remove_first name xs of None \<Rightarrow> xs | Some ys \<Rightarrow> ys)"
| "change_objs (Updated oldName new) xs =
     (case if oldName = [] then None else replace_named oldName new xs of None \<Rightarrow> xs @ [new] | Some ys \<Rightarrow> ys)"
| "change_objs Listed xs = xs"

fun dir_step :: "display \<Rightarrow> dir_change \<Rightarrow> directoryCache \<Rightarrow> directoryCache" where
  "dir_step m (Removed name) dc = RemoveObject name dc"
| "dir_step m (Updated oldName new) dc = UpdateObject oldName new dc"
| "dir_step m Listed dc = snd (GetSortedObjects m dc)"

definition permutes :: "display \<Rightarrow> bool" where
  "permutes m \<longleftrightarrow> (\<forall>xs by dir. mset (SortFiles m xs by dir) = mset xs)"

lemma mset_display_order [simp]: "permutes m \<Longrightarrow> mset (display_order m xs) = mset xs"
  by (simp add: display_order_def permutes_def)

lemma dirty_flags [simp]:
  "f OR dirtyRemove \<noteq> 0" "f OR dirtyUpdate \<noteq> 0" "(f OR dirtyUpdate) AND dirtyUpdate \<noteq> 0"
  "(0 OR dirtyRemove) AND dirtyUpdate = 0"
  unfolding dirtyRemove_def dirtyUpdate_def
  by (auto simp: bit_eq_iff bit_simps intro: exI [of _ 0] exI [of _ 1])

definition listing_ok :: "directoryCache \<Rightarrow> bool" where
  "listing_ok dc \<longleftrightarrow> (dirtyFlags dc = 0 \<longrightarrow> mset (sorted_objs dc) = mset (objs dc))"

lemma dir_step_objs: "objs (dir_step m ch dc) = change_objs ch (objs dc)"
  by (cases ch) (auto simp: RemoveObject_def UpdateObject_def GetSortedObjects_def Let_def split: option.split)

lemma dir_step_ok: "permutes m \<Longrightarrow> listing_ok dc \<Longrightarrow> listing_ok (dir_step m ch dc)"
  by (cases ch) (auto simp: listing_ok_def RemoveObject_def UpdateObject_def GetSortedObjects_def Let_def split: option.split)

lemma GetSortedObjects_mset: "permutes m \<Longrightarrow> listing_ok dc \<Longrightarrow> mset (fst (GetSortedObjects m dc)) = mset (objs dc)"
  by (auto simp: listing_ok_def GetSortedObjects_def Let_def)

text \<open>A listing after any changes.\<close>

lemma dir_steps:
  assumes "permutes m"
  shows "listing_ok dc \<Longrightarrow> listing_ok (fold (dir_step m) changes dc) \<and>
    objs (fold (dir_step m) changes dc) = fold change_objs changes (objs dc)"
  by (induction changes arbitrary: dc) (simp_all add: dir_step_objs dir_step_ok [OF assms] del: change_objs.simps dir_step.simps)

lemma listing_ok_new: "listing_ok (newDirectoryCache xs)"
  by (simp add: listing_ok_def newDirectoryCache_def)

text \<open>Where names are distinct, removing a name leaves the objects with other names.\<close>

lemma remove_first_distinct:
  "distinct (map GetName xs) \<Longrightarrow> change_objs (Removed name) xs = filter (\<lambda>x. GetName x \<noteq> name) xs"
proof (induction xs)
  case (Cons x xs)
  show ?case
  proof (cases "GetName x = name")
    case True
    then have "filter (\<lambda>x. GetName x \<noteq> name) xs = xs" using Cons.prems by (intro filter_True) (auto simp: image_iff)
    then show ?thesis using True by simp
  next
    case False
    then show ?thesis using Cons by (simp split: option.splits)
  qed
qed simp

lemma removed_listing:
  assumes "permutes m" "listing_ok dc" "distinct (map GetName (objs dc))"
  shows "mset (fst (GetSortedObjects m (RemoveObject name dc))) = filter_mset (\<lambda>x. GetName x \<noteq> name) (mset (objs dc))"
  using GetSortedObjects_mset [OF assms(1) dir_step_ok [OF assms(1,2)], of "Removed name"]
  unfolding dir_step_objs remove_first_distinct [OF assms(3)] by simp

section \<open>Eviction of a folder\<close>

definition cached :: "caches \<Rightarrow> string \<Rightarrow> bool" where
  "cached c key \<longleftrightarrow> map_of (dirCache c) key \<noteq> None"

lemma cached_entry: "map_of (dirCache c) k = Some e \<Longrightarrow> cached c k" "map_of (dirCache c) k = None \<Longrightarrow> \<not> cached c k"
  by (simp_all add: cached_def)

text \<open>The cached listings that a cached listing leads to.\<close>

inductive below :: "caches \<Rightarrow> string \<Rightarrow> string \<Rightarrow> bool" for c key where
  below_self: "cached c key \<Longrightarrow> below c key key"
| below_step: "below c key k \<Longrightarrow> map_of (dirCache c) k = Some (dc, expiration) \<Longrightarrow> obj \<in> set (objs dc) \<Longrightarrow> IsDir obj \<Longrightarrow>
    cached c (path_join [k, GetName obj]) \<Longrightarrow> below c key (path_join [k, GetName obj])"

text \<open>One step of the loop over the objects of a folder.\<close>

definition evict_obj :: "nat \<Rightarrow> string \<Rightarrow> fs_obj \<Rightarrow> caches \<Rightarrow> caches" where
  "evict_obj n key obj c = (if IsDir obj then delete_tree n (path_join [key, GetName obj]) c
     else linkCache_DeleteKey (path_join [key, GetName obj]) c)"

lemma delete_tree_Suc:
  "delete_tree (Suc n) key c =
     (case map_of (dirCache c) key of
        None \<Rightarrow> c
      | Some (dc, _) \<Rightarrow> fold (evict_obj n key) (objs dc) (c\<lparr>dirCache := AList.delete key (dirCache c)\<rparr>))"
  by (auto simp: evict_obj_def [abs_def] split: option.split)

declare delete_tree.simps(2) [simp del]

text \<open>Entries only leave the cache.\<close>

definition shrinks :: "caches \<Rightarrow> caches \<Rightarrow> bool" where
  "shrinks c c' \<longleftrightarrow> length (dirCache c') \<le> length (dirCache c) \<and>
     (\<forall>k. cached c' k \<longrightarrow> map_of (dirCache c') k = map_of (dirCache c) k)"

lemma shrinks_refl [simp]: "shrinks c c"
  by (simp add: shrinks_def)

lemma shrinks_trans: "shrinks c c' \<Longrightarrow> shrinks c' c'' \<Longrightarrow> shrinks c c''"
  unfolding shrinks_def cached_def by (metis le_trans)

lemma shrinks_delete: "shrinks c (c\<lparr>dirCache := AList.delete key (dirCache c)\<rparr>)"
  by (auto simp: shrinks_def cached_def delete_conv' length_delete_le split: if_splits)

lemma shrinks_link [simp]: "shrinks c (linkCache_DeleteKey key c)"
  by (simp add: shrinks_def cached_def linkCache_DeleteKey_def)

lemma shrinks_fold: "(\<And>x c. shrinks c (f x c)) \<Longrightarrow> shrinks c (fold f xs c)"
  by (induction xs arbitrary: c) (auto intro: shrinks_trans)

lemma delete_tree_shrinks: "shrinks c (delete_tree n key c)"
proof (induction n arbitrary: key c)
  case (Suc n)
  have "shrinks c (evict_obj n k x c)" for k x c
    using Suc by (simp add: evict_obj_def)
  then show ?case
    by (auto simp: delete_tree_Suc split: option.split intro: shrinks_trans [OF shrinks_delete shrinks_fold])
qed simp

lemma evict_obj_shrinks: "shrinks c (evict_obj n key x c)"
  by (simp add: evict_obj_def delete_tree_shrinks)

lemma shrinks_entry: "shrinks c c' \<Longrightarrow> cached c' k \<Longrightarrow> map_of (dirCache c') k = map_of (dirCache c) k"
  by (simp add: shrinks_def)

lemma shrinks_cached: "shrinks c c' \<Longrightarrow> cached c' k \<Longrightarrow> cached c k"
  by (metis shrinks_entry cached_def)

lemma shrinks_length: "shrinks c c' \<Longrightarrow> length (dirCache c') \<le> length (dirCache c)"
  by (simp add: shrinks_def)

lemma length_delete_less: "map_of al k \<noteq> None \<Longrightarrow> length (AList.delete k al) < length al"
  by (induction al) (auto simp: le_imp_less_Suc length_delete_le)

lemma below_mono: "below c' key k \<Longrightarrow> shrinks c c' \<Longrightarrow> below c key k"
proof (induction rule: below.induct)
  case below_self
  then show ?case using shrinks_cached [of c c' key] by (intro below.below_self) simp
next
  case (below_step k dc expiration obj)
  then have "map_of (dirCache c) k = Some (dc, expiration)" "cached c (path_join [k, GetName obj])"
    using shrinks_entry [of c c' k] shrinks_cached cached_entry(1) by auto
  then show ?case using below_step by (blast intro: below.below_step)
qed

lemma below_trans: "below c k k' \<Longrightarrow> below c key k \<Longrightarrow> below c key k'"
  by (induction rule: below.induct) (auto intro: below.below_step)

text \<open>No listing that left the cache leads to one that stayed.\<close>

definition closed_evict :: "caches \<Rightarrow> caches \<Rightarrow> bool" where
  "closed_evict c c' \<longleftrightarrow> (\<forall>k dc expiration obj. map_of (dirCache c) k = Some (dc, expiration) \<longrightarrow> \<not> cached c' k \<longrightarrow>
     obj \<in> set (objs dc) \<longrightarrow> IsDir obj \<longrightarrow> \<not> cached c' (path_join [k, GetName obj]))"

lemma closed_evict_trans:
  assumes "closed_evict c c'" "closed_evict c' c''" "shrinks c c'" "shrinks c' c''"
  shows "closed_evict c c''"
  unfolding closed_evict_def
proof (intro allI impI)
  fix k dc expiration obj
  assume k: "map_of (dirCache c) k = Some (dc, expiration)" "\<not> cached c'' k" "obj \<in> set (objs dc)" "IsDir obj"
  show "\<not> cached c'' (path_join [k, GetName obj])"
  proof (cases "cached c' k")
    case True
    then have "map_of (dirCache c') k = Some (dc, expiration)" using shrinks_entry [OF assms(3)] k by simp
    then show ?thesis using assms(2) k unfolding closed_evict_def by blast
  next
    case False
    then show ?thesis using assms(1) k shrinks_cached [OF assms(4)] unfolding closed_evict_def by blast
  qed
qed

definition evicts :: "string \<Rightarrow> caches \<Rightarrow> caches \<Rightarrow> bool" where
  "evicts key c c' \<longleftrightarrow> shrinks c c' \<and> \<not> cached c' key \<and> closed_evict c c' \<and>
     (\<forall>k. cached c k \<longrightarrow> \<not> cached c' k \<longrightarrow> below c key k)"

lemma closed_evict_same: "dirCache c' = dirCache c \<Longrightarrow> closed_evict c c'"
  by (simp add: closed_evict_def cached_def)

lemma evict_objs:
  assumes IH: "\<And>k c. length (dirCache c) < n \<Longrightarrow> evicts k c (delete_tree n k c)" and "length (dirCache c) < n"
  shows "shrinks c (fold (evict_obj n key) xs c) \<and> closed_evict c (fold (evict_obj n key) xs c) \<and>
    (\<forall>x \<in> set xs. IsDir x \<longrightarrow> \<not> cached (fold (evict_obj n key) xs c) (path_join [key, GetName x])) \<and>
    (\<forall>k. cached c k \<longrightarrow> \<not> cached (fold (evict_obj n key) xs c) k \<longrightarrow>
       (\<exists>x \<in> set xs. IsDir x \<and> below c (path_join [key, GetName x]) k))"
  using assms(2)
proof (induction xs arbitrary: c)
  case Nil
  then show ?case by (simp add: closed_evict_same)
next
  case (Cons x xs)
  let ?c1 = "evict_obj n key x c"
  let ?c2 = "fold (evict_obj n key) xs ?c1"
  have step: "shrinks c ?c1" by (rule evict_obj_shrinks)
  have dir: "IsDir x \<Longrightarrow> evicts (path_join [key, GetName x]) c ?c1"
    using IH Cons.prems by (simp add: evict_obj_def)
  have leaf: "\<not> IsDir x \<Longrightarrow> dirCache ?c1 = dirCache c"
    by (simp add: evict_obj_def linkCache_DeleteKey_def)
  note IH' = Cons.IH [of ?c1] and len = shrinks_length [OF step]
  have rest: "shrinks ?c1 ?c2" "closed_evict ?c1 ?c2"
      "\<And>y. y \<in> set xs \<Longrightarrow> IsDir y \<Longrightarrow> \<not> cached ?c2 (path_join [key, GetName y])"
      "\<And>k. cached ?c1 k \<Longrightarrow> \<not> cached ?c2 k \<Longrightarrow> \<exists>y \<in> set xs. IsDir y \<and> below ?c1 (path_join [key, GetName y]) k"
    using IH' len Cons.prems by auto
  have "closed_evict c ?c1"
    using dir leaf closed_evict_same unfolding evicts_def by blast
  then have "closed_evict c ?c2" by (rule closed_evict_trans [OF _ rest(2) step rest(1)])
  moreover have "\<not> cached ?c2 (path_join [key, GetName y])" if "y \<in> set (x # xs)" "IsDir y" for y
    using that rest(3) dir shrinks_cached [OF rest(1)] unfolding evicts_def by fastforce
  moreover have "\<exists>y \<in> set (x # xs). IsDir y \<and> below c (path_join [key, GetName y]) k" if "cached c k" "\<not> cached ?c2 k" for k
  proof (cases "cached ?c1 k")
    case True
    then show ?thesis using rest(4) that(2) below_mono [OF _ step] by auto
  next
    case False
    then show ?thesis using that(1) dir leaf unfolding evicts_def cached_def by fastforce
  qed
  ultimately show ?case using shrinks_trans [OF step rest(1)] by simp
qed

lemma delete_tree_evicts: "length (dirCache c) < n \<Longrightarrow> evicts key c (delete_tree n key c)"
proof (induction n arbitrary: key c)
  case (Suc n)
  show ?case
  proof (cases "map_of (dirCache c) key")
    case None
    then show ?thesis by (simp add: evicts_def delete_tree_Suc closed_evict_same cached_entry)
  next
    case (Some e)
    obtain dc expiration where e: "e = (dc, expiration)" by (cases e)
    let ?c1 = "c\<lparr>dirCache := AList.delete key (dirCache c)\<rparr>"
    let ?c2 = "fold (evict_obj n key) (objs dc) ?c1"
    have tree: "delete_tree (Suc n) key c = ?c2" by (simp add: delete_tree_Suc Some e)
    have "length (dirCache ?c1) < length (dirCache c)" using Some by (simp add: length_delete_less)
    then have "length (dirCache ?c1) < n" using Suc.prems by simp
    note rest = evict_objs [OF Suc.IH this, of key "objs dc"]
    have first: "shrinks c ?c1" by (rule shrinks_delete)
    have same: "k \<noteq> key \<Longrightarrow> map_of (dirCache ?c1) k = map_of (dirCache c) k" for k by (simp add: delete_conv')
    have "\<not> cached ?c1 key" by (simp add: cached_def delete_conv')
    then have gone: "\<not> cached ?c2 key" using rest shrinks_cached [of ?c1 ?c2 key] by blast
    have "closed_evict c ?c2"
      unfolding closed_evict_def
    proof (intro allI impI)
      fix k d x obj
      assume k: "map_of (dirCache c) k = Some (d, x)" "\<not> cached ?c2 k" "obj \<in> set (objs d)" "IsDir obj"
      show "\<not> cached ?c2 (path_join [k, GetName obj])"
      proof (cases "k = key")
        case True
        then show ?thesis using k Some e rest by auto
      next
        case False
        then show ?thesis using k same [OF False] rest unfolding closed_evict_def by metis
      qed
    qed
    moreover have "below c key k" if out: "cached c k" "\<not> cached ?c2 k" for k
    proof (cases "k = key")
      case True
      then show ?thesis using out by (simp add: below_self)
    next
      case False
      then have "cached ?c1 k" using out(1) same [OF False] by (simp add: cached_def)
      then obtain y where y: "y \<in> set (objs dc)" "IsDir y" "below ?c1 (path_join [key, GetName y]) k"
        using rest out(2) by blast
      then have b: "below c (path_join [key, GetName y]) k" using below_mono [OF _ first] by blast
      then have "cached c (path_join [key, GetName y])" by (induction rule: below.induct) auto
      then have "below c key (path_join [key, GetName y])"
        using Some y(1,2) by (intro below_step [OF below_self]) (auto simp: e cached_def)
      then show ?thesis by (rule below_trans [OF b])
    qed
    ultimately show ?thesis
      unfolding tree evicts_def using gone rest shrinks_trans [OF first] by blast
  qed
qed simp

text \<open>Evicting a folder removes the cached listings it leads to, and no others.\<close>

lemma deleteDirectoryTree_iff:
  "cached (deleteDirectoryTree key c) k \<longleftrightarrow> cached c k \<and> \<not> below c key k"
proof -
  have ev: "evicts key c (deleteDirectoryTree key c)"
    unfolding deleteDirectoryTree_def by (rule delete_tree_evicts) simp
  have "\<not> cached (deleteDirectoryTree key c) k" if "below c key k" for k
    using that
  proof (induction rule: below.induct)
    case below_self
    then show ?case using ev by (simp add: evicts_def)
  next
    case (below_step k dc expiration obj)
    then show ?case using ev unfolding evicts_def closed_evict_def by blast
  qed
  then show ?thesis using ev shrinks_cached unfolding evicts_def by blast
qed

end
