(* ===== verification/Op_Fs_Proofs.thy ===== *)
theory Op_Fs_Proofs
  imports Op_Fs Dir_Cache_Proofs
begin

text \<open>
  Lemmas on the operations of a storage: lookups change only the caches, what a made folder, a removal and an upload ask of
  the driver, and what they leave in the cache.
\<close>

section \<open>Lookups call no method that changes the storage\<close>

definition quiet :: "'a op_m \<Rightarrow> bool" where
  "quiet m \<longleftrightarrow> (\<forall>st. calls (snd (m st)) = calls st)"

named_theorems quiet_intros

lemma quietI: "(\<And>st r st'. m st = (r, st') \<Longrightarrow> calls st' = calls st) \<Longrightarrow> quiet m"
  unfolding quiet_def by (metis prod.collapse)

lemma quietD: "quiet m \<Longrightarrow> m st = (r, st') \<Longrightarrow> calls st' = calls st"
  by (metis quiet_def snd_conv)

lemma quiet_basic [quiet_intros]: "quiet (ok x)" "quiet (fail err)"
  by (simp_all add: quiet_def ok_def fail_def)

lemma quiet_bind [quiet_intros]: "quiet m \<Longrightarrow> (\<And>x. quiet (f x)) \<Longrightarrow> quiet (op_bind m f)"
  unfolding quiet_def op_bind_def by (auto split: prod.splits sum.splits) (metis snd_conv)+

lemma quiet_require [quiet_intros]: "quiet k \<Longrightarrow> quiet (require b err k)"
  by (simp add: require_def quiet_basic)

lemma quiet_status [quiet_intros]: "quiet k \<Longrightarrow> quiet (check_status e k)"
  by (simp add: check_status_def quiet_require)

lemma cached_listing_calls: "cached_listing e key st = (r, st') \<Longrightarrow> calls st' = calls st"
  by (auto simp: cached_listing_def split: prod.splits option.splits)

lemma store_listing_calls [simp]: "calls (store_listing e path xs st) = calls st"
  by (simp add: store_listing_def on_caches_def)

lemma quiet_fresh_list: "quiet (get path) \<Longrightarrow> quiet (fresh_list get e path)"
  unfolding fresh_list_def
  by (intro quiet_intros) (auto simp: quiet_def Let_def split: sum.split)

lemma quiet_cached:
  assumes "quiet fresh" "\<And>xs. quiet (hit xs)"
  shows "quiet (\<lambda>st. case cached_listing e key st of (Some xs, st) \<Rightarrow> hit xs st | (None, st) \<Rightarrow> fresh st)"
  using assms by (intro quietI) (fastforce split: prod.splits option.splits dest: cached_listing_calls quietD)

lemma quiet_list_via: "quiet (get (FixAndCleanPath path)) \<Longrightarrow> quiet (list_via get e refresh validator path)"
proof -
  assume "quiet (get (FixAndCleanPath path))"
  then have fresh: "quiet (op_bind (fresh_list get e (FixAndCleanPath path))
      (\<lambda>files. case validator files of None \<Rightarrow> ok files | Some err \<Rightarrow> fail err))" (is "quiet ?fresh")
    by (intro quiet_intros quiet_fresh_list) (auto intro: quiet_intros split: option.split)
  have "quiet (\<lambda>st. if validator xs = None then (Inr xs, st) else ?fresh st)" for xs
    using fresh by (simp add: quiet_def)
  from quiet_cached [OF fresh this] fresh show ?thesis
    unfolding list_via_def Let_def by (intro quiet_status) simp
qed

lemma get_prefix_calls: "get_prefix e x path st = (r, st') \<Longrightarrow> calls st' = calls st"
  by (auto simp: get_prefix_def get_driver_def root_obj_def Let_def split: prod.splits option.splits if_splits sum.splits
      dest!: cached_listing_calls)

lemma quiet_op_Get: "quiet (op_Get e x path)"
proof (induction e x path rule: op_Get.induct)
  case (1 e x path)
  show ?case
  proof (rule quietI)
    fix st r st'
    assume get: "op_Get e x path st = (r, st')"
    show "calls st' = calls st"
    proof (cases "working e")
      case False
      then show ?thesis using get by (simp add: op_Get.simps)
    next
      case True
      obtain g st1 where pre: "get_prefix e x (FixAndCleanPath path) st = (g, st1)" by fastforce
      show ?thesis
      proof (cases g)
        case (GetDone r')
        then show ?thesis using get True pre get_prefix_calls [OF pre] by (simp add: op_Get.simps)
      next
        case (GetList refresh)
        obtain dir name where split: "path_split (FixAndCleanPath path) = (dir, name)" by fastforce
        have pre': "(GetList refresh, st1) = get_prefix e x (FixAndCleanPath path) st"
          and split': "(dir, name) = path_split (FixAndCleanPath path)"
          using pre GetList split by simp_all
        have "quiet (op_Get e True (FixAndCleanPath dir))"
          by (rule "1.IH") (rule pre' | rule split' | rule refl | simp add: True)+
        then have "quiet (list_via (op_Get e True) e refresh (get_validator x name) dir)"
          by (rule quiet_list_via)
        then show ?thesis
          using get True pre GetList split get_prefix_calls [OF pre]
          by (auto simp: op_Get.simps [of e x] split: prod.splits sum.splits option.splits dest: quietD)
      qed
    qed
  qed
qed

lemmas op_Get_calls = quietD [OF quiet_op_Get]

lemma quiet_GetUnwrap: "quiet (GetUnwrap e path)"
  unfolding GetUnwrap_def by (intro quiet_intros quiet_op_Get)

lemmas GetUnwrap_calls = quietD [OF quiet_GetUnwrap]

lemma quiet_op_List: "quiet (op_List e refresh path)"
  unfolding op_List_def by (intro quiet_list_via quiet_op_Get)

section \<open>Making a folder and its ancestors\<close>

text \<open>The lookups that search for the innermost folder that exists, from the whole path outwards: the state before the lookup
  that leaves out \<open>k\<close> components, and its answer.\<close>

primrec looked :: "fs_env \<Rightarrow> string list \<Rightarrow> nat \<Rightarrow> fs_state \<Rightarrow> fs_state" where
  "looked e cs 0 st = st"
| "looked e cs (Suc k) st = snd (op_Get e False (abs_path (take (length cs - k) cs)) (looked e cs k st))"

definition lookup_answer :: "fs_env \<Rightarrow> string list \<Rightarrow> nat \<Rightarrow> fs_state \<Rightarrow> op_error + fs_obj" where
  "lookup_answer e cs k st = fst (op_Get e False (abs_path (take (length cs - k) cs)) (looked e cs k st))"

text \<open>Making folders below one another, from the outside in.\<close>

fun make_each :: "fs_env \<Rightarrow> string list \<Rightarrow> string list \<Rightarrow> unit op_m" where
  "make_each e ps [] = ok ()"
| "make_each e ps (n # ns) = op_bind (make_in_parent e (abs_path ps) n) (\<lambda>_. make_each e (ps @ [n]) ns)"

lemma looked_calls [simp]: "calls (looked e cs k st) = calls st"
  using quiet_op_Get by (induction k) (simp_all add: quiet_def)

lemma on_caches_calls [simp]: "calls (on_caches f st) = calls st"
  by (simp add: on_caches_def)

lemma call_driver_calls:
  "call_driver f call st = (r, st') \<Longrightarrow> f = None \<and> r = Inl NotImplement \<and> st' = st \<or>
    (\<exists>g. f = Some g \<and> r = g (calls st) \<and> calls st' = calls st @ [call] \<and> fcaches st' = fcaches st)"
  by (auto simp: call_driver_def record_call_def split: option.splits)

text \<open>A folder was made: the driver was asked to make it in the object found at the path of its parent, and did not refuse.\<close>

definition made_in :: "fs_env \<Rightarrow> string \<Rightarrow> string \<Rightarrow> fs_state \<Rightarrow> fs_obj \<Rightarrow> bool" where
  "made_in e parentPath name st d \<longleftrightarrow> fst (GetUnwrap e parentPath st) = Inr d \<and> IsDir d \<and> \<not> ObjHasMask d mask_NoWrite \<and>
     (\<exists>f. drvMakeDir e = Some f \<and> (\<forall>err. f (calls st) d name = Inl err \<longrightarrow> err = ObjectAlreadyExists))"

lemma make_in_parent_made:
  assumes "make_in_parent e parentPath name st = (Inr (), st')"
  shows "\<exists>d. made_in e parentPath name st d \<and> calls st' = calls st @ [CallMakeDir d name]"
proof -
  obtain g st1 where get: "GetUnwrap e parentPath st = (g, st1)" by fastforce
  note same = GetUnwrap_calls [OF get]
  obtain d where d: "g = Inr d" using assms get by (cases g) (auto simp: make_in_parent_def op_bind_def)
  have ok: "IsDir d" "\<not> ObjHasMask d mask_NoWrite"
    using assms get d by (auto simp: make_in_parent_def op_bind_def require_def fail_def split: if_splits)
  obtain r2 st2 where call: "call_driver (map_option (\<lambda>f cs. f cs d name) (drvMakeDir e)) (CallMakeDir d name) st1 = (r2, st2)"
    by fastforce
  then have made: "calls st' = calls st2 \<and> (\<forall>err. r2 = Inl err \<longrightarrow> err = ObjectAlreadyExists)"
    using assms get d ok by (auto simp: make_in_parent_def op_bind_def require_def Let_def split: if_splits sum.splits)
  then obtain f where "drvMakeDir e = Some f" "r2 = f (calls st) d name" "calls st2 = calls st @ [CallMakeDir d name]"
    using call_driver_calls [OF call] same by auto
  then show ?thesis using made get d ok by (auto simp: made_in_def)
qed

lemma make_each_made:
  "make_each e ps ns st = (Inr (), st') \<Longrightarrow>
    \<exists>ds. length ds = length ns \<and> calls st' = calls st @ map2 CallMakeDir ds ns \<and>
      (\<forall>j < length ns. made_in e (abs_path (ps @ take j ns)) (ns ! j) (snd (make_each e ps (take j ns) st)) (ds ! j))"
proof (induction ns arbitrary: ps st)
  case (Cons n ns)
  obtain st1 where first: "make_in_parent e (abs_path ps) n st = (Inr (), st1)"
    and rest: "make_each e (ps @ [n]) ns st1 = (Inr (), st')"
    using Cons.prems by (auto simp: op_bind_def split: prod.splits sum.splits)
  obtain d where d: "made_in e (abs_path ps) n st d" "calls st1 = calls st @ [CallMakeDir d n]"
    using make_in_parent_made [OF first] by blast
  obtain ds where ds: "length ds = length ns" "calls st' = calls st1 @ map2 CallMakeDir ds ns"
      "\<And>j. j < length ns \<Longrightarrow> made_in e (abs_path ((ps @ [n]) @ take j ns)) (ns ! j) (snd (make_each e (ps @ [n]) (take j ns) st1)) (ds ! j)"
    using Cons.IH [OF rest] by blast
  have "made_in e (abs_path (ps @ take j (n # ns))) ((n # ns) ! j) (snd (make_each e ps (take j (n # ns)) st)) ((d # ds) ! j)"
    if "j < length (n # ns)" for j
    using that d(1) ds(3) first by (cases j) (simp_all add: ok_def op_bind_def)
  then show ?case using ds(1,2) d(2) by (intro exI [of _ "d # ds"]) simp
qed (simp add: ok_def)

text \<open>Paths are cleaned first.\<close>

lemma FixAndCleanPath_abs: "FixAndCleanPath (abs_path (path_comps p)) = FixAndCleanPath p"
  by (simp add: FixAndCleanPath_comps)

lemma op_Get_clean: "op_Get e x (abs_path (path_comps p)) = op_Get e x p"
  unfolding op_Get.simps [of e x p] op_Get.simps [of e x "abs_path (path_comps p)"] FixAndCleanPath_abs ..

lemma op_MakeDir_clean: "op_MakeDir e (abs_path (path_comps p)) = op_MakeDir e p"
  unfolding op_MakeDir.simps [of e p] op_MakeDir.simps [of e "abs_path (path_comps p)"] FixAndCleanPath_abs ..

lemma make_in_parent_trailing:
  assumes "p \<noteq> []"
  shows "make_in_parent e (p @ ''/'') name = make_in_parent e p name"
proof -
  have get: "GetUnwrap e (p @ ''/'') = GetUnwrap e p"
    using op_Get_clean [of e True "p @ ''/''"] op_Get_clean [of e True p] by (simp add: GetUnwrap_def)
  have key: "Key e (p @ ''/'') = Key e p"
    using assms by (simp add: Key_def GetFullPath_def path_join_trailing)
  show ?thesis unfolding make_in_parent_def get key ..
qed

lemma op_MakeDir_step:
  assumes "working e"
  shows "op_MakeDir e path st =
    (case op_Get e False (abs_path (path_comps path)) st of
       (Inr f, st1) \<Rightarrow> (if IsDir f then Inr () else Inl (OpErr ''file exists''), st1)
     | (Inl err, st1) \<Rightarrow>
         if err \<noteq> ObjectNotFound then (Inl err, st1)
         else if path_comps path = [] then (Inl Deadlock, st1)
         else op_bind (op_MakeDir e (abs_path (butlast (path_comps path))))
           (\<lambda>_. make_in_parent e (abs_path (butlast (path_comps path))) (last (path_comps path))) st1)"
proof (cases "path_comps path" rule: rev_cases)
  case Nil
  then show ?thesis using assms
    by (simp add: op_MakeDir.simps [of e path] FixAndCleanPath_comps abs_path_def split: prod.split sum.split)
next
  case (snoc cs c)
  have good: "good_comps cs" "good_comp c" using path_comps_good [of path] by (simp_all add: snoc)
  define dir where "dir = (if cs = [] then ''/'' else abs_path cs @ ''/'')"
  have split: "path_split (abs_path (cs @ [c])) = (dir, c)" unfolding dir_def by (rule path_split_abs_snoc [OF good(2)])
  have "path_comps (abs_path cs) = cs"
    by (rule path_comps_abs_path [OF good(1)]) (use path_comps_no_backslash [of _ path] in \<open>auto simp: snoc\<close>)
  then have "op_MakeDir e dir = op_MakeDir e (abs_path cs)"
    using op_MakeDir_clean [of e dir] by (cases "cs = []") (simp_all add: dir_def)
  moreover have "make_in_parent e dir c = make_in_parent e (abs_path cs) c"
    using make_in_parent_trailing [of "abs_path cs" e c] by (simp add: dir_def abs_path_def)
  moreover have "abs_path (cs @ [c]) \<noteq> ''/''"
    using abs_path_inject [of "cs @ [c]" "[]"] good by (auto simp: abs_path_def)
  ultimately show ?thesis using assms
    by (simp add: op_MakeDir.simps [of e path] FixAndCleanPath_comps snoc split op_bind_def split: prod.split sum.split)
qed

lemma op_bind_assoc: "op_bind (op_bind m f) g st = op_bind m (\<lambda>x. op_bind (f x) g) st"
  by (simp add: op_bind_def split: prod.split sum.split)

lemma op_bind_ok: "op_bind m ok st = m st"
  by (simp add: op_bind_def ok_def split: prod.split sum.split)

lemma path_comps_take: "path_comps (abs_path (take n (path_comps p))) = take n (path_comps p)"
  using path_comps_good [of p] path_comps_no_backslash [of _ p]
  by (intro path_comps_abs_path) (auto simp: good_comps_def dest: in_set_takeD)

lemma op_MakeDir_looked:
  assumes "working e" "cs = path_comps path" "k \<le> length cs" "\<forall>j < k. lookup_answer e cs j st = Inl ObjectNotFound"
  shows "op_MakeDir e path st =
    op_bind (op_MakeDir e (abs_path (take (length cs - k) cs)))
      (\<lambda>_. make_each e (take (length cs - k) cs) (drop (length cs - k) cs)) (looked e cs k st)"
  using assms(3,4)
proof (induction k)
  case 0
  then show ?case by (simp add: op_bind_ok assms(2) op_MakeDir_clean)
next
  case (Suc k)
  define i where "i = length cs - Suc k"
  define ps where "ps = take i cs"
  have i: "length cs - k = Suc i" "i < length cs" using Suc.prems(1) by (simp_all add: i_def)
  have ps: "take (Suc i) cs = ps @ [cs ! i]" "drop i cs = cs ! i # drop (Suc i) cs"
    using i(2) by (simp_all add: ps_def take_Suc_conv_app_nth Cons_nth_drop_Suc)
  have comps: "path_comps (abs_path (ps @ [cs ! i])) = ps @ [cs ! i]"
    using path_comps_take [of "Suc i" path] unfolding assms(2) [symmetric] ps(1) .
  let ?st = "looked e cs k st"
  have next_st: "looked e cs (Suc k) st = snd (op_Get e False (abs_path (ps @ [cs ! i])) ?st)" by (simp add: i(1) ps(1))
  have "fst (op_Get e False (abs_path (ps @ [cs ! i])) ?st) = Inl ObjectNotFound"
    using Suc.prems(2) [rule_format, of k] by (simp add: lookup_answer_def i(1) ps(1))
  then have get: "op_Get e False (abs_path (ps @ [cs ! i])) ?st = (Inl ObjectNotFound, looked e cs (Suc k) st)"
    unfolding next_st by (metis prod.collapse)
  have step: "op_MakeDir e (abs_path (ps @ [cs ! i])) ?st =
      op_bind (op_MakeDir e (abs_path ps)) (\<lambda>_. make_in_parent e (abs_path ps) (cs ! i)) (looked e cs (Suc k) st)"
    unfolding op_MakeDir_step [OF assms(1), of "abs_path (ps @ [cs ! i])"] comps get by simp
  have "op_MakeDir e path st =
      op_bind (op_MakeDir e (abs_path (ps @ [cs ! i]))) (\<lambda>_. make_each e (ps @ [cs ! i]) (drop (Suc i) cs)) ?st"
    using Suc.IH Suc.prems by (simp add: i(1) ps(1))
  also have "\<dots> = op_bind (op_bind (op_MakeDir e (abs_path ps)) (\<lambda>_. make_in_parent e (abs_path ps) (cs ! i)))
      (\<lambda>_. make_each e (ps @ [cs ! i]) (drop (Suc i) cs)) (looked e cs (Suc k) st)"
    by (simp only: op_bind_def step)
  also have "\<dots> = op_bind (op_MakeDir e (abs_path ps)) (\<lambda>_. make_each e ps (drop i cs)) (looked e cs (Suc k) st)"
    unfolding op_bind_assoc ps(2) make_each.simps ..
  finally show ?case by (simp add: ps_def i_def)
qed

text \<open>The first lookup with another answer decides: an error or a file is the end, and below a folder the missing ones are made.\<close>

lemma op_MakeDir_found:
  assumes "working e" "cs = path_comps path" "k \<le> length cs" "\<forall>j < k. lookup_answer e cs j st = Inl ObjectNotFound"
    and "lookup_answer e cs k st = a" "a \<noteq> Inl ObjectNotFound"
  shows "op_MakeDir e path st =
    (case a of
       Inl err \<Rightarrow> (Inl err, looked e cs (Suc k) st)
     | Inr f \<Rightarrow> if IsDir f then make_each e (take (length cs - k) cs) (drop (length cs - k) cs) (looked e cs (Suc k) st)
         else (Inl (OpErr ''file exists''), looked e cs (Suc k) st))"
proof -
  let ?ps = "take (length cs - k) cs"
  have comps: "path_comps (abs_path ?ps) = ?ps" using path_comps_take [of _ path] by (simp add: assms(2))
  have get: "op_Get e False (abs_path ?ps) (looked e cs k st) = (a, looked e cs (Suc k) st)"
    using assms(5) by (simp add: lookup_answer_def) (metis prod.collapse)
  have "op_MakeDir e (abs_path ?ps) (looked e cs k st) =
      (case a of Inl err \<Rightarrow> (Inl err, looked e cs (Suc k) st)
       | Inr f \<Rightarrow> (if IsDir f then Inr () else Inl (OpErr ''file exists''), looked e cs (Suc k) st))"
    unfolding op_MakeDir_step [OF assms(1), of "abs_path ?ps"] comps get using assms(6) by (simp split: sum.split)
  then show ?thesis
    unfolding op_MakeDir_looked [OF assms(1-4)] op_bind_def by (simp split: sum.split)
qed

section \<open>Removal\<close>

text \<open>The listing of a key is in the cache and has not expired at the next reading of the clock.\<close>

definition fresh_entry :: "(nat \<Rightarrow> int) \<Rightarrow> caches \<Rightarrow> string \<Rightarrow> bool" where
  "fresh_entry clock c key \<longleftrightarrow> (\<exists>dc expiration. map_of (dirCache c) key = Some (dc, expiration) \<and> clock (ticks c) \<le> expiration)"

lemma dirCache_Get_cases:
  obtains (hit) dc expiration where "map_of (dirCache c) key = Some (dc, expiration)" "fresh_entry clock c key"
      "dirCache_Get clock key c = (Some dc, c\<lparr>ticks := Suc (ticks c)\<rparr>)"
  | (miss) "\<not> fresh_entry clock c key" "fst (dirCache_Get clock key c) = None"
      "\<And>k. k \<noteq> key \<Longrightarrow> map_of (dirCache (snd (dirCache_Get clock key c))) k = map_of (dirCache c) k"
proof (cases "fresh_entry clock c key")
  case True
  then obtain dc expiration where "map_of (dirCache c) key = Some (dc, expiration)" "clock (ticks c) \<le> expiration"
    by (auto simp: fresh_entry_def)
  then show ?thesis using True by (intro hit) (auto simp: dirCache_Get_def)
next
  case False
  then show ?thesis
    by (intro miss) (auto simp: fresh_entry_def dirCache_Get_def delete_conv' split: option.split)
qed

lemma map_of_change_dir:
  "map_of (dirCache (change_dir key f c)) k =
    (if k = key then map_option (\<lambda>(dc, expiration). (f dc, expiration)) (map_of (dirCache c) k) else map_of (dirCache c) k)"
  by (simp add: change_dir_def map_of_map_entry split: option.split)

lemma cached_change_dir [simp]: "cached (change_dir key f c) k \<longleftrightarrow> cached c k"
  by (auto simp: cached_def map_of_change_dir)

lemma link_only [simp]: "dirCache (linkCache_DeleteKey key c) = dirCache c" "ticks (linkCache_DeleteKey key c) = ticks c"
  by (simp_all add: linkCache_DeleteKey_def)

lemma below_dirCache: "dirCache c' = dirCache c \<Longrightarrow> below c' key k \<longleftrightarrow> below c key k"
proof -
  have "below c' key k" if "below c key k" "dirCache c' = dirCache c" for c c'
    using that by (induction rule: below.induct) (auto intro: below.intros simp: cached_def)
  then show "dirCache c' = dirCache c \<Longrightarrow> below c' key k \<longleftrightarrow> below c key k" by metis
qed

lemma deleteDirectoryTree_entry:
  "cached (deleteDirectoryTree key c) k \<Longrightarrow> map_of (dirCache (deleteDirectoryTree key c)) k = map_of (dirCache c) k"
  unfolding deleteDirectoryTree_def by (rule shrinks_entry [OF delete_tree_shrinks])

lemma removeDirectoryObject_effect:
  fixes clock key obj c
  defines "c' \<equiv> removeDirectoryObject clock False key obj c"
  shows "fresh_entry clock c key \<Longrightarrow>
      (cached c' k \<longleftrightarrow> cached c k \<and> \<not> (IsDir obj \<and> below c (path_join [key, GetName obj]) k)) \<and>
      (\<forall>dc' expiration. map_of (dirCache c') key = Some (dc', expiration) \<longrightarrow>
        (\<exists>dc. map_of (dirCache c) key = Some (dc, expiration) \<and> dc' = RemoveObject (GetName obj) dc))"
    and "\<not> fresh_entry clock c key \<Longrightarrow> k \<noteq> key \<Longrightarrow> map_of (dirCache c') k = map_of (dirCache c) k"
proof -
  define c1 where "c1 = (if IsDir obj then c else linkCache_DeleteKey (path_join [key, GetName obj]) c)"
  have c1: "dirCache c1 = dirCache c" "ticks c1 = ticks c" by (simp_all add: c1_def)
  have fresh: "fresh_entry clock c1 key \<longleftrightarrow> fresh_entry clock c key" by (simp add: fresh_entry_def c1)
  have c': "c' = (case dirCache_Get clock key c1 of
             (None, c) \<Rightarrow> c
           | (Some _, c) \<Rightarrow> change_dir key (RemoveObject (GetName obj))
                 (if IsDir obj then deleteDirectoryTree (path_join [key, GetName obj]) c else c))"
    by (simp add: c'_def removeDirectoryObject_def c1_def Let_def)
  show "(cached c' k \<longleftrightarrow> cached c k \<and> \<not> (IsDir obj \<and> below c (path_join [key, GetName obj]) k)) \<and>
      (\<forall>dc' expiration. map_of (dirCache c') key = Some (dc', expiration) \<longrightarrow>
        (\<exists>dc. map_of (dirCache c) key = Some (dc, expiration) \<and> dc' = RemoveObject (GetName obj) dc))"
    if "fresh_entry clock c key"
  proof -
    from that obtain dc expiration where hit: "map_of (dirCache c1) key = Some (dc, expiration)"
        "dirCache_Get clock key c1 = (Some dc, c1\<lparr>ticks := Suc (ticks c1)\<rparr>)"
      using fresh by (cases rule: dirCache_Get_cases [of c1 key clock]) auto
    define c2 where "c2 = (if IsDir obj then deleteDirectoryTree (path_join [key, GetName obj]) (c1\<lparr>ticks := Suc (ticks c1)\<rparr>)
        else c1\<lparr>ticks := Suc (ticks c1)\<rparr>)"
    have c'_eq: "c' = change_dir key (RemoveObject (GetName obj)) c2" by (simp add: c' hit(2) c2_def)
    have below: "below (c1\<lparr>ticks := Suc (ticks c1)\<rparr>) x y \<longleftrightarrow> below c x y" for x y
      by (rule below_dirCache) (simp add: c1)
    have cached2: "cached c2 k \<longleftrightarrow> cached c k \<and> \<not> (IsDir obj \<and> below c (path_join [key, GetName obj]) k)" for k
      by (auto simp: c2_def deleteDirectoryTree_iff below) (auto simp: cached_def c1)
    have entry2: "map_of (dirCache c2) k = map_of (dirCache c) k" if "cached c2 k" for k
      using that deleteDirectoryTree_entry [of "path_join [key, GetName obj]" "c1\<lparr>ticks := Suc (ticks c1)\<rparr>" k]
      by (auto simp: c2_def c1 split: if_splits)
    have "\<exists>dc. map_of (dirCache c) key = Some (dc, x) \<and> dc' = RemoveObject (GetName obj) dc"
      if entry: "map_of (dirCache c') key = Some (dc', x)" for dc' x
    proof -
      obtain dc0 where dc0: "map_of (dirCache c2) key = Some (dc0, x)" "dc' = RemoveObject (GetName obj) dc0"
        using entry unfolding c'_eq map_of_change_dir by (cases "map_of (dirCache c2) key") auto
      have "map_of (dirCache c) key = Some (dc0, x)"
        using entry2 [OF cached_entry(1) [OF dc0(1)]] unfolding dc0(1) by (rule sym)
      then show ?thesis using dc0(2) by blast
    qed
    moreover have "cached c' k \<longleftrightarrow> cached c k \<and> \<not> (IsDir obj \<and> below c (path_join [key, GetName obj]) k)"
      using cached2 by (simp add: c'_eq)
    ultimately show ?thesis by blast
  qed
  show "map_of (dirCache c') k = map_of (dirCache c) k" if "\<not> fresh_entry clock c key" "k \<noteq> key"
    using that fresh by (cases rule: dirCache_Get_cases [of c1 key clock]) (auto simp: c' c1 split: prod.splits option.splits)
qed

lemma op_Remove_found:
  assumes "op_Get e True (FixAndCleanPath path) st = (Inr raw, st1)" "op_Remove e path st = (Inr (), st')"
  shows "\<not> ObjHasMask raw mask_NoRemove" "calls st' = calls st @ [CallRemove (UnwrapObjName raw)]"
    "fcaches st' = removeDirectoryObject (fsClock e) (NoCache e) (Key e (path_dir (FixAndCleanPath path))) raw (fcaches st1)"
proof -
  have "\<not> ObjHasMask raw mask_NoRemove \<and> calls st' = calls st1 @ [CallRemove (UnwrapObjName raw)] \<and>
    fcaches st' = removeDirectoryObject (fsClock e) (NoCache e) (Key e (path_dir (FixAndCleanPath path))) raw (fcaches st1)"
    using assms
    by (auto simp: op_Remove_def check_status_def require_def fail_def op_bind_def call_driver_def record_call_def
        on_caches_def Let_def split: if_splits option.splits sum.splits prod.splits)
  then show "\<not> ObjHasMask raw mask_NoRemove" "calls st' = calls st @ [CallRemove (UnwrapObjName raw)]"
    "fcaches st' = removeDirectoryObject (fsClock e) (NoCache e) (Key e (path_dir (FixAndCleanPath path))) raw (fcaches st1)"
    using op_Get_calls [OF assms(1)] by simp_all
qed

text \<open>Listing a folder whose listing is cached.\<close>

lemma op_List_cached:
  assumes "working e" "map_of (dirCache (fcaches st)) (Key e (FixAndCleanPath path)) = Some (dc, expiration)"
    "fsClock e (ticks (fcaches st)) \<le> expiration"
  shows "fst (op_List e False path st) = Inr (fst (GetSortedObjects (fsDisplay e) dc))"
proof -
  have "fst (cached_listing e (Key e (FixAndCleanPath path)) st) = Some (fst (GetSortedObjects (fsDisplay e) dc))"
    using assms(2,3) by (simp add: cached_listing_def dirCache_Get_def split: prod.split)
  then show ?thesis
    by (auto simp: op_List_def list_via_def check_status_def require_def assms(1) Let_def split: prod.splits option.splits)
qed

lemma op_Remove_working: "op_Remove e path st = (Inr (), st') \<Longrightarrow> working e"
  by (auto simp: op_Remove_def check_status_def require_def fail_def split: if_splits)

lemma FixAndCleanPath_dir: "FixAndCleanPath (path_dir (FixAndCleanPath path)) = path_dir (FixAndCleanPath path)"
proof (cases "path_comps path" rule: rev_cases)
  case Nil
  then show ?thesis by (simp add: FixAndCleanPath_comps abs_path_def) (simp add: path_dir_root)
next
  case (snoc cs c)
  have "good_comps cs" "good_comp c" using path_comps_good [of path] by (simp_all add: snoc)
  then have "path_dir (FixAndCleanPath path) = abs_path cs" by (simp add: FixAndCleanPath_comps snoc path_dir_abs_snoc)
  then show ?thesis using path_comps_take [of "length cs" path] by (simp add: FixAndCleanPath_comps snoc)
qed

section \<open>Renaming\<close>

lemma op_Rename_calls:
  assumes "op_Rename e path name st = (Inr (), st')"
  shows "\<exists>obj. calls st' = calls st @ [CallRename obj name]"
proof -
  obtain raw st1 where get: "op_Get e True (FixAndCleanPath path) st = (Inr raw, st1)"
    using assms
    by (auto simp: op_Rename_def check_status_def require_def fail_def op_bind_def Let_def split: if_splits sum.splits prod.splits)
  then have "calls st' = calls st1 @ [CallRename (UnwrapObjName raw) name]"
    using assms
    by (auto simp: op_Rename_def check_status_def require_def fail_def op_bind_def call_driver_def record_call_def
        Let_def split: if_splits option.splits sum.splits prod.splits)
  then show ?thesis using op_Get_calls [OF get] by simp
qed

end
