(* ===== verification/Op_Fs_Properties.thy ===== *)
theory Op_Fs_Properties
  imports Op_Fs_Proofs
begin

text \<open>
  Properties of the cache of listings and of the operations on the files of a storage.
\<close>

section \<open>A concrete storage\<close>

definition plain :: "string \<Rightarrow> int \<Rightarrow> bool \<Rightarrow> 8 word \<Rightarrow> fs_obj" where
  "plain name sz folder m = Plain \<lparr>FID = name, FPath = [], FName = name, FSize = sz, FModified = 0, FCtime = 0, FIsFolder = folder, FMask = m\<rparr>"

definition front_display :: display where
  "front_display = \<lparr>LocalSort = False, OrderBy = [], OrderDirection = [], ExtractFolderTo = ''front'', SortFiles = (\<lambda>xs _ _. xs)\<rparr>"

text \<open>The root of the storage holds the folders that were made in it, and nothing else.\<close>

definition example_fs :: fs_env where
  "example_fs = \<lparr>CheckStatus = True, NoCache = False, NoOverwriteUpload = True, OnlyIndices = False,
     fsStorage = GetStorage (example_driver 1 ''/a''), fsDisplay = front_display, fsClock = (\<lambda>n. int n), opNow = 0,
     mappingName = (\<lambda>s. s), matchGlob = (\<lambda>_ _. None), rootKind = IRootId ''root'', getter = None,
     drvList = (\<lambda>cs dir. Inr [plain n 0 True 0. CallMakeDir d n \<leftarrow> cs, GetName d = GetName dir]),
     drvMakeDir = Some (\<lambda>_ _ _. Inr None), drvMove = Some (\<lambda>_ _ _. Inr None), drvRename = Some (\<lambda>_ _ _. Inr None),
     drvCopy = Some (\<lambda>_ _ _. Inr None), drvRemove = Some (\<lambda>_ _. None), drvPut = Some (\<lambda>_ _ _. Inr None), drvPutURL = None, fullSize = StreamSize\<rparr>"

definition empty_fs :: fs_state where
  "empty_fs = \<lparr>fcaches = \<lparr>dirCache = [], linkCache = [], ticks = 0\<rparr>, calls = []\<rparr>"

lemma permutes_front: "permutes front_display"
  by (simp add: permutes_def front_display_def)

section \<open>Properties\<close>

text \<open>C35 (a listing shows the changes): whatever objects of a cached folder are removed, replaced or added, and however often it is
  listed in between, the listing shows exactly the objects that the changes leave of the original ones.\<close>

theorem listing_shows_changes:
  assumes "permutes m"
  shows "mset (fst (GetSortedObjects m (fold (dir_step m) changes (newDirectoryCache xs)))) = mset (fold change_objs changes xs)"
  using GetSortedObjects_mset [OF assms] dir_steps [OF assms listing_ok_new, of changes xs]
  by (simp add: newDirectoryCache_def)

theorem listing_shows_changes_witness:
  "mset (fst (GetSortedObjects front_display
      (fold (dir_step front_display) [Updated [] (plain ''d'' 0 True 0), Listed, Removed ''x''] (newDirectoryCache [plain ''x'' 1 False 0, plain ''y'' 2 False 0])))) =
    {#plain ''y'' 2 False 0, plain ''d'' 0 True 0#}"
  unfolding listing_shows_changes [OF permutes_front] by (simp add: plain_def)

text \<open>C40 (the order of a listing is lost): after an object was added to a cached folder and the folder was listed, removing an
  object makes the listing the objects in the order in which they were added, whatever order the storage asks for.\<close>

theorem listing_order_lost:
  assumes "remove_first name (xs @ [new]) = Some ys"
  shows "fst (GetSortedObjects m (fold (dir_step m) [Updated [] new, Listed, Removed name] (newDirectoryCache xs))) = ys"
  using assms
  by (simp add: UpdateObject_def RemoveObject_def GetSortedObjects_def newDirectoryCache_def Let_def dirtyRemove_def dirtyUpdate_def)

theorem listing_order_lost_witness:
  "fst (GetSortedObjects front_display
      (fold (dir_step front_display) [Updated [] (plain ''d'' 0 True 0), Listed, Removed ''x''] (newDirectoryCache [plain ''x'' 1 False 0, plain ''y'' 2 False 0]))) =
    [plain ''y'' 2 False 0, plain ''d'' 0 True 0] \<and>
   display_order front_display [plain ''y'' 2 False 0, plain ''d'' 0 True 0] = [plain ''d'' 0 True 0, plain ''y'' 2 False 0]"
proof
  show "fst (GetSortedObjects front_display
      (fold (dir_step front_display) [Updated [] (plain ''d'' 0 True 0), Listed, Removed ''x''] (newDirectoryCache [plain ''x'' 1 False 0, plain ''y'' 2 False 0]))) =
    [plain ''y'' 2 False 0, plain ''d'' 0 True 0]"
    by (rule listing_order_lost) (simp add: plain_def)
  show "display_order front_display [plain ''y'' 2 False 0, plain ''d'' 0 True 0] = [plain ''d'' 0 True 0, plain ''y'' 2 False 0]"
    by (simp add: display_order_def front_display_def ExtractFolder_def plain_def)
qed

text \<open>C34 (eviction): \<open>deleteDirectoryTree\<close> ends, takes exactly the cached listings out of the cache that the listing of the
  folder leads to through cached listings, and leaves the others as they are.\<close>

theorem deleteDirectoryTree_exact:
  "map_of (dirCache (deleteDirectoryTree key c)) k = (if below c key k then None else map_of (dirCache c) k)"
  using deleteDirectoryTree_iff [of key c k] deleteDirectoryTree_entry [of key c k] unfolding cached_def
  by (metis (full_types))

text \<open>C33 (missing folders): on a working storage \<open>MakeDir\<close> looks the path up, then its parent and so on, until the answer is
  something else than that the object is not found. An error or a file is the end. If it is a folder, the components below it are made
  from the outside in; if that succeeds, the driver has been asked for exactly these folders in this order, each in the folder
  that is found at the path of its parent after the ones before were made and that may be written to, and has refused none
  of them except as existing. (Only a storage whose root is not found gives no other answer.)\<close>

theorem MakeDir_makes_missing:
  assumes "working e" "cs = path_comps path" "k \<le> length cs" "\<forall>j < k. lookup_answer e cs j st = Inl ObjectNotFound"
    and "lookup_answer e cs k st = a" "a \<noteq> Inl ObjectNotFound"
    and "ps = take (length cs - k) cs" "ns = drop (length cs - k) cs" "st0 = looked e cs (Suc k) st"
  shows "op_MakeDir e path st =
      (case a of
         Inl err \<Rightarrow> (Inl err, st0)
       | Inr f \<Rightarrow> if IsDir f then make_each e ps ns st0 else (Inl (OpErr ''file exists''), st0)) \<and>
    calls st0 = calls st \<and>
    (\<forall>st'. op_MakeDir e path st = (Inr (), st') \<longrightarrow>
      (\<exists>ds. length ds = k \<and> calls st' = calls st @ map2 CallMakeDir ds ns \<and>
        (\<forall>j < k. made_in e (abs_path (ps @ take j ns)) (ns ! j) (snd (make_each e ps (take j ns) st0)) (ds ! j))))"
proof -
  note eq = op_MakeDir_found [OF assms(1-6), folded assms(7-9)]
  have calls: "calls st0 = calls st" by (simp add: assms(9) del: looked.simps)
  have len: "length ns = k" using assms(3) by (simp add: assms(8))
  have "\<exists>ds. length ds = k \<and> calls st' = calls st @ map2 CallMakeDir ds ns \<and>
      (\<forall>j < k. made_in e (abs_path (ps @ take j ns)) (ns ! j) (snd (make_each e ps (take j ns) st0)) (ds ! j))"
    if "op_MakeDir e path st = (Inr (), st')" for st'
  proof -
    have "make_each e ps ns st0 = (Inr (), st')" using that unfolding eq by (auto split: sum.splits if_splits)
    from make_each_made [OF this] show ?thesis unfolding len calls .
  qed
  then show ?thesis using eq calls by blast
qed

theorem MakeDir_makes_missing_witness:
  "\<exists>st' d1 d2. op_MakeDir example_fs ''/x/y'' empty_fs = (Inr (), st') \<and> calls st' = [CallMakeDir d1 ''x'', CallMakeDir d2 ''y'']"
proof -
  let ?e = example_fs and ?cs = "[''x'', ''y'']"
  define st' where "st' = snd (op_MakeDir ?e ''/x/y'' empty_fs)"
  have run: "op_MakeDir ?e ''/x/y'' empty_fs = (Inr (), st')"
    unfolding st'_def by (rule prod_eqI) (code_simp, simp)
  have hyps: "working ?e" "?cs = path_comps ''/x/y''" "2 \<le> length ?cs" "\<forall>j < 2. lookup_answer ?e ?cs j empty_fs = Inl ObjectNotFound"
      "isl (lookup_answer ?e ?cs 2 empty_fs) = False"
    by code_simp+
  obtain f where f: "lookup_answer ?e ?cs 2 empty_fs = Inr f" using hyps(5) by (cases "lookup_answer ?e ?cs 2 empty_fs") auto
  have "\<exists>ds. length ds = 2 \<and> calls st' = calls empty_fs @ map2 CallMakeDir ds ?cs"
    using MakeDir_makes_missing [OF hyps(1-4) f _ refl refl refl] run by fastforce
  then obtain ds where "length ds = 2" "calls st' = map2 CallMakeDir ds ?cs" by (auto simp: empty_fs_def)
  then show ?thesis using run by (auto simp: length_Suc_conv numeral_2_eq_2)
qed

text \<open>C8 (removal is forgotten): an object is removed whose folder has a cached listing that has not expired, whatever changes it
  went through since it was read, with distinct names. Then the driver was asked to remove it; of a removed folder exactly the
  cached listings below it leave the cache; and as long as the listing of the parent folder is cached and has not expired,
  listing that folder answers with its objects except the removed one. Sorting is assumed to permute.\<close>

theorem Remove_forgets:
  assumes "op_Get e True (FixAndCleanPath path) st = (Inr raw, st1)" "op_Remove e path st = (Inr (), st')"
    and "\<not> NoCache e" "permutes (fsDisplay e)" "parent = path_dir (FixAndCleanPath path)"
    and "map_of (dirCache (fcaches st1)) (Key e parent) = Some (dc, expiration)" "fsClock e (ticks (fcaches st1)) \<le> expiration"
    and "dc = fold (dir_step (fsDisplay e)) changes (newDirectoryCache files)" "distinct (map GetName (objs dc))"
  shows "calls st' = calls st @ [CallRemove (UnwrapObjName raw)] \<and>
    (\<forall>k. cached (fcaches st') k \<longleftrightarrow> cached (fcaches st1) k \<and>
       \<not> (IsDir raw \<and> below (fcaches st1) (path_join [Key e parent, GetName raw]) k)) \<and>
    (fresh_entry (fsClock e) (fcaches st') (Key e parent) \<longrightarrow>
      (\<exists>xs. fst (op_List e False parent st') = Inr xs \<and> mset xs = filter_mset (\<lambda>x. GetName x \<noteq> GetName raw) (mset (objs dc))))"
proof -
  note found = op_Remove_found [OF assms(1,2), folded assms(5)]
  have "fresh_entry (fsClock e) (fcaches st1) (Key e parent)" using assms(6,7) by (simp add: fresh_entry_def)
  note effect = removeDirectoryObject_effect(1) [OF this, of raw, folded found(3) [unfolded if_not_P [OF assms(3)]]]
  have listing: "listing_ok dc" using dir_steps [OF assms(4) listing_ok_new] assms(8) by blast
  have "\<exists>xs. fst (op_List e False parent st') = Inr xs \<and> mset xs = filter_mset (\<lambda>x. GetName x \<noteq> GetName raw) (mset (objs dc))"
    if fresh: "fresh_entry (fsClock e) (fcaches st') (Key e parent)"
  proof -
    obtain dc' x where entry: "map_of (dirCache (fcaches st')) (Key e parent) = Some (dc', x)" "fsClock e (ticks (fcaches st')) \<le> x"
      using fresh by (auto simp: fresh_entry_def)
    then have dc': "dc' = RemoveObject (GetName raw) dc" using effect assms(3,6) found(3) by auto
    have "Key e (FixAndCleanPath parent) = Key e parent" unfolding assms(5) FixAndCleanPath_dir ..
    then have "fst (op_List e False parent st') = Inr (fst (GetSortedObjects (fsDisplay e) dc'))"
      using op_List_cached [OF op_Remove_working [OF assms(2)] _ entry(2), of parent] entry(1) by simp
    then show ?thesis using removed_listing [OF assms(4) listing assms(9)] unfolding dc' by blast
  qed
  then show ?thesis using found(2) effect assms(3) found(3) by auto
qed

text \<open>A folder that was just listed and is looked up through its parent.\<close>

definition listed_fs :: fs_state where
  "listed_fs = \<lparr>fcaches = \<lparr>dirCache = [(''/a'', newDirectoryCache [plain ''d'' 0 True 0, plain ''z'' 1 False 0], 100),
     (''/a/d'', newDirectoryCache [plain ''x'' 1 False 0], 100)], linkCache = [], ticks = 0\<rparr>, calls = []\<rparr>"

theorem Remove_forgets_witness:
  "\<exists>st'. op_Remove example_fs ''/d'' listed_fs = (Inr (), st') \<and> calls st' = [CallRemove (plain ''d'' 0 True 0)] \<and>
     cached (fcaches listed_fs) ''/a/d'' \<and> \<not> cached (fcaches st') ''/a/d'' \<and>
     fst (op_List example_fs False ''/'' st') = Inr [plain ''z'' 1 False 0]"
proof -
  let ?e = example_fs and ?d = "plain ''d'' 0 True 0" and ?z = "plain ''z'' 1 False 0"
  define st1 where "st1 = snd (op_Get ?e True (FixAndCleanPath ''/d'') listed_fs)"
  define st' where "st' = snd (op_Remove ?e ''/d'' listed_fs)"
  have get: "op_Get ?e True (FixAndCleanPath ''/d'') listed_fs = (Inr ?d, st1)"
    unfolding st1_def by (rule prod_eqI) (code_simp, simp)
  have remove: "op_Remove ?e ''/d'' listed_fs = (Inr (), st')"
    unfolding st'_def by (rule prod_eqI) (code_simp, simp)
  have parent: "''/'' = path_dir (FixAndCleanPath ''/d'')" and key: "Key ?e ''/'' = ''/a''" "path_join [''/a'', GetName ?d] = ''/a/d''"
    by code_simp+
  have entries: "map_of (dirCache (fcaches st1)) ''/a'' = Some (newDirectoryCache [?d, ?z], 100)"
      "map_of (dirCache (fcaches st1)) ''/a/d'' = Some (newDirectoryCache [plain ''x'' 1 False 0], 100)" "ticks (fcaches st1) = 1"
    unfolding st1_def by code_simp+
  have later: "map_option snd (map_of (dirCache (fcaches st')) ''/a'') = Some 100" "ticks (fcaches st') = 2"
    unfolding st'_def by code_simp+
  have fresh: "fresh_entry (fsClock ?e) (fcaches st') (Key ?e ''/'')"
    using later unfolding key fresh_entry_def by (auto simp: example_fs_def)
  have entry: "map_of (dirCache (fcaches st1)) (Key ?e ''/'') = Some (newDirectoryCache [?d, ?z], 100)" unfolding key by (rule entries)
  have "fsClock ?e (ticks (fcaches st1)) \<le> 100" unfolding entries by (simp add: example_fs_def)
  moreover have "newDirectoryCache [?d, ?z] = fold (dir_step (fsDisplay ?e)) [] (newDirectoryCache [?d, ?z])" by simp
  moreover have "distinct (map GetName (objs (newDirectoryCache [?d, ?z])))" by code_simp
  moreover have "\<not> NoCache ?e" "permutes (fsDisplay ?e)" using permutes_front by (simp_all add: example_fs_def)
  ultimately have all: "calls st' = calls listed_fs @ [CallRemove (UnwrapObjName ?d)] \<and>
    (\<forall>k. cached (fcaches st') k \<longleftrightarrow> cached (fcaches st1) k \<and> \<not> (IsDir ?d \<and> below (fcaches st1) (path_join [Key ?e ''/'', GetName ?d]) k)) \<and>
    (fresh_entry (fsClock ?e) (fcaches st') (Key ?e ''/'') \<longrightarrow> (\<exists>xs. fst (op_List ?e False ''/'' st') = Inr xs \<and>
       mset xs = filter_mset (\<lambda>x. GetName x \<noteq> GetName ?d) (mset (objs (newDirectoryCache [?d, ?z])))))"
    by (intro Remove_forgets [OF get remove _ _ parent entry])
  then obtain xs where xs: "fst (op_List ?e False ''/'' st') = Inr xs" "mset xs = {#?z#}"
    using fresh by (auto simp: newDirectoryCache_def plain_def)
  have "below (fcaches st1) ''/a/d'' ''/a/d''" by (rule below_self) (simp add: cached_def entries)
  then have "\<not> cached (fcaches st') ''/a/d''" using all unfolding key by (simp add: plain_def)
  then show ?thesis using remove all xs by (simp add: listed_fs_def cached_def plain_def UnwrapObjName_def)
qed

text \<open>C38 (a removed folder is still listed): when the listing of its parent is not cached, removing a folder leaves the folder's own
  cached listing, and listing the removed folder answers with it until it expires.\<close>

theorem removed_folder_still_listed:
  assumes "op_Get e True (FixAndCleanPath path) st = (Inr raw, st1)" "op_Remove e path st = (Inr (), st')"
    and "\<not> cached (fcaches st1) (Key e (path_dir (FixAndCleanPath path)))"
    and entry: "map_of (dirCache (fcaches st1)) (Key e (FixAndCleanPath path)) = Some (dc, expiration)"
      "fsClock e (ticks (fcaches st1)) \<le> expiration"
  shows "fst (op_List e False path st') = Inr (fst (GetSortedObjects (fsDisplay e) dc))"
proof -
  have same: "dirCache (fcaches st') = dirCache (fcaches st1)" "ticks (fcaches st') = ticks (fcaches st1)"
    using op_Remove_found(3) [OF assms(1,2)] assms(3)
    by (auto simp: removeDirectoryObject_def dirCache_Get_def cached_def Let_def split: option.splits)
  show ?thesis using op_List_cached [OF op_Remove_working [OF assms(2)]] entry by (simp add: same)
qed

text \<open>The same storage with a driver that finds objects by their path.\<close>

definition getter_fs :: fs_env where
  "getter_fs = example_fs\<lparr>getter := Some (\<lambda>_ path. if path = ''/d'' then Inr (plain ''d'' 0 True 0)
     else if path = ''/f'' then Inr (plain ''f'' 5 False 0) else Inl ObjectNotFound)\<rparr>"

definition child_listed_fs :: fs_state where
  "child_listed_fs = \<lparr>fcaches = \<lparr>dirCache = [(''/a/d'', newDirectoryCache [plain ''x'' 1 False 0], 100)], linkCache = [], ticks = 0\<rparr>, calls = []\<rparr>"

theorem removed_folder_still_listed_witness:
  "\<exists>st'. op_Remove getter_fs ''/d'' child_listed_fs = (Inr (), st') \<and> fst (op_List getter_fs False ''/d'' st') = Inr [plain ''x'' 1 False 0]"
proof -
  define st1 where "st1 = snd (op_Get getter_fs True (FixAndCleanPath ''/d'') child_listed_fs)"
  define st' where "st' = snd (op_Remove getter_fs ''/d'' child_listed_fs)"
  have get: "op_Get getter_fs True (FixAndCleanPath ''/d'') child_listed_fs = (Inr (plain ''d'' 0 True 0), st1)"
    unfolding st1_def by (rule prod_eqI) (code_simp, simp)
  have remove: "op_Remove getter_fs ''/d'' child_listed_fs = (Inr (), st')"
    unfolding st'_def by (rule prod_eqI) (code_simp, simp)
  have key: "Key getter_fs (path_dir (FixAndCleanPath ''/d'')) = ''/a''" "Key getter_fs (FixAndCleanPath ''/d'') = ''/a/d''"
    by code_simp+
  have entries: "map_of (dirCache (fcaches st1)) ''/a'' = None"
      "map_of (dirCache (fcaches st1)) ''/a/d'' = Some (newDirectoryCache [plain ''x'' 1 False 0], 100)" "ticks (fcaches st1) = 0"
    unfolding st1_def by code_simp+
  have parent: "\<not> cached (fcaches st1) (Key getter_fs (path_dir (FixAndCleanPath ''/d'')))"
    and own: "map_of (dirCache (fcaches st1)) (Key getter_fs (FixAndCleanPath ''/d'')) = Some (newDirectoryCache [plain ''x'' 1 False 0], 100)"
    unfolding key by (simp_all add: cached_def entries)
  have "fsClock getter_fs (ticks (fcaches st1)) \<le> 100" unfolding entries by (simp add: getter_fs_def example_fs_def)
  from removed_folder_still_listed [OF get remove parent own this]
  have "fst (op_List getter_fs False ''/d'' st') = Inr (fst (GetSortedObjects (fsDisplay getter_fs) (newDirectoryCache [plain ''x'' 1 False 0])))" .
  then show ?thesis using remove by (simp add: GetSortedObjects_def newDirectoryCache_def)
qed

text \<open>C39 (an upload that is refused): where the driver cannot overwrite, an upload over an existing file first renames the
  file; if the folder then turns out not to be writable, the upload is refused and the file keeps its temporary name, since the
  last call that the driver gets is that renaming.\<close>

theorem refused_Put_leaves_temp:
  assumes env: "working e" "\<not> OnlyIndices e" "NoOverwriteUpload e"
    and old: "GetUnwrap e (path_join [FixAndCleanPath dir, StreamName stream]) st = (Inr old, st1)" "GetSize old \<noteq> 0"
    and rename: "op_Rename e (path_join [FixAndCleanPath dir, StreamName stream]) (temp_name (StreamName stream)) st1 = (Inr (), st2)"
    and folder: "op_Get e False (FixAndCleanPath dir) st2 = (Inr d, st3)" "IsDir d"
    and parent: "GetUnwrap e (FixAndCleanPath dir) st3 = (Inr p, st4)" "ObjHasMask p mask_NoWrite"
  shows "op_Put e dir stream st = (Inl PermissionDenied, st4) \<and>
    (\<exists>obj. calls st4 = calls st @ [CallRename obj (temp_name (StreamName stream))])"
proof -
  have "op_MakeDir e (FixAndCleanPath dir) st2 = (Inr (), st3)"
    using folder env by (simp add: op_MakeDir.simps)
  then have "op_Put e dir stream st = (Inl PermissionDenied, st4)"
    using env old rename parent
    by (simp add: op_Put_def put_stream_def make_room_def check_status_def require_def op_bind_def ok_def fail_def Let_def)
  moreover have "\<exists>obj. calls st2 = calls st1 @ [CallRename obj (temp_name (StreamName stream))]"
    by (rule op_Rename_calls [OF rename])
  moreover have "calls st4 = calls st2" "calls st1 = calls st"
    using GetUnwrap_calls [OF parent(1)] op_Get_calls [OF folder(1)] GetUnwrap_calls [OF old(1)] by simp_all
  ultimately show ?thesis by simp
qed

text \<open>The same storage with a root that may not be written to.\<close>

definition locked_fs :: fs_env where
  "locked_fs = getter_fs\<lparr>rootKind := GetRooter (\<lambda>_. Inr (plain ''root'' 0 True mask_NoWrite))\<rparr>"

definition example_stream :: FileStream where
  "example_stream = \<lparr>StreamName = ''f'', StreamSize = 9, StreamModTime = 0, StreamCreateTime = 0, Exist = None\<rparr>"

theorem refused_Put_leaves_temp_witness:
  "\<exists>st' obj. op_Put locked_fs ''/'' example_stream empty_fs = (Inl PermissionDenied, st') \<and>
     calls st' = [CallRename obj (temp_name ''f'')]"
proof -
  let ?e = locked_fs
  let ?p = "path_join [FixAndCleanPath ''/'', StreamName example_stream]"
  let ?t = "temp_name (StreamName example_stream)"
  define st1 where "st1 = snd (GetUnwrap ?e ?p empty_fs)"
  define st2 where "st2 = snd (op_Rename ?e ?p ?t st1)"
  define st3 where "st3 = snd (op_Get ?e False (FixAndCleanPath ''/'') st2)"
  define st4 where "st4 = snd (GetUnwrap ?e (FixAndCleanPath ''/'') st3)"
  have old: "GetUnwrap ?e ?p empty_fs = (Inr (plain ''f'' 5 False 0), st1)"
    unfolding st1_def by (rule prod_eqI) (code_simp, simp)
  have rename: "op_Rename ?e ?p ?t st1 = (Inr (), st2)"
    unfolding st2_def st1_def by (rule prod_eqI) (code_simp, simp)
  have folder: "op_Get ?e False (FixAndCleanPath ''/'') st2 = (Inr (plain ''root'' 0 True mask_NoWrite), st3)"
    unfolding st3_def st2_def st1_def by (rule prod_eqI) (code_simp, simp)
  have parent: "GetUnwrap ?e (FixAndCleanPath ''/'') st3 = (Inr (plain ''root'' 0 True mask_NoWrite), st4)"
    unfolding st4_def st3_def st2_def st1_def by (rule prod_eqI) (code_simp, simp)
  have "working ?e" "\<not> OnlyIndices ?e" "NoOverwriteUpload ?e" "GetSize (plain ''f'' 5 False 0) \<noteq> 0"
      "IsDir (plain ''root'' 0 True mask_NoWrite)" "ObjHasMask (plain ''root'' 0 True mask_NoWrite) mask_NoWrite"
    by code_simp+
  from refused_Put_leaves_temp [OF this(1-3) old this(4) rename folder this(5) parent this(6)]
  show ?thesis by (auto simp: empty_fs_def example_stream_def)
qed

end
