(* ===== verification/Bencode.thy ===== *)
theory Bencode
  imports Go_Prelude "HOL-Library.Multiset" "HOL-Library.AList" "HOL-Library.List_Lexorder" "HOL-Library.Char_ord"
begin

text \<open>
  The bencode codec of \<open>pkg/torrent/bencode.go\<close>. The encoder writes to a buffer, which never fails,
  so an encoding is the string it appends; the decoder reads from a \<open>bytes.Reader\<close>, which is the
  string that is still unread. A Go map is an association list with distinct keys. The recursive
  decoder takes fuel, and \<open>BencodeDecode\<close> supplies enough for every input
  (\<open>decode_no_fuel_error\<close>).
\<close>

section \<open>Values\<close>

text \<open>The dynamic types that the type switch of \<open>bencodeEncodeValue\<close> knows (\<open>int\<close> and \<open>int64\<close>
  encode alike), and \<open>BOther\<close> for every other one. \<open>BOrdered\<close> is \<open>OrderedDict\<close>.\<close>

datatype bvalue =
    BInt int
  | BStr string
  | BBytes string
  | BList "bvalue list"
  | BDict "(string \<times> bvalue) list"
  | BOrdered "string list" "(string \<times> bvalue) list"
  | BOther

datatype bencode_error =
    UnsupportedType
  | ReadEOF
  | UnexpectedEOF
  | UnexpectedByte char nat
  | InvalidInt num_error
  | InvalidStringLength num_error
  | StringLengthOutOfBounds int
  | OutOfFuel

section \<open>Ordered dictionaries\<close>

definition NewOrderedDict :: "string list \<times> (string \<times> bvalue) list" where
  "NewOrderedDict = ([], [])"

definition OrderedDict_Set ::
    "string list \<times> (string \<times> bvalue) list \<Rightarrow> string \<Rightarrow> bvalue \<Rightarrow> string list \<times> (string \<times> bvalue) list" where
  "OrderedDict_Set d key value =
     (case d of (Keys, Values) \<Rightarrow>
        (if map_of Values key = None then Keys @ [key] else Keys, AList.update key value Values))"

definition OrderedDict_Get :: "string list \<times> (string \<times> bvalue) list \<Rightarrow> string \<Rightarrow> bvalue option" where
  "OrderedDict_Get d key = map_of (snd d) key"

section \<open>Encoding\<close>

definition bencodeEncodeInt :: "int \<Rightarrow> string" where
  "bencodeEncodeInt v = ''i'' @ format_int v @ ''e''"

definition bencodeEncodeString :: "string \<Rightarrow> string" where
  "bencodeEncodeString v = format_nat (length v) @ '':'' @ v"

definition bencodeEncodeBytes :: "string \<Rightarrow> string" where
  "bencodeEncodeBytes v = format_nat (length v) @ '':'' @ v"

text \<open>The first error of a list of results, or all the values.\<close>

fun collect_res :: "('e + 'a) list \<Rightarrow> 'e + 'a list" where
  "collect_res [] = Inr []"
| "collect_res (r # rs) = bind_res r (\<lambda>a. bind_res (collect_res rs) (\<lambda>as. Inr (a # as)))"

lemma size_map_of [termination_simp]:
  "map_of kvs x = Some v \<Longrightarrow> size (v :: bvalue) < Suc (size_list (\<lambda>x. Suc (size (snd x))) kvs)"
proof -
  assume "map_of kvs x = Some v"
  then have "(x, v) \<in> set kvs" by (rule map_of_SomeD)
  then have "size v < size_list (\<lambda>x. Suc (size (snd x))) kvs"
    by (rule size_list_estimation) simp
  then show ?thesis by simp
qed

fun bencodeEncodeValue :: "bvalue \<Rightarrow> bencode_error + string" where
  "bencodeEncodeValue (BInt v) = Inr (bencodeEncodeInt v)"
| "bencodeEncodeValue (BStr v) = Inr (bencodeEncodeString v)"
| "bencodeEncodeValue (BBytes v) = Inr (bencodeEncodeBytes v)"
| "bencodeEncodeValue (BList vs) =
     bind_res (collect_res (map bencodeEncodeValue vs)) (\<lambda>ss. Inr (''l'' @ concat ss @ ''e''))"
| "bencodeEncodeValue (BDict kvs) =
     bind_res (collect_res (map (\<lambda>(k, v). bind_res (bencodeEncodeValue v) (\<lambda>s. Inr (bencodeEncodeString k @ s)))
         (sort_key fst kvs)))
       (\<lambda>ss. Inr (''d'' @ concat ss @ ''e''))"
| "bencodeEncodeValue (BOrdered ks kvs) =
     bind_res (collect_res (map (\<lambda>k. case map_of kvs k of
           None \<Rightarrow> Inl UnsupportedType
         | Some v \<Rightarrow> bind_res (bencodeEncodeValue v) (\<lambda>s. Inr (bencodeEncodeString k @ s))) (sort ks)))
       (\<lambda>ss. Inr (''d'' @ concat ss @ ''e''))"
| "bencodeEncodeValue BOther = Inl UnsupportedType"

definition BencodeEncode :: "bvalue \<Rightarrow> bencode_error + string" where
  "BencodeEncode v = bencodeEncodeValue v"

section \<open>Decoding\<close>

text \<open>Read up to the delimiter; \<open>None\<close> when the input ends first.\<close>

fun read_until :: "char \<Rightarrow> string \<Rightarrow> (string \<times> string) option" where
  "read_until c [] = None"
| "read_until c (b # s) =
     (if b = c then Some ([], s) else map_option (\<lambda>(buf, r). (b # buf, r)) (read_until c s))"

definition bencodeDecodeInt :: "string \<Rightarrow> bencode_error + int \<times> string" where
  "bencodeDecodeInt r =
     (case read_until (CHR ''e'') r of
        None \<Rightarrow> Inl ReadEOF
      | Some (buf, r) \<Rightarrow>
          (case ParseInt buf of
             (i, None) \<Rightarrow> Inr (i, r)
           | (_, Some e) \<Rightarrow> Inl (InvalidInt e)))"

text \<open>\<open>io.ReadFull\<close> of \<open>n\<close> bytes.\<close>

definition read_full :: "int \<Rightarrow> string \<Rightarrow> bencode_error + string \<times> string" where
  "read_full n r =
     (if n \<le> int (length r) then Inr (take (nat n) r, drop (nat n) r)
      else Inl (if r = [] then ReadEOF else UnexpectedEOF))"

definition bencodeDecodeString :: "string \<Rightarrow> bencode_error + string \<times> string" where
  "bencodeDecodeString r =
     (case read_until (CHR '':'') r of
        None \<Rightarrow> Inl ReadEOF
      | Some (lenBuf, r) \<Rightarrow>
          (case ParseInt lenBuf of
             (_, Some e) \<Rightarrow> Inl (InvalidStringLength e)
           | (len, None) \<Rightarrow>
               if len < 0 \<or> len > 100 * 1024 * 1024 then Inl (StringLengthOutOfBounds len)
               else read_full len r))"

fun bencodeDecodeValue :: "nat \<Rightarrow> string \<Rightarrow> bencode_error + bvalue \<times> string"
  and bencodeDecodeList :: "nat \<Rightarrow> bvalue list \<Rightarrow> string \<Rightarrow> bencode_error + bvalue \<times> string"
  and bencodeDecodeDict :: "nat \<Rightarrow> (string \<times> bvalue) list \<Rightarrow> string \<Rightarrow> bencode_error + bvalue \<times> string"
where
  "bencodeDecodeValue 0 r = Inl OutOfFuel"
| "bencodeDecodeValue (Suc n) [] = Inl ReadEOF"
| "bencodeDecodeValue (Suc n) (b # r) =
     (if b = CHR ''i'' then bind_res (bencodeDecodeInt r) (\<lambda>(i, r). Inr (BInt i, r))
      else if b = CHR ''l'' then bencodeDecodeList n [] r
      else if b = CHR ''d'' then bencodeDecodeDict n [] r
      else if is_digit b then bind_res (bencodeDecodeString (b # r)) (\<lambda>(s, r). Inr (BBytes s, r))
      else Inl (UnexpectedByte b (length r)))"
| "bencodeDecodeList 0 l r = Inl OutOfFuel"
| "bencodeDecodeList (Suc n) l [] = Inl ReadEOF"
| "bencodeDecodeList (Suc n) l (b # r) =
     (if b = CHR ''e'' then Inr (BList l, r)
      else bind_res (bencodeDecodeValue n (b # r)) (\<lambda>(v, r). bencodeDecodeList n (l @ [v]) r))"
| "bencodeDecodeDict 0 d r = Inl OutOfFuel"
| "bencodeDecodeDict (Suc n) d [] = Inl ReadEOF"
| "bencodeDecodeDict (Suc n) d (b # r) =
     (if b = CHR ''e'' then Inr (BDict d, r)
      else bind_res (bencodeDecodeString (b # r)) (\<lambda>(k, r).
             bind_res (bencodeDecodeValue n r) (\<lambda>(v, r).
               bencodeDecodeDict n (AList.update k v d) r)))"

definition BencodeDecode :: "string \<Rightarrow> bencode_error + bvalue" where
  "BencodeDecode data = bind_res (bencodeDecodeValue (2 * length data + 2) data) (\<lambda>(v, r). Inr v)"

section \<open>Fuel\<close>

lemma read_until_shorter: "read_until c s = Some (buf, r) \<Longrightarrow> length r < length s"
  by (induction s arbitrary: buf) (auto split: if_splits)

lemma bencodeDecodeInt_shorter: "bencodeDecodeInt s = Inr (i, r) \<Longrightarrow> length r < length s"
  by (auto simp: bencodeDecodeInt_def split: option.splits prod.splits dest: read_until_shorter)

lemma bencodeDecodeString_shorter: "bencodeDecodeString s = Inr (b, r) \<Longrightarrow> length r < length s"
  by (auto simp: bencodeDecodeString_def read_full_def split: option.splits prod.splits if_splits
      dest!: read_until_shorter)

lemma decode_shorter:
  "bencodeDecodeValue n s = Inr (v, r) \<Longrightarrow> length r < length s"
  "bencodeDecodeList n l s = Inr (v, r) \<Longrightarrow> length r < length s"
  "bencodeDecodeDict n d s = Inr (v, r) \<Longrightarrow> length r < length s"
proof (induction n s and n l s and n d s arbitrary: v r and v r and v r
    rule: bencodeDecodeValue_bencodeDecodeList_bencodeDecodeDict.induct)
qed (fastforce split: if_splits simp: bind_res_Inr_iff
    dest: bencodeDecodeInt_shorter bencodeDecodeString_shorter)+

lemma leaf_no_fuel_error:
  "bencodeDecodeInt s \<noteq> Inl OutOfFuel" "bencodeDecodeString s \<noteq> Inl OutOfFuel"
  by (auto simp: bencodeDecodeInt_def bencodeDecodeString_def read_full_def
      split: option.splits prod.splits if_splits)

lemma decode_no_fuel_error:
  "2 * length s < n \<Longrightarrow> bencodeDecodeValue n s \<noteq> Inl OutOfFuel"
  "2 * length s + 1 < n \<Longrightarrow> bencodeDecodeList n l s \<noteq> Inl OutOfFuel"
  "2 * length s + 1 < n \<Longrightarrow> bencodeDecodeDict n d s \<noteq> Inl OutOfFuel"
proof (induction n s and n l s and n d s
    rule: bencodeDecodeValue_bencodeDecodeList_bencodeDecodeDict.induct)
qed (auto simp: bind_res_Inl_iff leaf_no_fuel_error split: if_splits
    dest!: decode_shorter bencodeDecodeString_shorter)

section \<open>Well-formed values and their canonical form\<close>

text \<open>The values that the format carries: 64-bit integers, strings within the decoder's bound, maps
  with distinct keys.\<close>

definition short_string :: "string \<Rightarrow> bool" where
  "short_string s \<longleftrightarrow> int (length s) \<le> 100 * 1024 * 1024"

fun bvalid :: "bvalue \<Rightarrow> bool" where
  "bvalid (BInt i) \<longleftrightarrow> int64_range i"
| "bvalid (BStr s) \<longleftrightarrow> short_string s"
| "bvalid (BBytes s) \<longleftrightarrow> short_string s"
| "bvalid (BList vs) \<longleftrightarrow> (\<forall>v \<in> set vs. bvalid v)"
| "bvalid (BDict kvs) \<longleftrightarrow> distinct (map fst kvs) \<and> (\<forall>(k, v) \<in> set kvs. short_string k \<and> bvalid v)"
| "bvalid (BOrdered ks kvs) \<longleftrightarrow> distinct ks \<and>
     (\<forall>k \<in> set ks. short_string k \<and> (case map_of kvs k of None \<Rightarrow> False | Some v \<Rightarrow> bvalid v))"
| "bvalid BOther \<longleftrightarrow> False"

text \<open>What the decoder makes of a value: strings are byte slices, maps are sorted by key.\<close>

fun bnorm :: "bvalue \<Rightarrow> bvalue" where
  "bnorm (BInt i) = BInt i"
| "bnorm (BStr s) = BBytes s"
| "bnorm (BBytes s) = BBytes s"
| "bnorm (BList vs) = BList (map bnorm vs)"
| "bnorm (BDict kvs) = BDict (map (\<lambda>(k, v). (k, bnorm v)) (sort_key fst kvs))"
| "bnorm (BOrdered ks kvs) =
     BDict (map (\<lambda>k. (k, case map_of kvs k of None \<Rightarrow> BOther | Some v \<Rightarrow> bnorm v)) (sort ks))"
| "bnorm BOther = BOther"

lemma collect_res_Inr:
  "collect_res rs = Inr ys \<longleftrightarrow> list_all2 (\<lambda>r y. r = Inr y) rs ys"
  by (induction rs arbitrary: ys) (auto simp: bind_res_Inr_iff list_all2_Cons1)

lemma bencodeEncodeValue_bnorm: "bencodeEncodeValue (bnorm v) = bencodeEncodeValue v"
proof (induction v rule: bnorm.induct)
  case (4 vs)
  then show ?case by (simp add: comp_def cong: map_cong)
next
  case (5 kvs)
  let ?g = "\<lambda>(k, v). (k, bnorm v)"
  have "map fst (map ?g (sort_key fst kvs)) = map fst (sort_key fst kvs)" by auto
  then have "sort_key fst (map ?g (sort_key fst kvs)) = map ?g (sort_key fst kvs)"
    by (metis sorted_sort_key sort_key_id_if_sorted)
  moreover have "map (\<lambda>x. bind_res (bencodeEncodeValue (bnorm (snd x))) (\<lambda>s. Inr (bencodeEncodeString (fst x) @ s))) (sort_key fst kvs) =
      map (\<lambda>x. bind_res (bencodeEncodeValue (snd x)) (\<lambda>s. Inr (bencodeEncodeString (fst x) @ s))) (sort_key fst kvs)"
  proof (rule map_cong [OF refl])
    fix x
    assume "x \<in> set (sort_key fst kvs)"
    moreover obtain k v where "x = (k, v)" by fastforce
    ultimately have "bencodeEncodeValue (bnorm (snd x)) = bencodeEncodeValue (snd x)"
      using 5 by auto
    then show "bind_res (bencodeEncodeValue (bnorm (snd x))) (\<lambda>s. Inr (bencodeEncodeString (fst x) @ s)) =
        bind_res (bencodeEncodeValue (snd x)) (\<lambda>s. Inr (bencodeEncodeString (fst x) @ s))" by simp
  qed
  ultimately show ?case by (simp add: comp_def case_prod_unfold del: map_eq_conv)
next
  case (6 ks kvs)
  let ?g = "\<lambda>k. (k, case map_of kvs k of None \<Rightarrow> BOther | Some v \<Rightarrow> bnorm v)"
  have "map fst (map ?g (sort ks)) = sort ks" by (simp add: comp_def)
  then have "sort_key fst (map ?g (sort ks)) = map ?g (sort ks)"
    by (metis sorted_sort sort_key_id_if_sorted)
  with 6 show ?case by (auto simp: comp_def bind_res_def cong: map_cong split: option.splits
      intro!: arg_cong [where f = "\<lambda>rs. case collect_res rs of Inl e \<Rightarrow> Inl e | Inr ss \<Rightarrow> f ss" for f])
qed (simp_all add: bencodeEncodeBytes_def bencodeEncodeString_def)

section \<open>Round trip\<close>

lemma read_until_found: "c \<notin> set buf \<Longrightarrow> read_until c (buf @ c # r) = Some (buf, r)"
  by (induction buf) auto

lemma format_nat_no_colon: "CHR '':'' \<notin> set (format_nat n)"
  using format_nat_digits by (fastforce simp: is_digit_def)

lemma format_int_no_e: "CHR ''e'' \<notin> set (format_int i)"
  by (auto simp: format_int_def is_digit_def dest!: format_nat_digits)

lemma ParseInt_format_nat: "int64_range (int n) \<Longrightarrow> ParseInt (format_nat n) = (int n, None)"
  using parse_int_format [of "int n"] by (simp add: format_int_def)

lemma bencodeDecodeInt_encode:
  "int64_range i \<Longrightarrow> bencodeDecodeInt (format_int i @ CHR ''e'' # r) = Inr (i, r)"
  by (simp add: bencodeDecodeInt_def read_until_found format_int_no_e parse_int_format)

lemma bencodeDecodeString_encode:
  "short_string k \<Longrightarrow> bencodeDecodeString (bencodeEncodeString k @ r) = Inr (k, r)"
  by (simp add: bencodeDecodeString_def bencodeEncodeString_def read_until_found format_nat_no_colon
      ParseInt_format_nat int64_range_def short_string_def read_full_def)

text \<open>The string \<open>s\<close> is read back as \<open>w\<close> wherever it stands, given enough fuel.\<close>

definition decodes :: "string \<Rightarrow> bvalue \<Rightarrow> bool" where
  "decodes s w \<longleftrightarrow> s \<noteq> [] \<and> hd s \<noteq> CHR ''e'' \<and>
     (\<forall>n r. 2 * length s < n \<longrightarrow> bencodeDecodeValue n (s @ r) = Inr (w, r))"

lemma decodesD: "decodes s w \<Longrightarrow> 2 * length s < n \<Longrightarrow> bencodeDecodeValue n (s @ r) = Inr (w, r)"
  by (simp add: decodes_def)

lemma bencodeEncodeString_Cons:
  obtains c cs where "bencodeEncodeString k = c # cs" "is_digit c"
  by (rule format_nat_Cons [of "length k"]) (simp add: bencodeEncodeString_def)

lemma decodes_string: "short_string k \<Longrightarrow> decodes (bencodeEncodeString k) (BBytes k)"
proof -
  assume k: "short_string k"
  obtain c cs where c: "bencodeEncodeString k = c # cs" "is_digit c" by (rule bencodeEncodeString_Cons)
  then have "c \<noteq> CHR ''e''" "c \<noteq> CHR ''i''" "c \<noteq> CHR ''l''" "c \<noteq> CHR ''d''"
    by (auto simp: is_digit_def)
  moreover have "bencodeDecodeValue n ((c # cs) @ r) = Inr (BBytes k, r)"
    if "2 * length (c # cs) < n" for n r
    using that calculation c(2) bencodeDecodeString_encode [OF k, of r] c(1) by (cases n) auto
  ultimately show ?thesis using c(1) by (auto simp: decodes_def)
qed

lemma decode_list:
  "list_all2 decodes ss ws \<Longrightarrow> 2 * length (concat ss) + 1 < n \<Longrightarrow>
     bencodeDecodeList n l (concat ss @ CHR ''e'' # r) = Inr (BList (l @ ws), r)"
proof (induction ss ws arbitrary: n l rule: list_all2_induct)
  case Nil
  then show ?case by (cases n) auto
next
  case (Cons s ss w ws)
  then obtain m where n: "n = Suc m" by (cases n) auto
  from Cons.hyps obtain c cs where s: "s = c # cs" "c \<noteq> CHR ''e''"
    by (auto simp: decodes_def neq_Nil_conv)
  have "bencodeDecodeValue m (s @ concat ss @ CHR ''e'' # r) = Inr (w, concat ss @ CHR ''e'' # r)"
    using Cons.prems n s by (intro decodesD [OF Cons.hyps(1)]) auto
  moreover have "bencodeDecodeList m (l @ [w]) (concat ss @ CHR ''e'' # r) = Inr (BList (l @ w # ws), r)"
    using Cons.IH [of m "l @ [w]"] Cons.prems n s by simp
  ultimately show ?case using n s by simp
qed

lemma update_fresh: "k \<notin> fst ` set d \<Longrightarrow> AList.update k v d = d @ [(k, v)]"
  by (induction d) auto

definition entry_decodes :: "string \<Rightarrow> string \<times> bvalue \<Rightarrow> bool" where
  "entry_decodes s kw \<longleftrightarrow>
     (\<exists>t. s = bencodeEncodeString (fst kw) @ t \<and> short_string (fst kw) \<and> decodes t (snd kw))"

lemma decode_dict:
  "list_all2 entry_decodes ss kws \<Longrightarrow> distinct (map fst (d @ kws)) \<Longrightarrow> 2 * length (concat ss) + 1 < n \<Longrightarrow>
     bencodeDecodeDict n d (concat ss @ CHR ''e'' # r) = Inr (BDict (d @ kws), r)"
proof (induction ss kws arbitrary: n d rule: list_all2_induct)
  case Nil
  then show ?case by (cases n) auto
next
  case (Cons s ss kw kws)
  then obtain m where n: "n = Suc m" by (cases n) auto
  obtain k w where kw: "kw = (k, w)" by fastforce
  with Cons.hyps(1) obtain t where s: "s = bencodeEncodeString k @ t" "short_string k" "decodes t w"
    by (auto simp: entry_decodes_def)
  obtain c cs where c: "bencodeEncodeString k = c # cs" "is_digit c" by (rule bencodeEncodeString_Cons)
  then have "c \<noteq> CHR ''e''" by (auto simp: is_digit_def)
  let ?r = "concat ss @ CHR ''e'' # r"
  have "bencodeDecodeString (s @ ?r) = Inr (k, t @ ?r)"
    using bencodeDecodeString_encode [OF s(2)] s(1) by simp
  moreover have "bencodeDecodeValue m (t @ ?r) = Inr (w, ?r)"
    using Cons.prems n s(1) c by (intro decodesD [OF s(3)]) auto
  moreover have "bencodeDecodeDict m (AList.update k w d) ?r = Inr (BDict (d @ kw # kws), r)"
  proof -
    have "AList.update k w d = d @ [kw]" using Cons.prems(1) kw by (auto intro: update_fresh)
    then show ?thesis using Cons.IH [of "d @ [kw]" m] Cons.prems n s(1) c by simp
  qed
  moreover have "s @ ?r = c # (cs @ t @ ?r)" using s(1) c(1) by simp
  ultimately show ?case using n \<open>c \<noteq> CHR ''e''\<close> by simp
qed

lemma dict_decodes:
  assumes "\<forall>x \<in> set xs. \<exists>s. f x = Inr s \<and> entry_decodes s (kw x)" "distinct (map (\<lambda>x. fst (kw x)) xs)"
  shows "\<exists>s. bind_res (collect_res (map f xs)) (\<lambda>ss. Inr (''d'' @ concat ss @ ''e'')) = Inr s \<and>
    decodes s (BDict (map kw xs))"
proof -
  obtain enc where enc: "\<forall>x \<in> set xs. f x = Inr (enc x) \<and> entry_decodes (enc x) (kw x)"
    using assms(1) by (metis (no_types, lifting))
  then have "collect_res (map f xs) = Inr (map enc xs)"
    by (simp add: collect_res_Inr list_all2_conv_all_nth)
  moreover have "list_all2 entry_decodes (map enc xs) (map kw xs)"
    using enc by (simp add: list_all2_conv_all_nth)
  then have "bencodeDecodeValue n (CHR ''d'' # concat (map enc xs) @ CHR ''e'' # r) = Inr (BDict (map kw xs), r)"
    if "2 * (length (concat (map enc xs)) + 2) < n" for n r
    using that assms(2) decode_dict [of "map enc xs" "map kw xs" "[]" "n - 1" r]
    by (cases n) (auto simp: comp_def)
  ultimately show ?thesis by (simp add: decodes_def)
qed

lemma encode_decodes: "bvalid v \<Longrightarrow> \<exists>s. bencodeEncodeValue v = Inr s \<and> decodes s (bnorm v)"
proof (induction v rule: bnorm.induct)
  case (1 i)
  then have "bencodeDecodeValue n (bencodeEncodeInt i @ r) = Inr (BInt i, r)"
    if "2 * length (bencodeEncodeInt i) < n" for n r
    using that bencodeDecodeInt_encode [of i r] by (cases n) (simp_all add: bencodeEncodeInt_def)
  then show ?case by (simp add: decodes_def) (simp add: bencodeEncodeInt_def)
next
  case (2 s)
  then show ?case using decodes_string by simp
next
  case (3 s)
  then show ?case
    using decodes_string [of s] by (simp add: bencodeEncodeBytes_def bencodeEncodeString_def)
next
  case (4 vs)
  then have "\<forall>v \<in> set vs. \<exists>s. bencodeEncodeValue v = Inr s \<and> decodes s (bnorm v)" by simp
  then obtain enc where enc: "\<forall>v \<in> set vs. bencodeEncodeValue v = Inr (enc v) \<and> decodes (enc v) (bnorm v)"
    by (metis (no_types, lifting))
  then have "collect_res (map bencodeEncodeValue vs) = Inr (map enc vs)"
    by (simp add: collect_res_Inr list_all2_conv_all_nth)
  moreover have "list_all2 decodes (map enc vs) (map bnorm vs)"
    using enc by (simp add: list_all2_conv_all_nth)
  then have "bencodeDecodeValue n (CHR ''l'' # concat (map enc vs) @ CHR ''e'' # r) = Inr (bnorm (BList vs), r)"
    if "2 * (length (concat (map enc vs)) + 2) < n" for n r
    using that decode_list [of "map enc vs" "map bnorm vs" "n - 1" "[]" r] by (cases n) auto
  ultimately show ?case by (simp add: decodes_def)
next
  case (5 kvs)
  have "\<exists>s. (\<lambda>(k, v). bind_res (bencodeEncodeValue v) (\<lambda>s. Inr (bencodeEncodeString k @ s))) x = Inr s \<and>
      entry_decodes s ((\<lambda>(k, v). (k, bnorm v)) x)" if "x \<in> set (sort_key fst kvs)" for x
    using 5 that by (cases x) (fastforce simp: entry_decodes_def)
  moreover have "distinct (map (\<lambda>x. fst ((\<lambda>(k, v). (k, bnorm v)) x)) (sort_key fst kvs))"
  proof -
    have "mset (map fst (sort_key fst kvs)) = mset (map fst kvs)" by simp
    then have "distinct (map fst (sort_key fst kvs))"
      using "5.prems" mset_eq_imp_distinct_iff by (metis bvalid.simps(5))
    then show ?thesis by (simp add: case_prod_beta)
  qed
  ultimately show ?case unfolding bencodeEncodeValue.simps bnorm.simps
    by (intro dict_decodes) simp_all
next
  case (6 ks kvs)
  have "\<exists>s. (case map_of kvs k of None \<Rightarrow> Inl UnsupportedType
        | Some v \<Rightarrow> bind_res (bencodeEncodeValue v) (\<lambda>s. Inr (bencodeEncodeString k @ s))) = Inr s \<and>
      entry_decodes s (k, case map_of kvs k of None \<Rightarrow> BOther | Some v \<Rightarrow> bnorm v)" if "k \<in> set (sort ks)" for k
    using 6 that by (cases "map_of kvs k") (fastforce simp: entry_decodes_def)+
  then show ?case using "6.prems" unfolding bencodeEncodeValue.simps bnorm.simps
    by (intro dict_decodes) simp_all
qed simp_all

section \<open>Decoded values\<close>

lemma bencodeDecodeString_short: "bencodeDecodeString s = Inr (k, r) \<Longrightarrow> short_string k"
  by (auto simp: bencodeDecodeString_def read_full_def short_string_def
      split: option.splits prod.splits if_splits)

lemma bencodeDecodeInt_range: "bencodeDecodeInt s = Inr (i, r) \<Longrightarrow> int64_range i"
  by (auto simp: bencodeDecodeInt_def split: option.splits prod.splits dest: ParseInt_range)

lemma bvalid_update:
  "bvalid (BDict d) \<Longrightarrow> short_string k \<Longrightarrow> bvalid v \<Longrightarrow> bvalid (BDict (AList.update k v d))"
proof -
  have "set (AList.update k v d) \<subseteq> insert (k, v) (set d)" by (induction d) auto
  then show "bvalid (BDict d) \<Longrightarrow> short_string k \<Longrightarrow> bvalid v \<Longrightarrow> ?thesis"
    by (fastforce simp: distinct_update)
qed

lemma decode_valid:
  "bencodeDecodeValue n s = Inr (v, r) \<Longrightarrow> bvalid v"
  "bencodeDecodeList n l s = Inr (v, r) \<Longrightarrow> (\<forall>v \<in> set l. bvalid v) \<Longrightarrow> bvalid v"
  "bencodeDecodeDict n d s = Inr (v, r) \<Longrightarrow> bvalid (BDict d) \<Longrightarrow> bvalid v"
proof (induction n s and n l s and n d s arbitrary: v r and v r and v r
    rule: bencodeDecodeValue_bencodeDecodeList_bencodeDecodeDict.induct)
  case (9 n d b r)
  then show ?case
    by (auto simp: bind_res_Inr_iff simp del: bvalid.simps split: if_splits)
      (meson bencodeDecodeString_short bvalid_update)
qed (auto simp: bind_res_Inr_iff split: if_splits
    dest: bencodeDecodeString_short bencodeDecodeInt_range)

section \<open>Properties\<close>

text \<open>C20 (bencode round trip): every well-formed value is encoded without error, and decoding the
  encoding, also with other bytes after it, yields the canonical form of the value, whose
  encoding is the same.\<close>

theorem Bencode_round_trip:
  assumes "bvalid v"
  shows "\<exists>data. BencodeEncode v = Inr data \<and> BencodeDecode (data @ rest) = Inr (bnorm v) \<and>
    BencodeEncode (bnorm v) = Inr data"
proof -
  obtain s where s: "bencodeEncodeValue v = Inr s" "decodes s (bnorm v)"
    using encode_decodes [OF assms] by blast
  have "bencodeDecodeValue (2 * length (s @ rest) + 2) (s @ rest) = Inr (bnorm v, rest)"
    by (rule decodesD [OF s(2)]) simp
  then show ?thesis
    using s(1) by (simp add: BencodeEncode_def BencodeDecode_def bencodeEncodeValue_bnorm)
qed

theorem Bencode_round_trip_witness:
  "BencodeDecode ''d1:bi-7e2:xsl2:hi0:eexyz'' =
     Inr (BDict [(''b'', BInt (-7)), (''xs'', BList [BBytes ''hi'', BBytes []])])"
proof -
  let ?v = "BDict [(''xs'', BList [BStr ''hi'', BStr []]), (''b'', BInt (-7))]"
  have v: "bvalid ?v" "BencodeEncode ?v = Inr ''d1:bi-7e2:xsl2:hi0:ee''"
    "bnorm ?v = BDict [(''b'', BInt (-7)), (''xs'', BList [BBytes ''hi'', BBytes []])]"
    by code_simp+
  from Bencode_round_trip [OF v(1), of "''xyz''"] v(2,3) show ?thesis by auto
qed

text \<open>C21 (decoder soundness): the decoder terminates on every input without running out of fuel,
  and whatever it accepts is well formed, so it can always be encoded again.\<close>

theorem BencodeDecode_sound:
  "BencodeDecode data \<noteq> Inl OutOfFuel \<and>
   (BencodeDecode data = Inr v \<longrightarrow> bvalid v \<and> (\<exists>data'. BencodeEncode v = Inr data' \<and> BencodeDecode data' = Inr (bnorm v)))"
proof (intro conjI impI)
  show "BencodeDecode data \<noteq> Inl OutOfFuel"
    using decode_no_fuel_error(1) [of data "2 * length data + 2"]
    by (auto simp: BencodeDecode_def bind_res_Inl_iff)
  assume "BencodeDecode data = Inr v"
  then show "bvalid v"
    by (auto simp: BencodeDecode_def bind_res_Inr_iff dest: decode_valid)
  then obtain s where s: "bencodeEncodeValue v = Inr s" "decodes s (bnorm v)"
    using encode_decodes by blast
  then show "\<exists>data'. BencodeEncode v = Inr data' \<and> BencodeDecode data' = Inr (bnorm v)"
    using decodesD [OF s(2), of "2 * length s + 2" "[]"] by (simp add: BencodeEncode_def BencodeDecode_def)
qed

theorem BencodeDecode_sound_witness:
  "bvalid (BList [BInt 1, BDict [(''k'', BBytes ''v'')]])"
proof -
  have "BencodeDecode ''li1ed1:k1:vee'' = Inr (BList [BInt 1, BDict [(''k'', BBytes ''v'')]])"
    by code_simp
  then show ?thesis using BencodeDecode_sound by blast
qed

end
