(* ===== verification/Torrent.thy ===== *)
theory Torrent
  imports Bencode
begin

text \<open>
  Torrent files of \<open>pkg/torrent\<close>: the structure and its codec (\<open>torrent.go\<close>), the writer that
  hashes a stream in slices and pieces (\<open>hash_writer.go\<close>) and the generators (\<open>generate.go\<close>).

  MD5 and SHA-1 are parameters, functions from the hashed bytes to the digest. The state of a
  running hash is the bytes written to it since it was reset.
\<close>

section \<open>Hexadecimal digests\<close>

definition hex_digit :: "nat \<Rightarrow> char" where
  "hex_digit n = (if n < 10 then char_of (n + 48) else char_of (n + 87))"

definition hex_encode :: "string \<Rightarrow> string" where
  "hex_encode s = concat (map (\<lambda>c. [hex_digit (of_char c div 16), hex_digit (of_char c mod 16)]) s)"

text \<open>\<open>strings.ToUpper\<close> on ASCII text.\<close>

definition ascii_upper :: "string \<Rightarrow> string" where
  "ascii_upper s = map (\<lambda>c. let n = of_char c :: nat in if 97 \<le> n \<and> n \<le> 122 then char_of (n - 32) else c) s"

definition GetMD5Str :: "(string \<Rightarrow> string) \<Rightarrow> string \<Rightarrow> string" where
  "GetMD5Str md5 data = ascii_upper (hex_encode (md5 data))"

section \<open>The structure\<close>

definition DefaultPieceSize :: int where
  "DefaultPieceSize = 10 * 1024 * 1024"

record CASInfo =
  CASFileMD5 :: string
  CASSliceMD5 :: string
  CASSliceMD5s :: "string list"
  CASSliceSize :: int
  CASCloud :: string

record TorrentFile =
  FLength :: int
  FPath :: "string list"
  FMD5Sum :: string

record TorrentInfo =
  PieceLength :: int
  Pieces :: string
  Name :: string
  InfoLength :: int
  Files :: "TorrentFile list"
  MD5Sum :: string

record Torrent =
  Info :: TorrentInfo
  InfoHash :: string
  Announce :: string
  AnnounceList :: "string list list"
  CreationDate :: int
  Comment :: string
  CreatedBy :: string
  CAS :: "CASInfo option"

text \<open>The zero value of the structure, and the one that \<open>NewTorrent\<close> builds at time \<open>now\<close>.\<close>

definition zero_info :: TorrentInfo where
  "zero_info = \<lparr>PieceLength = 0, Pieces = [], Name = [], InfoLength = 0, Files = [], MD5Sum = []\<rparr>"

definition zero_torrent :: Torrent where
  "zero_torrent = \<lparr>Info = zero_info, InfoHash = [], Announce = [], AnnounceList = [],
     CreationDate = 0, Comment = [], CreatedBy = [], CAS = None\<rparr>"

definition NewTorrent :: "int \<Rightarrow> string \<Rightarrow> int \<Rightarrow> string \<Rightarrow> Torrent" where
  "NewTorrent now nam fileSize fileMD5 = zero_torrent
     \<lparr>Info := zero_info\<lparr>PieceLength := DefaultPieceSize, Name := nam, InfoLength := fileSize,
        MD5Sum := fileMD5\<rparr>,
      CreationDate := now, CreatedBy := ''OpenList'',
      Comment := ''Generated by OpenList with CAS extension''\<rparr>"

definition SetPieces :: "Torrent \<Rightarrow> string \<Rightarrow> Torrent" where
  "SetPieces t pieces = t\<lparr>Info := (Info t)\<lparr>Pieces := pieces\<rparr>\<rparr>"

definition SetCASInfo :: "Torrent \<Rightarrow> CASInfo \<Rightarrow> Torrent" where
  "SetCASInfo t cas = t\<lparr>CAS := Some cas\<rparr>"

section \<open>Encode\<close>

definition file_dict :: "TorrentFile \<Rightarrow> bvalue" where
  "file_dict f =
     BDict ([(''length'', BInt (FLength f)), (''path'', BList (map BStr (FPath f)))] @
       (if FMD5Sum f \<noteq> [] then [(''md5sum'', BStr (FMD5Sum f))] else []))"

definition info_dict :: "TorrentInfo \<Rightarrow> bvalue" where
  "info_dict i =
     BDict ([(''piece length'', BInt (PieceLength i)), (''pieces'', BBytes (Pieces i)), (''name'', BStr (Name i))] @
       (if Files i \<noteq> [] then [(''files'', BList (map file_dict (Files i)))]
        else [(''length'', BInt (InfoLength i))] @
          (if MD5Sum i \<noteq> [] then [(''md5sum'', BStr (MD5Sum i))] else [])))"

definition cas_dict :: "CASInfo \<Rightarrow> bvalue" where
  "cas_dict c =
     BDict ([(''cloud'', BStr (CASCloud c)), (''file_md5'', BStr (CASFileMD5 c)),
         (''slice_md5'', BStr (CASSliceMD5 c)), (''slice_size'', BInt (CASSliceSize c))] @
       (if CASSliceMD5s c \<noteq> [] then [(''slice_md5s'', BList (map BStr (CASSliceMD5s c)))] else []))"

definition root_entries :: "Torrent \<Rightarrow> (string \<times> bvalue) list" where
  "root_entries t =
     ((if Announce t \<noteq> [] then [(''announce'', BStr (Announce t))] else []) @
       (if AnnounceList t \<noteq> []
        then [(''announce-list'', BList (map (\<lambda>tier. BList (map BStr tier)) (AnnounceList t)))] else []) @
       (if Comment t \<noteq> [] then [(''comment'', BStr (Comment t))] else []) @
       (if CreatedBy t \<noteq> [] then [(''created by'', BStr (CreatedBy t))] else []) @
       (if CreationDate t > 0 then [(''creation date'', BInt (CreationDate t))] else []) @
       [(''info'', info_dict (Info t))] @
       (case CAS t of None \<Rightarrow> [] | Some c \<Rightarrow> [(''x-cas'', cas_dict c)]))"

definition root_dict :: "Torrent \<Rightarrow> bvalue" where
  "root_dict t = BDict (root_entries t)"

datatype torrent_error =
    EncodeInfoDict bencode_error
  | EncodeRoot bencode_error
  | DecodeError bencode_error
  | RootNotDict
  | InfoNotDict
  | EncodeInfoForHash bencode_error

text \<open>\<open>Encode\<close> also stores the info hash in the structure.\<close>

definition Encode :: "(string \<Rightarrow> string) \<Rightarrow> Torrent \<Rightarrow> (torrent_error + string) \<times> Torrent" where
  "Encode sha1 t =
     (case BencodeEncode (info_dict (Info t)) of
        Inl e \<Rightarrow> (Inl (EncodeInfoDict e), t)
      | Inr infoBytes \<Rightarrow>
          (case BencodeEncode (root_dict t) of
             Inl e \<Rightarrow> Inl (EncodeRoot e)
           | Inr data \<Rightarrow> Inr data,
           t\<lparr>InfoHash := sha1 infoBytes\<rparr>))"

section \<open>Decode\<close>

text \<open>The guarded reads: a missing key or a value of another type leaves the field alone.\<close>

definition get_bytes :: "(string \<times> bvalue) list \<Rightarrow> string \<Rightarrow> string" where
  "get_bytes d k = (case map_of d k of Some (BBytes b) \<Rightarrow> b | _ \<Rightarrow> [])"

definition get_int :: "(string \<times> bvalue) list \<Rightarrow> string \<Rightarrow> int" where
  "get_int d k = (case map_of d k of Some (BInt n) \<Rightarrow> n | _ \<Rightarrow> 0)"

definition get_list :: "(string \<times> bvalue) list \<Rightarrow> string \<Rightarrow> bvalue list" where
  "get_list d k = (case map_of d k of Some (BList l) \<Rightarrow> l | _ \<Rightarrow> [])"

definition bytes_of :: "bvalue list \<Rightarrow> string list" where
  "bytes_of l = concat (map (\<lambda>v. case v of BBytes b \<Rightarrow> [b] | _ \<Rightarrow> []) l)"

definition parse_tiers :: "bvalue list \<Rightarrow> string list list" where
  "parse_tiers l =
     concat (map (\<lambda>tier. case tier of
         BList tierList \<Rightarrow> (let urls = bytes_of tierList in if urls \<noteq> [] then [urls] else [])
       | _ \<Rightarrow> []) l)"

definition parse_files :: "bvalue list \<Rightarrow> TorrentFile list" where
  "parse_files l =
     concat (map (\<lambda>f. case f of
         BDict d \<Rightarrow> [\<lparr>FLength = get_int d ''length'', FPath = bytes_of (get_list d ''path''),
                      FMD5Sum = get_bytes d ''md5sum''\<rparr>]
       | _ \<Rightarrow> []) l)"

definition parse_info :: "(string \<times> bvalue) list \<Rightarrow> TorrentInfo" where
  "parse_info d = \<lparr>PieceLength = get_int d ''piece length'', Pieces = get_bytes d ''pieces'',
     Name = get_bytes d ''name'', InfoLength = get_int d ''length'',
     Files = parse_files (get_list d ''files''), MD5Sum = get_bytes d ''md5sum''\<rparr>"

definition parse_cas :: "(string \<times> bvalue) list \<Rightarrow> CASInfo" where
  "parse_cas d = \<lparr>CASFileMD5 = get_bytes d ''file_md5'', CASSliceMD5 = get_bytes d ''slice_md5'',
     CASSliceMD5s = bytes_of (get_list d ''slice_md5s''), CASSliceSize = get_int d ''slice_size'',
     CASCloud = get_bytes d ''cloud''\<rparr>"

definition Decode :: "(string \<Rightarrow> string) \<Rightarrow> string \<Rightarrow> torrent_error + Torrent" where
  "Decode sha1 data =
     (case BencodeDecode data of
        Inl e \<Rightarrow> Inl (DecodeError e)
      | Inr (BDict root) \<Rightarrow>
          (let t = zero_torrent\<lparr>Announce := get_bytes root ''announce'',
                 AnnounceList := parse_tiers (get_list root ''announce-list''),
                 Comment := get_bytes root ''comment'', CreatedBy := get_bytes root ''created by'',
                 CreationDate := get_int root ''creation date''\<rparr>;
               with_info = (case map_of root ''info'' of
                   None \<Rightarrow> Inr t
                 | Some (BDict infoDict) \<Rightarrow>
                     (case BencodeEncode (BDict infoDict) of
                        Inl e \<Rightarrow> Inl (EncodeInfoForHash e)
                      | Inr infoBytes \<Rightarrow> Inr (t\<lparr>InfoHash := sha1 infoBytes, Info := parse_info infoDict\<rparr>))
                 | Some _ \<Rightarrow> Inl InfoNotDict)
           in bind_res with_info (\<lambda>t. Inr
                (case map_of root ''x-cas'' of
                   Some (BDict casDict) \<Rightarrow> t\<lparr>CAS := Some (parse_cas casDict)\<rparr>
                 | _ \<Rightarrow> t)))
      | Inr _ \<Rightarrow> Inl RootNotDict)"

section \<open>Accessors\<close>

definition GetInfoHashHex :: "Torrent \<Rightarrow> string" where
  "GetInfoHashHex t = hex_encode (InfoHash t)"

definition Torrent_GetPieceHashes :: "Torrent \<Rightarrow> string list" where
  "Torrent_GetPieceHashes t =
     (let pieces = Pieces (Info t); count = length pieces div 20
      in map (\<lambda>i. take 20 (drop (i * 20) pieces)) [0..<count])"

definition GetTotalSize :: "Torrent \<Rightarrow> int" where
  "GetTotalSize t =
     (if Files (Info t) \<noteq> [] then foldl (\<lambda>total f. wrap64 (total + FLength f)) 0 (Files (Info t))
      else InfoLength (Info t))"

definition HasCASInfo :: "Torrent \<Rightarrow> bool" where
  "HasCASInfo t =
     (case CAS t of None \<Rightarrow> False | Some c \<Rightarrow> CASFileMD5 c \<noteq> [] \<and> CASSliceMD5 c \<noteq> [])"

definition BuildCASInfoFromMD5s :: "(string \<Rightarrow> string) \<Rightarrow> string \<Rightarrow> string list \<Rightarrow> int \<Rightarrow> CASInfo" where
  "BuildCASInfoFromMD5s md5 fileMD5 sliceMD5s sliceSize =
     \<lparr>CASFileMD5 = fileMD5,
      CASSliceMD5 = (if length sliceMD5s > 1
        then ascii_upper (GetMD5Str md5 (join_with [CHR 0x0A] sliceMD5s)) else fileMD5),
      CASSliceMD5s = sliceMD5s, CASSliceSize = sliceSize, CASCloud = ''189''\<rparr>"

section \<open>Round trip of the codec\<close>

lemma map_of_sort_key:
  assumes "distinct (map fst kvs)" shows "map_of (sort_key fst kvs) = map_of kvs"
proof -
  have "mset (map fst (sort_key fst kvs)) = mset (map fst kvs)" by simp
  then have "distinct (map fst (sort_key fst kvs))" using assms mset_eq_imp_distinct_iff by metis
  then show ?thesis using assms by (simp add: map_of_inject_set)
qed

lemma map_of_bnorm:
  assumes "distinct (map fst kvs)" "bnorm (BDict kvs) = BDict d"
  shows "map_of d k = map_option bnorm (map_of kvs k)"
proof -
  have "map_of (map (\<lambda>(k, v). (k, bnorm v)) (sort_key fst kvs)) k = map_option bnorm (map_of (sort_key fst kvs) k)"
    by (simp add: map_of_map)
  then show ?thesis using assms by (simp add: map_of_sort_key)
qed

text \<open>The structures that survive a round trip: 64-bit numbers, strings within the decoder's bound,
  no empty tracker tier, a single length or a file list.\<close>

definition file_ok :: "TorrentFile \<Rightarrow> bool" where
  "file_ok f \<longleftrightarrow> int64_range (FLength f) \<and> list_all short_string (FPath f) \<and> short_string (FMD5Sum f)"

definition info_ok :: "TorrentInfo \<Rightarrow> bool" where
  "info_ok i \<longleftrightarrow> int64_range (PieceLength i) \<and> short_string (Pieces i) \<and> short_string (Name i) \<and>
     int64_range (InfoLength i) \<and> short_string (MD5Sum i) \<and> list_all file_ok (Files i) \<and>
     (Files i = [] \<or> InfoLength i = 0 \<and> MD5Sum i = [])"

definition cas_ok :: "CASInfo \<Rightarrow> bool" where
  "cas_ok c \<longleftrightarrow> short_string (CASFileMD5 c) \<and> short_string (CASSliceMD5 c) \<and>
     list_all short_string (CASSliceMD5s c) \<and> int64_range (CASSliceSize c) \<and> short_string (CASCloud c)"

definition torrent_ok :: "Torrent \<Rightarrow> bool" where
  "torrent_ok t \<longleftrightarrow> info_ok (Info t) \<and> short_string (Announce t) \<and>
     list_all (\<lambda>tier. tier \<noteq> [] \<and> list_all short_string tier) (AnnounceList t) \<and>
     0 \<le> CreationDate t \<and> int64_range (CreationDate t) \<and> short_string (Comment t) \<and>
     short_string (CreatedBy t) \<and> (case CAS t of None \<Rightarrow> True | Some c \<Rightarrow> cas_ok c)"

lemma short_literal: "length s \<le> 100 \<Longrightarrow> short_string s"
  by (simp add: short_string_def)

lemma file_dict_valid: "file_ok f \<Longrightarrow> bvalid (file_dict f)"
  by (auto simp: file_dict_def file_ok_def short_literal list_all_iff)

lemma info_dict_valid: "info_ok i \<Longrightarrow> bvalid (info_dict i)"
  by (auto simp: info_dict_def info_ok_def short_literal list_all_iff file_dict_valid)

lemma cas_dict_valid: "cas_ok c \<Longrightarrow> bvalid (cas_dict c)"
  by (auto simp: cas_dict_def cas_ok_def short_literal list_all_iff)

lemma root_dict_valid: "torrent_ok t \<Longrightarrow> bvalid (root_dict t)"
  by (auto simp: root_dict_def root_entries_def torrent_ok_def short_literal list_all_iff info_dict_valid cas_dict_valid
      split: option.splits)

lemma bytes_of_norm [simp]: "bytes_of (map (bnorm \<circ> BStr) ss) = ss"
  by (induction ss) (simp_all add: bytes_of_def)

lemma bytes_of_BBytes [simp]: "bytes_of (map BBytes ss) = ss"
  by (induction ss) (simp_all add: bytes_of_def)

lemma parse_tiers_norm:
  "\<forall>tier \<in> set l. tier \<noteq> [] \<Longrightarrow> parse_tiers (map (\<lambda>tier. BList (map BBytes tier)) l) = l"
  by (induction l) (simp_all add: parse_tiers_def)

text \<open>Looking a key up in the decoded form of a literal dictionary.\<close>

lemma decoded_lookup:
  assumes "v = BDict kvs" "distinct (map fst kvs)" "bnorm v = BDict d"
  shows "map_of d k = map_option bnorm (map_of kvs k)"
  using map_of_bnorm [of kvs d k] assms by simp

lemmas get_defs = get_int_def get_bytes_def get_list_def

lemma parse_file_norm:
  assumes "bnorm (file_dict f) = BDict d"
  shows "get_int d ''length'' = FLength f" "get_bytes d ''md5sum'' = FMD5Sum f"
    "bytes_of (get_list d ''path'') = FPath f"
proof -
  note look = decoded_lookup [OF file_dict_def _ assms]
  show "get_int d ''length'' = FLength f" "get_bytes d ''md5sum'' = FMD5Sum f"
    "bytes_of (get_list d ''path'') = FPath f"
    by (simp_all add: get_defs look)
qed

lemma parse_files_norm: "parse_files (map (bnorm \<circ> file_dict) fs) = fs"
proof (induction fs)
  case Nil
  then show ?case by (simp add: parse_files_def)
next
  case (Cons f fs)
  obtain d where "bnorm (file_dict f) = BDict d" by (simp add: file_dict_def)
  with Cons parse_file_norm [OF this] show ?case by (simp add: parse_files_def)
qed

lemma parse_info_norm:
  assumes "info_ok i" "bnorm (info_dict i) = BDict d" shows "parse_info d = i"
proof -
  note look = decoded_lookup [OF info_dict_def _ assms(2)]
  have "parse_files [] = []" by (simp add: parse_files_def)
  moreover have "get_int d ''piece length'' = PieceLength i" "get_bytes d ''pieces'' = Pieces i"
    "get_bytes d ''name'' = Name i"
    by (simp_all add: get_defs look)
  moreover have "Files i \<noteq> [] \<Longrightarrow> InfoLength i = 0 \<and> MD5Sum i = []" using assms(1) by (simp add: info_ok_def)
  then have "get_int d ''length'' = InfoLength i" "get_bytes d ''md5sum'' = MD5Sum i"
    by (simp_all add: get_defs look)
  moreover have "parse_files (get_list d ''files'') = Files i"
    using calculation(1) by (simp add: get_defs look parse_files_norm)
  ultimately show ?thesis by (simp add: parse_info_def)
qed

lemma parse_cas_norm: assumes "bnorm (cas_dict c) = BDict d" shows "parse_cas d = c"
proof -
  note look = decoded_lookup [OF cas_dict_def _ assms]
  have "get_bytes d ''cloud'' = CASCloud c" "get_bytes d ''file_md5'' = CASFileMD5 c"
    "get_bytes d ''slice_md5'' = CASSliceMD5 c" "get_int d ''slice_size'' = CASSliceSize c"
    "bytes_of (get_list d ''slice_md5s'') = CASSliceMD5s c"
    by (simp_all add: get_defs look bytes_of_def [of "[]"])
  then show ?thesis by (simp add: parse_cas_def)
qed

lemma root_entries_distinct: "distinct (map fst (root_entries t))"
  by (simp add: root_entries_def split: option.splits)

lemma root_fields:
  assumes "torrent_ok t" "bnorm (root_dict t) = BDict root"
  shows "get_bytes root ''announce'' = Announce t" "get_bytes root ''comment'' = Comment t"
    "get_bytes root ''created by'' = CreatedBy t" "get_int root ''creation date'' = CreationDate t"
    "parse_tiers (get_list root ''announce-list'') = AnnounceList t"
    "map_of root ''info'' = Some (bnorm (info_dict (Info t)))"
    "map_of root ''x-cas'' = map_option (\<lambda>c. bnorm (cas_dict c)) (CAS t)"
proof -
  note look = decoded_lookup [OF root_dict_def root_entries_distinct assms(2)]
  have "parse_tiers [] = []" by (simp add: parse_tiers_def)
  moreover have "0 \<le> CreationDate t" "\<forall>tier \<in> set (AnnounceList t). tier \<noteq> []"
    using assms(1) by (auto simp: torrent_ok_def list_all_iff)
  ultimately show "get_bytes root ''announce'' = Announce t" "get_bytes root ''comment'' = Comment t"
    "get_bytes root ''created by'' = CreatedBy t" "get_int root ''creation date'' = CreationDate t"
    "parse_tiers (get_list root ''announce-list'') = AnnounceList t"
    "map_of root ''info'' = Some (bnorm (info_dict (Info t)))"
    "map_of root ''x-cas'' = map_option (\<lambda>c. bnorm (cas_dict c)) (CAS t)"
    using parse_tiers_norm [of "AnnounceList t"]
    by (auto simp: get_defs look root_entries_def comp_def split: option.splits)
qed

lemma Decode_of_root:
  assumes "torrent_ok t" "BencodeDecode data = Inr (bnorm (root_dict t))"
    and ib: "BencodeEncode (info_dict (Info t)) = Inr infoBytes"
  shows "Decode sha1 data = Inr (t\<lparr>InfoHash := sha1 infoBytes\<rparr>)"
proof -
  have i: "info_ok (Info t)" using assms(1) by (simp add: torrent_ok_def)
  obtain root where root: "bnorm (root_dict t) = BDict root" by (simp add: root_dict_def)
  obtain info where info: "bnorm (info_dict (Info t)) = BDict info" by (simp add: info_dict_def)
  have hash: "BencodeEncode (BDict info) = Inr infoBytes"
    using ib info bencodeEncodeValue_bnorm [of "info_dict (Info t)"] by (simp add: BencodeEncode_def)
  note fields = root_fields [OF assms(1) root] parse_info_norm [OF i info]
  show ?thesis
  proof (cases "CAS t")
    case None
    then show ?thesis using assms(2) root hash info fields by (simp add: Decode_def zero_torrent_def)
  next
    case (Some c)
    obtain cas where cas: "bnorm (cas_dict c) = BDict cas" by (simp add: cas_dict_def)
    then show ?thesis using Some assms(2) root hash info fields parse_cas_norm [OF cas]
      by (simp add: Decode_def zero_torrent_def)
  qed
qed

lemma Torrent_codec:
  assumes "torrent_ok t"
  shows "\<exists>data t'. Encode sha1 t = (Inr data, t') \<and> Decode sha1 data = Inr t' \<and>
    t'\<lparr>InfoHash := InfoHash t\<rparr> = t"
proof -
  have "info_ok (Info t)" using assms by (simp add: torrent_ok_def)
  then obtain infoBytes where ib: "BencodeEncode (info_dict (Info t)) = Inr infoBytes"
    using encode_decodes [OF info_dict_valid] by (auto simp: BencodeEncode_def)
  obtain data where data: "BencodeEncode (root_dict t) = Inr data" "decodes data (bnorm (root_dict t))"
    using encode_decodes [OF root_dict_valid [OF assms]] by (auto simp: BencodeEncode_def)
  have "BencodeDecode data = Inr (bnorm (root_dict t))"
    using decodesD [OF data(2), of "2 * length data + 2" "[]"] by (simp add: BencodeDecode_def)
  then show ?thesis using Decode_of_root [OF assms _ ib] ib data(1) by (simp add: Encode_def)
qed

text \<open>C22 (torrent round trip): a well-formed torrent is encoded without error, and decoding the file
  gives the same torrent back, with the info hash that the encoder stored.\<close>

theorem Torrent_round_trip:
  assumes "torrent_ok t"
  shows "\<exists>data t'. Encode sha1 t = (Inr data, t') \<and> Decode sha1 data = Inr t' \<and>
    t'\<lparr>InfoHash := InfoHash t\<rparr> = t"
  by (rule Torrent_codec [OF assms])

theorem Torrent_round_trip_witness:
  "\<exists>data t. Encode id (NewTorrent 7 ''a.txt'' 3 ''AB'') = (Inr data, t) \<and> Decode id data = Inr t"
proof -
  have "torrent_ok (NewTorrent 7 ''a.txt'' 3 ''AB'')" by code_simp
  from Torrent_round_trip [OF this, of id] show ?thesis by blast
qed

end
