(* ===== verification/Hash_Writer.thy ===== *)
theory Hash_Writer
  imports Torrent
begin

text \<open>
  The hash writer of \<open>pkg/torrent/hash_writer.go\<close> and the torrent generators of
  \<open>pkg/torrent/generate.go\<close>. A reader is the list of the results of its \<open>Read\<close> calls, after which it
  reports the end of the file; a destination writer is the function from the number of the call
  and the bytes to the result of its \<open>Write\<close>.
\<close>

section \<open>State\<close>

record HashWriter =
  fileMD5 :: string
  sliceMD5 :: string
  pieceSHA1 :: string
  sliceSize :: int
  pieceSize :: int
  sliceWritten :: int
  pieceWritten :: int
  totalWritten :: int
  sliceMD5Hexs :: "string list"
  pieceHashes :: string

definition NewHashWriter :: "int \<Rightarrow> int \<Rightarrow> HashWriter" where
  "NewHashWriter slice piece =
     \<lparr>fileMD5 = [], sliceMD5 = [], pieceSHA1 = [],
      sliceSize = (if slice \<le> 0 then DefaultPieceSize else slice),
      pieceSize = (if piece \<le> 0 then DefaultPieceSize else piece),
      sliceWritten = 0, pieceWritten = 0, totalWritten = 0, sliceMD5Hexs = [], pieceHashes = []\<rparr>"

definition NewDefaultHashWriter :: HashWriter where
  "NewDefaultHashWriter = NewHashWriter DefaultPieceSize DefaultPieceSize"

definition min64 :: "int \<Rightarrow> int \<Rightarrow> int" where
  "min64 a b = (if a < b then a else b)"

section \<open>Writing\<close>

definition finishSlice :: "(string \<Rightarrow> string) \<Rightarrow> HashWriter \<Rightarrow> HashWriter" where
  "finishSlice md5 hw = hw\<lparr>sliceMD5Hexs := sliceMD5Hexs hw @ [ascii_upper (hex_encode (md5 (sliceMD5 hw)))],
     sliceMD5 := [], sliceWritten := 0\<rparr>"

definition finishPiece :: "(string \<Rightarrow> string) \<Rightarrow> HashWriter \<Rightarrow> HashWriter" where
  "finishPiece sha1 hw = hw\<lparr>pieceHashes := pieceHashes hw @ sha1 (pieceSHA1 hw),
     pieceSHA1 := [], pieceWritten := 0\<rparr>"

text \<open>The bytes that one round of \<open>Write\<close> takes, and the round. A negative amount is a slice bounds
  panic and an amount of zero would repeat forever; both are \<open>None\<close>.\<close>

definition can_write :: "HashWriter \<Rightarrow> string \<Rightarrow> int" where
  "can_write hw p =
     min64 (min64 (sliceSize hw - sliceWritten hw) (pieceSize hw - pieceWritten hw)) (int (length p))"

definition write_round :: "(string \<Rightarrow> string) \<Rightarrow> (string \<Rightarrow> string) \<Rightarrow> HashWriter \<Rightarrow> string \<Rightarrow> HashWriter" where
  "write_round md5 sha1 hw chunk =
     (let n = int (length chunk);
          hw = hw\<lparr>fileMD5 := fileMD5 hw @ chunk, sliceMD5 := sliceMD5 hw @ chunk,
                 pieceSHA1 := pieceSHA1 hw @ chunk, sliceWritten := sliceWritten hw + n,
                 pieceWritten := pieceWritten hw + n, totalWritten := wrap64 (totalWritten hw + n)\<rparr>;
          hw = (if sliceWritten hw \<ge> sliceSize hw then finishSlice md5 hw else hw);
          hw = (if pieceWritten hw \<ge> pieceSize hw then finishPiece sha1 hw else hw)
      in hw)"

partial_function (option) HashWriter_Write ::
    "(string \<Rightarrow> string) \<Rightarrow> (string \<Rightarrow> string) \<Rightarrow> HashWriter \<Rightarrow> string \<Rightarrow> HashWriter option" where
  "HashWriter_Write md5 sha1 hw p =
     (if p = [] then Some hw
      else if can_write hw p < 0 then None
      else HashWriter_Write md5 sha1 (write_round md5 sha1 hw (take (nat (can_write hw p)) p))
             (drop (nat (can_write hw p)) p))"

definition Finish :: "(string \<Rightarrow> string) \<Rightarrow> (string \<Rightarrow> string) \<Rightarrow> HashWriter \<Rightarrow> HashWriter" where
  "Finish md5 sha1 hw =
     (let hw = (if sliceWritten hw > 0 then finishSlice md5 hw else hw);
          hw = (if pieceWritten hw > 0 then finishPiece sha1 hw else hw)
      in hw)"

section \<open>Results\<close>

definition GetFileMD5 :: "(string \<Rightarrow> string) \<Rightarrow> HashWriter \<Rightarrow> string" where
  "GetFileMD5 md5 hw = ascii_upper (hex_encode (md5 (fileMD5 hw)))"

definition GetSliceMD5s :: "HashWriter \<Rightarrow> string list" where
  "GetSliceMD5s hw = sliceMD5Hexs hw"

definition GetSliceMD5 :: "(string \<Rightarrow> string) \<Rightarrow> HashWriter \<Rightarrow> string \<Rightarrow> string" where
  "GetSliceMD5 md5 hw file =
     (if length (sliceMD5Hexs hw) \<le> 1 then file
      else ascii_upper (GetMD5Str md5 (join_with [CHR 0x0A] (sliceMD5Hexs hw))))"

definition GetPieceHashes :: "HashWriter \<Rightarrow> string" where
  "GetPieceHashes hw = pieceHashes hw"

definition GetTotalWritten :: "HashWriter \<Rightarrow> int" where
  "GetTotalWritten hw = totalWritten hw"

definition BuildTorrent :: "(string \<Rightarrow> string) \<Rightarrow> int \<Rightarrow> HashWriter \<Rightarrow> string \<Rightarrow> int \<Rightarrow> Torrent" where
  "BuildTorrent md5 now hw fileName fileSize =
     (let file = GetFileMD5 md5 hw;
          slice = GetSliceMD5 md5 hw file;
          t = SetPieces (NewTorrent now fileName fileSize file) (GetPieceHashes hw)
      in SetCASInfo t \<lparr>CASFileMD5 = file, CASSliceMD5 = slice, CASSliceMD5s = GetSliceMD5s hw,
           CASSliceSize = sliceSize hw, CASCloud = ''189''\<rparr>)"

definition BuildTorrentBytes ::
    "(string \<Rightarrow> string) \<Rightarrow> (string \<Rightarrow> string) \<Rightarrow> int \<Rightarrow> HashWriter \<Rightarrow> string \<Rightarrow> int \<Rightarrow> torrent_error + string" where
  "BuildTorrentBytes md5 sha1 now hw fileName fileSize =
     fst (Encode sha1 (BuildTorrent md5 now hw fileName fileSize))"

section \<open>Reading\<close>

datatype read_err = EOF | ReadErr string

datatype copy_error = WriteErr string | InvalidWriteResult | ErrShortWrite | ReadFailed string

text \<open>The check of one destination write: the bytes it counts and the error that ends the copy.\<close>

definition copy_write :: "int \<Rightarrow> int \<times> string option \<Rightarrow> int \<times> copy_error option" where
  "copy_write nr res =
     (case res of (nw, ew) \<Rightarrow>
        if nw < 0 \<or> nr < nw then
          (0, Some (case ew of None \<Rightarrow> InvalidWriteResult | Some e \<Rightarrow> WriteErr e))
        else (nw, (case ew of Some e \<Rightarrow> Some (WriteErr e)
                   | None \<Rightarrow> if nr \<noteq> nw then Some ErrShortWrite else None)))"

fun CopyAndHash ::
    "(string \<Rightarrow> string) \<Rightarrow> (string \<Rightarrow> string) \<Rightarrow> (nat \<Rightarrow> string \<Rightarrow> int \<times> string option) option \<Rightarrow> nat \<Rightarrow>
     (string \<times> read_err option) list \<Rightarrow> int \<Rightarrow> HashWriter \<Rightarrow> ((int \<times> copy_error option) \<times> HashWriter) option" where
  "CopyAndHash md5 sha1 dst i [] written hw = Some ((written, None), hw)"
| "CopyAndHash md5 sha1 dst i ((buf, er) # src) written hw =
     (case (if buf \<noteq> [] then HashWriter_Write md5 sha1 hw buf else Some hw) of
        None \<Rightarrow> None
      | Some hw \<Rightarrow>
          (case (if buf = [] then (0, None)
                 else (case dst of
                     None \<Rightarrow> (int (length buf), None)
                   | Some w \<Rightarrow> copy_write (int (length buf)) (w i buf))) of
             (nw, Some e) \<Rightarrow> Some ((written + nw, Some e), hw)
           | (nw, None) \<Rightarrow>
               (case er of
                  Some EOF \<Rightarrow> Some ((written + nw, None), hw)
                | Some (ReadErr e) \<Rightarrow> Some ((written + nw, Some (ReadFailed e)), hw)
                | None \<Rightarrow> CopyAndHash md5 sha1 dst (if buf = [] then i else Suc i) src (written + nw) hw)))"

text \<open>The read loop of the generators.\<close>

fun hash_reads ::
    "(string \<Rightarrow> string) \<Rightarrow> (string \<Rightarrow> string) \<Rightarrow> (string \<times> read_err option) list \<Rightarrow> HashWriter \<Rightarrow> (string + HashWriter) option" where
  "hash_reads md5 sha1 [] hw = Some (Inr hw)"
| "hash_reads md5 sha1 ((buf, er) # src) hw =
     (case (if buf \<noteq> [] then HashWriter_Write md5 sha1 hw buf else Some hw) of
        None \<Rightarrow> None
      | Some hw \<Rightarrow>
          (case er of
             Some EOF \<Rightarrow> Some (Inr hw)
           | Some (ReadErr e) \<Rightarrow> Some (Inl e)
           | None \<Rightarrow> hash_reads md5 sha1 src hw))"

datatype generate_error = ReaderError string | TorrentError torrent_error

definition generate_torrent ::
    "(string \<Rightarrow> string) \<Rightarrow> int \<Rightarrow> HashWriter \<Rightarrow> string \<Rightarrow> int \<Rightarrow> int \<Rightarrow> Torrent" where
  "generate_torrent md5 now hw fileName fileSize piece =
     (let t = NewTorrent now fileName fileSize (GetFileMD5 md5 hw);
          t = t\<lparr>Info := (Info t)\<lparr>PieceLength := piece\<rparr>\<rparr>
      in SetPieces t (GetPieceHashes hw))"

definition GenerateFromReader ::
    "(string \<Rightarrow> string) \<Rightarrow> (string \<Rightarrow> string) \<Rightarrow> int \<Rightarrow> (string \<times> read_err option) list \<Rightarrow> string \<Rightarrow> int \<Rightarrow> int
     \<Rightarrow> (generate_error + string) option" where
  "GenerateFromReader md5 sha1 now reader fileName fileSize piece =
     (let piece = (if piece \<le> 0 then DefaultPieceSize else piece) in
        case hash_reads md5 sha1 reader (NewHashWriter piece piece) of
          None \<Rightarrow> None
        | Some (Inl e) \<Rightarrow> Some (Inl (ReaderError e))
        | Some (Inr hw) \<Rightarrow>
            (let hw = Finish md5 sha1 hw in
               Some (case fst (Encode sha1 (generate_torrent md5 now hw fileName fileSize piece)) of
                       Inl e \<Rightarrow> Inl (TorrentError e) | Inr data \<Rightarrow> Inr data)))"

definition GenerateFromReaderWithCAS ::
    "(string \<Rightarrow> string) \<Rightarrow> (string \<Rightarrow> string) \<Rightarrow> int \<Rightarrow> (string \<times> read_err option) list \<Rightarrow> string \<Rightarrow> int \<Rightarrow> int
     \<Rightarrow> (generate_error + string) option" where
  "GenerateFromReaderWithCAS md5 sha1 now reader fileName fileSize piece =
     (let piece = (if piece \<le> 0 then DefaultPieceSize else piece) in
        case hash_reads md5 sha1 reader (NewHashWriter piece piece) of
          None \<Rightarrow> None
        | Some (Inl e) \<Rightarrow> Some (Inl (ReaderError e))
        | Some (Inr hw) \<Rightarrow>
            (let hw = Finish md5 sha1 hw;
                 file = GetFileMD5 md5 hw;
                 slices = GetSliceMD5s hw;
                 slice = (if length slices > 1
                   then ascii_upper (GetMD5Str md5 (join_with [CHR 0x0A] slices)) else file);
                 t = SetCASInfo (generate_torrent md5 now hw fileName fileSize piece)
                   \<lparr>CASFileMD5 = file, CASSliceMD5 = slice, CASSliceMD5s = slices,
                    CASSliceSize = piece, CASCloud = ''189''\<rparr>
             in Some (case fst (Encode sha1 t) of
                        Inl e \<Rightarrow> Inl (TorrentError e) | Inr data \<Rightarrow> Inr data)))"

section \<open>Blocks\<close>

text \<open>The reference: the data cut into blocks of \<open>n\<close> bytes, the last one possibly shorter.\<close>

function chunks_of :: "nat \<Rightarrow> 'a list \<Rightarrow> 'a list list" where
  "chunks_of n xs = (if n = 0 \<or> xs = [] then [] else take n xs # chunks_of n (drop n xs))"
  by pat_completeness auto
termination
  by (relation "measure (\<lambda>(n, xs). length xs)") auto

declare chunks_of.simps [simp del]

definition blocks_ok :: "int \<Rightarrow> string \<Rightarrow> string \<Rightarrow> string list \<Rightarrow> bool" where
  "blocks_ok n data cur bs \<longleftrightarrow>
     data = concat bs @ cur \<and> (\<forall>b \<in> set bs. int (length b) = n) \<and> int (length cur) < n"

lemma blocks_ok_chunks:
  "blocks_ok n data cur bs \<Longrightarrow> chunks_of (nat n) data = bs @ (if cur = [] then [] else [cur])"
proof (induction bs arbitrary: data)
  case Nil
  then show ?case
    by (auto simp: blocks_ok_def chunks_of.simps [of "nat n" cur] chunks_of.simps [of "nat n" "[]"])
next
  case (Cons b bs)
  then have "blocks_ok n (concat bs @ cur) cur bs" by (simp add: blocks_ok_def)
  moreover have "data = b @ concat bs @ cur" "nat n = length b" "b \<noteq> []"
    using Cons.prems by (auto simp: blocks_ok_def)
  ultimately show ?case using Cons.IH [of "concat bs @ cur"]
    by (simp add: chunks_of.simps [of "length b" "b @ concat bs @ cur"] chunks_of.simps [of "length b" "b @ concat bs"])
qed

lemma blocks_ok_full:
  "blocks_ok n data cur bs \<Longrightarrow> int (length (cur @ chunk)) = n \<Longrightarrow> blocks_ok n (data @ chunk) [] (bs @ [cur @ chunk])"
  by (auto simp: blocks_ok_def)

lemma blocks_ok_part:
  "blocks_ok n data cur bs \<Longrightarrow> int (length (cur @ chunk)) < n \<Longrightarrow> blocks_ok n (data @ chunk) (cur @ chunk) bs"
  by (auto simp: blocks_ok_def)

section \<open>The writer's invariant\<close>

text \<open>After \<open>data\<close> has been written, the writer holds the digests of the complete blocks and the
  bytes of the unfinished one, for slices and for pieces.\<close>

definition hash_inv :: "(string \<Rightarrow> string) \<Rightarrow> (string \<Rightarrow> string) \<Rightarrow> string \<Rightarrow> HashWriter \<Rightarrow> bool" where
  "hash_inv md5 sha1 data hw \<longleftrightarrow>
     fileMD5 hw = data \<and> totalWritten hw = wrap64 (int (length data)) \<and>
     sliceWritten hw = int (length (sliceMD5 hw)) \<and> pieceWritten hw = int (length (pieceSHA1 hw)) \<and>
     (\<exists>bs. blocks_ok (sliceSize hw) data (sliceMD5 hw) bs \<and> sliceMD5Hexs hw = map (GetMD5Str md5) bs) \<and>
     (\<exists>bs. blocks_ok (pieceSize hw) data (pieceSHA1 hw) bs \<and> pieceHashes hw = concat (map sha1 bs))"

lemma hash_inv_new: "hash_inv md5 sha1 [] (NewHashWriter slice piece)"
  unfolding hash_inv_def
  by (intro conjI exI [of _ "[]"]) (auto simp: NewHashWriter_def blocks_ok_def wrap64_def DefaultPieceSize_def)

lemma write_round_inv:
  assumes inv: "hash_inv md5 sha1 data hw"
    and room: "int (length chunk) \<le> sliceSize hw - sliceWritten hw" "int (length chunk) \<le> pieceSize hw - pieceWritten hw"
  shows "hash_inv md5 sha1 (data @ chunk) (write_round md5 sha1 hw chunk)"
proof -
  obtain bs cs where bs: "blocks_ok (sliceSize hw) data (sliceMD5 hw) bs" "sliceMD5Hexs hw = map (GetMD5Str md5) bs"
    and cs: "blocks_ok (pieceSize hw) data (pieceSHA1 hw) cs" "pieceHashes hw = concat (map sha1 cs)"
    using inv by (auto simp: hash_inv_def)
  have len: "sliceWritten hw = int (length (sliceMD5 hw))" "pieceWritten hw = int (length (pieceSHA1 hw))"
    and tot: "wrap64 (totalWritten hw + int (length chunk)) = wrap64 (int (length (data @ chunk)))"
    using inv by (simp_all add: hash_inv_def wrap64_add)
  let ?hw = "write_round md5 sha1 hw chunk"
  have slice: "\<exists>bs. blocks_ok (sliceSize ?hw) (data @ chunk) (sliceMD5 ?hw) bs \<and> sliceMD5Hexs ?hw = map (GetMD5Str md5) bs"
  proof (cases "int (length (sliceMD5 hw @ chunk)) = sliceSize hw")
    case True
    with blocks_ok_full [OF bs(1) True] bs(2) len show ?thesis
      by (intro exI [of _ "bs @ [sliceMD5 hw @ chunk]"])
        (simp add: write_round_def finishSlice_def finishPiece_def GetMD5Str_def Let_def)
  next
    case False
    then have "int (length (sliceMD5 hw @ chunk)) < sliceSize hw" using room len by simp
    with blocks_ok_part [OF bs(1) this] bs(2) len show ?thesis
      by (intro exI [of _ bs]) (simp add: write_round_def finishPiece_def Let_def)
  qed
  have piece: "\<exists>bs. blocks_ok (pieceSize ?hw) (data @ chunk) (pieceSHA1 ?hw) bs \<and> pieceHashes ?hw = concat (map sha1 bs)"
  proof (cases "int (length (pieceSHA1 hw @ chunk)) = pieceSize hw")
    case True
    with blocks_ok_full [OF cs(1) True] cs(2) len show ?thesis
      by (intro exI [of _ "cs @ [pieceSHA1 hw @ chunk]"])
        (simp add: write_round_def finishSlice_def finishPiece_def Let_def)
  next
    case False
    then have "int (length (pieceSHA1 hw @ chunk)) < pieceSize hw" using room len by simp
    with blocks_ok_part [OF cs(1) this] cs(2) len show ?thesis
      by (intro exI [of _ cs]) (simp add: write_round_def finishSlice_def Let_def)
  qed
  have "fileMD5 ?hw = data @ chunk" "totalWritten ?hw = wrap64 (int (length (data @ chunk)))"
    "sliceWritten ?hw = int (length (sliceMD5 ?hw))" "pieceWritten ?hw = int (length (pieceSHA1 ?hw))"
    using inv tot len by (simp_all add: hash_inv_def write_round_def finishSlice_def finishPiece_def Let_def)
  with slice piece show ?thesis by (simp add: hash_inv_def)
qed

lemma write_round_sizes:
  "sliceSize (write_round md5 sha1 hw chunk) = sliceSize hw" "pieceSize (write_round md5 sha1 hw chunk) = pieceSize hw"
  by (simp_all add: write_round_def finishSlice_def finishPiece_def Let_def)

text \<open>\<open>Write\<close> returns, and extends the written data by its argument.\<close>

lemma Write_inv:
  "hash_inv md5 sha1 data hw \<Longrightarrow>
     \<exists>hw'. HashWriter_Write md5 sha1 hw p = Some hw' \<and> hash_inv md5 sha1 (data @ p) hw' \<and>
       sliceSize hw' = sliceSize hw \<and> pieceSize hw' = pieceSize hw"
proof (induction "length p" arbitrary: p data hw rule: less_induct)
  case less
  show ?case
  proof (cases "p = []")
    case True
    with less.prems show ?thesis by (simp add: HashWriter_Write.simps)
  next
    case False
    let ?n = "can_write hw p"
    have "sliceWritten hw < sliceSize hw" "pieceWritten hw < pieceSize hw"
      using less.prems by (auto simp: hash_inv_def blocks_ok_def)
    then have n: "0 < ?n" "?n \<le> sliceSize hw - sliceWritten hw" "?n \<le> pieceSize hw - pieceWritten hw"
        "?n \<le> int (length p)"
      using False by (auto simp: can_write_def min64_def)
    let ?hw = "write_round md5 sha1 hw (take (nat ?n) p)"
    have "hash_inv md5 sha1 (data @ take (nat ?n) p) ?hw"
      by (rule write_round_inv [OF less.prems]) (use n in auto)
    from less.hyps [OF _ this, of "drop (nat ?n) p"] n False
    obtain hw' where "HashWriter_Write md5 sha1 ?hw (drop (nat ?n) p) = Some hw'"
        "hash_inv md5 sha1 (data @ p) hw'" "sliceSize hw' = sliceSize hw" "pieceSize hw' = pieceSize hw"
      by (auto simp: write_round_sizes)
    with n False show ?thesis by (simp add: HashWriter_Write.simps [of md5 sha1 hw p])
  qed
qed

section \<open>Whole streams\<close>

text \<open>Writing a list of buffers one after the other.\<close>

fun write_all :: "(string \<Rightarrow> string) \<Rightarrow> (string \<Rightarrow> string) \<Rightarrow> HashWriter \<Rightarrow> string list \<Rightarrow> HashWriter option" where
  "write_all md5 sha1 hw [] = Some hw"
| "write_all md5 sha1 hw (p # ps) =
     (case HashWriter_Write md5 sha1 hw p of None \<Rightarrow> None | Some hw \<Rightarrow> write_all md5 sha1 hw ps)"

lemma write_all_inv:
  "hash_inv md5 sha1 data hw \<Longrightarrow>
     \<exists>hw'. write_all md5 sha1 hw ps = Some hw' \<and> hash_inv md5 sha1 (data @ concat ps) hw' \<and>
       sliceSize hw' = sliceSize hw \<and> pieceSize hw' = pieceSize hw"
proof (induction ps arbitrary: data hw)
  case Nil
  then show ?case by simp
next
  case (Cons p ps)
  from Write_inv [OF Cons.prems, of p] obtain hw1 where
    "HashWriter_Write md5 sha1 hw p = Some hw1" "hash_inv md5 sha1 (data @ p) hw1"
    "sliceSize hw1 = sliceSize hw" "pieceSize hw1 = pieceSize hw" by blast
  with Cons.IH [of "data @ p" hw1] show ?case by simp
qed

lemma Finish_digests:
  assumes "hash_inv md5 sha1 data hw"
  shows "sliceMD5Hexs (Finish md5 sha1 hw) = map (GetMD5Str md5) (chunks_of (nat (sliceSize hw)) data)"
    "pieceHashes (Finish md5 sha1 hw) = concat (map sha1 (chunks_of (nat (pieceSize hw)) data))"
    "fileMD5 (Finish md5 sha1 hw) = data"
proof -
  obtain bs cs where bs: "blocks_ok (sliceSize hw) data (sliceMD5 hw) bs" "sliceMD5Hexs hw = map (GetMD5Str md5) bs"
    and cs: "blocks_ok (pieceSize hw) data (pieceSHA1 hw) cs" "pieceHashes hw = concat (map sha1 cs)"
    and len: "sliceWritten hw = int (length (sliceMD5 hw))" "pieceWritten hw = int (length (pieceSHA1 hw))"
      "fileMD5 hw = data"
    using assms by (auto simp: hash_inv_def)
  show "sliceMD5Hexs (Finish md5 sha1 hw) = map (GetMD5Str md5) (chunks_of (nat (sliceSize hw)) data)"
    "pieceHashes (Finish md5 sha1 hw) = concat (map sha1 (chunks_of (nat (pieceSize hw)) data))"
    "fileMD5 (Finish md5 sha1 hw) = data"
    using bs(2) cs(2) len blocks_ok_chunks [OF bs(1)] blocks_ok_chunks [OF cs(1)]
    by (simp_all add: Finish_def finishSlice_def finishPiece_def GetMD5Str_def Let_def)
qed

text \<open>What a reader delivers: the bytes of its reads up to the end of the stream, which a read may report together with its
  last bytes; a list that ends without such a report ends with an empty read. \<open>None\<close> if a read fails.\<close>

fun delivered :: "(string \<times> read_err option) list \<Rightarrow> string option" where
  "delivered [] = Some []"
| "delivered ((buf, None) # src) = map_option ((@) buf) (delivered src)"
| "delivered ((buf, Some EOF) # src) = Some buf"
| "delivered ((buf, Some (ReadErr e)) # src) = None"

lemma hash_reads_inv:
  assumes "hash_inv md5 sha1 data hw" "delivered reads = Some rest"
  shows "\<exists>hw'. hash_reads md5 sha1 reads hw = Some (Inr hw') \<and>
    hash_inv md5 sha1 (data @ rest) hw' \<and> sliceSize hw' = sliceSize hw \<and> pieceSize hw' = pieceSize hw"
  using assms
proof (induction reads arbitrary: data hw rest)
  case Nil
  then show ?case by simp
next
  case (Cons r reads)
  obtain buf er where r: "r = (buf, er)" by (cases r)
  obtain hw1 where hw1: "(if buf \<noteq> [] then HashWriter_Write md5 sha1 hw buf else Some hw) = Some hw1"
    "hash_inv md5 sha1 (data @ buf) hw1" "sliceSize hw1 = sliceSize hw" "pieceSize hw1 = pieceSize hw"
    using Write_inv [OF Cons.prems(1), of buf] Cons.prems(1) by (cases "buf = []") auto
  show ?case
  proof (cases er)
    case None
    then obtain rest' where "delivered reads = Some rest'" "rest = buf @ rest'" using Cons.prems(2) r by auto
    then show ?thesis using Cons.IH [OF hw1(2)] hw1 r None by simp
  next
    case (Some x)
    then have x: "x = EOF" "rest = buf" using Cons.prems(2) r by (cases x; simp)+
    have "hash_reads md5 sha1 (r # reads) hw = Some (Inr hw1)"
      unfolding r Some x(1) hash_reads.simps hw1(1) by simp
    then show ?thesis using hw1(2-4) x(2) by blast
  qed
qed

section \<open>Properties\<close>

text \<open>C11 (chunk independence): however a stream is cut into \<open>Write\<close> calls, every call returns and
  the writer ends with the digests of the data's slices and pieces and of the whole data.\<close>

theorem HashWriter_digests:
  "\<exists>hw. write_all md5 sha1 (NewHashWriter slice piece) ps = Some hw \<and>
    GetSliceMD5s (Finish md5 sha1 hw) =
      map (GetMD5Str md5) (chunks_of (nat (if slice \<le> 0 then DefaultPieceSize else slice)) (concat ps)) \<and>
    GetPieceHashes (Finish md5 sha1 hw) =
      concat (map sha1 (chunks_of (nat (if piece \<le> 0 then DefaultPieceSize else piece)) (concat ps))) \<and>
    GetFileMD5 md5 (Finish md5 sha1 hw) = GetMD5Str md5 (concat ps) \<and>
    GetTotalWritten hw = wrap64 (int (length (concat ps)))"
proof -
  obtain hw where hw: "write_all md5 sha1 (NewHashWriter slice piece) ps = Some hw"
    "hash_inv md5 sha1 (concat ps) hw" "sliceSize hw = sliceSize (NewHashWriter slice piece)"
    "pieceSize hw = pieceSize (NewHashWriter slice piece)"
    using write_all_inv [OF hash_inv_new, of md5 sha1 slice piece ps] by auto
  then show ?thesis using Finish_digests [OF hw(2)]
    by (auto simp: GetSliceMD5s_def GetPieceHashes_def GetFileMD5_def GetTotalWritten_def GetMD5Str_def
        hash_inv_def NewHashWriter_def)
qed

text \<open>C23 (generated torrents): a torrent generated from a stream that is read without error decodes to one whose pieces
  and slice digests are those of the data, however the reads cut it, also when the last bytes come together with the end of the
  stream. The sizes and times are 64-bit numbers, the name and the pieces are shorter than that, and digests have 16 bytes.\<close>

theorem GenerateFromReaderWithCAS_decodes:
  assumes "delivered reads = Some data"
    "0 < piece" "int64_range piece" "0 \<le> now" "int64_range now" "int64_range fileSize" "short_string fileName"
    "\<And>x. length (md5 x) = 16" "short_string (concat (map sha1 (chunks_of (nat piece) data)))"
  shows "\<exists>out t. GenerateFromReaderWithCAS md5 sha1 now reads fileName fileSize piece = Some (Inr out) \<and>
    Decode sha1 out = Inr t \<and> Pieces (Info t) = concat (map sha1 (chunks_of (nat piece) data)) \<and>
    PieceLength (Info t) = piece \<and> MD5Sum (Info t) = GetMD5Str md5 data \<and>
    CAS t = Some (BuildCASInfoFromMD5s md5 (GetMD5Str md5 data)
      (map (GetMD5Str md5) (chunks_of (nat piece) data)) piece)"
proof -
  obtain hw where hw: "hash_reads md5 sha1 reads (NewHashWriter piece piece) = Some (Inr hw)"
    "hash_inv md5 sha1 data hw" "sliceSize hw = piece" "pieceSize hw = piece"
    using hash_reads_inv [OF hash_inv_new assms(1), of md5 sha1 piece piece] assms(2)
    by (auto simp: NewHashWriter_def)
  let ?hw = "Finish md5 sha1 hw" and ?md5 = "GetMD5Str md5 data"
  let ?slices = "map (GetMD5Str md5) (chunks_of (nat piece) data)"
  have res: "GetFileMD5 md5 ?hw = ?md5" "GetSliceMD5s ?hw = ?slices"
    "GetPieceHashes ?hw = concat (map sha1 (chunks_of (nat piece) data))"
    using Finish_digests [OF hw(2)] hw(3,4)
    by (simp_all add: GetFileMD5_def GetSliceMD5s_def GetPieceHashes_def GetMD5Str_def)
  let ?t = "SetCASInfo (generate_torrent md5 now ?hw fileName fileSize piece) (BuildCASInfoFromMD5s md5 ?md5 ?slices piece)"
  have digest: "short_string (GetMD5Str md5 x)" "short_string (ascii_upper (GetMD5Str md5 x))" for x
    using assms(8) [of x]
    by (auto simp: short_string_def GetMD5Str_def ascii_upper_def hex_encode_def length_concat comp_def sum_list_triv)
  have "torrent_ok ?t"
    using assms(2-9) digest res short_literal
    by (auto simp: torrent_ok_def info_ok_def cas_ok_def SetCASInfo_def generate_torrent_def NewTorrent_def
        SetPieces_def zero_torrent_def zero_info_def BuildCASInfoFromMD5s_def list_all_iff Let_def)
  then obtain out t' where out: "Encode sha1 ?t = (Inr out, t')" "Decode sha1 out = Inr t'"
      "t'\<lparr>InfoHash := InfoHash ?t\<rparr> = ?t"
    using Torrent_codec by blast
  have "GenerateFromReaderWithCAS md5 sha1 now reads fileName fileSize piece = Some (Inr out)"
    using hw(1) assms(2) res out(1)
    by (simp add: GenerateFromReaderWithCAS_def BuildCASInfoFromMD5s_def Let_def split: if_splits)
  moreover have "Info t' = Info ?t" "CAS t' = CAS ?t"
    using out(3) by (metis (no_types, lifting) Torrent.select_convs Torrent.surjective Torrent.update_convs(2))+
  ultimately show ?thesis using out(2) res
    by (simp add: SetCASInfo_def generate_torrent_def NewTorrent_def SetPieces_def Let_def)
qed

theorem GenerateFromReaderWithCAS_decodes_witness:
  "\<exists>out t. GenerateFromReaderWithCAS (\<lambda>_. replicate 16 (CHR ''m'')) id 5
      [(''ab'', None), ([], None), (''cde'', Some EOF), (''z'', None)] ''f'' 5 2 = Some (Inr out) \<and>
    Decode id out = Inr t \<and> Pieces (Info t) = ''abcde''"
proof -
  have ok: "delivered [(''ab'', None), ([], None), (''cde'', Some EOF), (''z'', None)] = Some ''abcde''"
    "int64_range 2" "int64_range 5" "short_string ''f''"
    "\<And>x. length ((\<lambda>_. replicate 16 (CHR ''m'')) x) = 16"
    "short_string (concat (map id (chunks_of (nat 2) ''abcde'')))"
    "concat (map id (chunks_of (nat 2) ''abcde'')) = ''abcde''"
    by (simp_all add: int64_range_def short_string_def chunks_of.simps)
  show ?thesis
    using GenerateFromReaderWithCAS_decodes [OF ok(1) _ ok(2) _ ok(3,3,4,5,6)] ok(7) by auto
qed

end
