(* ===== verification/Window.thy ===== *)
theory Window
  imports Go_Prelude
begin

text \<open>
  The receiving window of \<open>internal/multipart/window.go\<close>: chunks of an upload arrive in any order and
  from several requests at once, land in the slots of a ring file, and are read back as one
  sequential stream.

  Every critical section under the mutex is one function on the state. What happens outside the
  mutex (copying a request body into the ring file, \<open>ReadAt\<close>) is a step of its own, so the step
  relation at the end interleaves them in all ways the locking allows. A wait on the condition
  variable changes nothing and is not a step. The ring file is the function from offsets to bytes,
  the CRC-32 a parameter.
\<close>

section \<open>State\<close>

datatype slot_state = slotFree | slotFilling | slotReady

datatype window_error =
    ErrClosed
  | ErrChunkInFlight
  | ErrOutOfWindow
  | StickyError string
  | IndexOutOfRange int nat
  | ChunkTooLarge nat nat
  | IncompleteChunk nat nat nat

record Window =
  wopen :: bool
  wfile :: "nat \<Rightarrow> char"
  chunkSize :: nat
  totalSize :: nat
  total :: nat
  slots :: nat
  slotState :: "slot_state list"
  slotChunk :: "int list"
  readPos :: nat
  crcs :: "nat list"
  crcSet :: "bool list"
  werr :: "window_error option"

record Snapshot =
  Frontier :: nat
  SnapReadPos :: nat
  ReceivedBytes :: int
  Received :: "(nat \<times> nat) list"

section \<open>Operations\<close>

text \<open>\<open>mkdir\<close> and \<open>openFile\<close> are the errors of the file system calls. A negative chunk count, which
  only the overflow of \<open>totalSize + chunkSize - 1\<close> can give, makes \<open>make\<close> panic.\<close>

datatype new_window = NewInvalid | NewIOError string | NewPanic | NewOk Window

definition NewWindow ::
    "string option \<Rightarrow> string option \<Rightarrow> int \<Rightarrow> int \<Rightarrow> int \<Rightarrow> new_window" where
  "NewWindow mkdir openFile cs ts n =
     (if cs \<le> 0 \<or> ts \<le> 0 \<or> n \<le> 0 then NewInvalid
      else (case mkdir of Some e \<Rightarrow> NewIOError e | None \<Rightarrow>
        (case openFile of Some e \<Rightarrow> NewIOError e | None \<Rightarrow>
          (let t = go_div (wrap64 (ts + cs - 1)) cs in
             if t < 0 then NewPanic
             else NewOk \<lparr>wopen = True, wfile = (\<lambda>_. CHR 0x00), chunkSize = nat cs, totalSize = nat ts,
               total = nat t, slots = nat n, slotState = replicate (nat n) slotFree,
               slotChunk = replicate (nat n) (- 1), readPos = 0, crcs = replicate (nat t) 0,
               crcSet = replicate (nat t) False, werr = None\<rparr>))))"

definition TotalChunks :: "Window \<Rightarrow> nat" where
  "TotalChunks w = total w"

definition ChunkLen :: "Window \<Rightarrow> nat \<Rightarrow> nat" where
  "ChunkLen w idx = (if Suc idx = total w then totalSize w - idx * chunkSize w else chunkSize w)"

definition frontier :: "Window \<Rightarrow> nat" where
  "frontier w = (if readPos w \<ge> totalSize w then total w else readPos w div chunkSize w)"

definition set_slot :: "nat \<Rightarrow> slot_state \<Rightarrow> int \<Rightarrow> Window \<Rightarrow> Window" where
  "set_slot s st c w = w\<lparr>slotState := (slotState w)[s := st], slotChunk := (slotChunk w)[s := c]\<rparr>"

text \<open>\<open>WriteChunk\<close> up to the point where it starts to copy: the checks at entry and one round of the
  admission loop. \<open>expired\<close> tells whether the deadline has passed.\<close>

datatype admission = AdmitErr window_error | AdmitCrc nat | AdmitWait | AdmitGo Window

definition admission_round :: "Window \<Rightarrow> nat \<Rightarrow> bool \<Rightarrow> admission" where
  "admission_round w idx expired =
     (let len = ChunkLen w idx; slot = idx mod slots w in
        case werr w of
          Some e \<Rightarrow> AdmitErr e
        | None \<Rightarrow>
            if idx * chunkSize w + len \<le> readPos w then AdmitCrc (crcs w ! idx)
            else if slotChunk w ! slot = int idx \<and> slotState w ! slot = slotReady then AdmitCrc (crcs w ! idx)
            else if slotChunk w ! slot = int idx \<and> slotState w ! slot = slotFilling then AdmitErr ErrChunkInFlight
            else if slotState w ! slot = slotFree \<and> idx < frontier w + slots w
              then AdmitGo (set_slot slot slotFilling (int idx) w)
            else if expired then AdmitErr ErrOutOfWindow
            else AdmitWait)"

definition WriteChunk_admit :: "Window \<Rightarrow> int \<Rightarrow> bool \<Rightarrow> admission" where
  "WriteChunk_admit w idx expired =
     (case werr w of
        Some e \<Rightarrow> AdmitErr e
      | None \<Rightarrow>
          if idx < 0 \<or> idx \<ge> int (total w) then AdmitErr (IndexOutOfRange idx (total w))
          else admission_round w (nat idx) expired)"

text \<open>The outcome of copying the request body: it must hold exactly one chunk.\<close>

definition copy_error :: "Window \<Rightarrow> nat \<Rightarrow> string \<Rightarrow> window_error option" where
  "copy_error w idx body =
     (let len = ChunkLen w idx in
        if length body < len then Some (IncompleteChunk idx (length body) len)
        else if length body > len then Some (ChunkTooLarge idx len)
        else None)"

text \<open>The last critical section of \<open>WriteChunk\<close>; \<open>h\<close> is the checksum of the copied bytes.\<close>

definition WriteChunk_commit ::
    "Window \<Rightarrow> nat \<Rightarrow> window_error option \<Rightarrow> nat \<Rightarrow> (window_error + nat) \<times> Window" where
  "WriteChunk_commit w idx err h =
     (let slot = idx mod slots w in
        if slotState w ! slot \<noteq> slotFilling \<or> slotChunk w ! slot \<noteq> int idx then
          (Inl (case werr w of Some e \<Rightarrow> e | None \<Rightarrow> ErrClosed), w)
        else
          (let err = (if err = None \<and> werr w \<noteq> None then werr w else err) in
             case err of
               Some e \<Rightarrow> (Inl e, set_slot slot slotFree (- 1) w)
             | None \<Rightarrow> (Inr h, w\<lparr>slotState := (slotState w)[slot := slotReady],
                   crcs := (crcs w)[idx := h], crcSet := (crcSet w)[idx := True]\<rparr>)))"

text \<open>\<open>Read\<close>: the round of its loop that decides what to do, and the critical section after
  \<open>ReadAt\<close> has read \<open>got\<close> bytes. \<open>ReadGo slot off n chunkEnd\<close> reads \<open>n\<close> bytes at \<open>off\<close>.\<close>

datatype read_error = WindowErr window_error | ReadEOF | ReadUnexpectedEOF | ReadOSError string

datatype read_poll = ReadRet "nat \<times> read_error option" | ReadWait | ReadGo nat nat nat nat

definition Read_poll :: "Window \<Rightarrow> nat \<Rightarrow> read_poll" where
  "Read_poll w plen =
     (if plen = 0 then ReadRet (0, None)
      else (case werr w of
          Some e \<Rightarrow> ReadRet (0, Some (WindowErr e))
        | None \<Rightarrow>
            if readPos w \<ge> totalSize w then ReadRet (0, Some ReadEOF)
            else
              (let cur = readPos w div chunkSize w; slot = cur mod slots w in
                 if slotState w ! slot = slotReady \<and> slotChunk w ! slot = int cur then
                   (let chunkStart = cur * chunkSize w;
                        chunkEnd = chunkStart + ChunkLen w cur
                    in ReadGo slot (slot * chunkSize w + (readPos w - chunkStart))
                         (min plen (chunkEnd - readPos w)) chunkEnd)
                 else ReadWait)))"

definition Read_finish ::
    "Window \<Rightarrow> nat \<Rightarrow> nat \<Rightarrow> nat \<Rightarrow> string option \<Rightarrow> (nat \<times> read_error option) \<times> Window" where
  "Read_finish w slot chunkEnd got oserr =
     (let w' = (if got > 0 then
                  (let w = w\<lparr>readPos := readPos w + got\<rparr> in
                     if readPos w \<ge> chunkEnd then set_slot slot slotFree (- 1) w else w)
                else w)
      in (if got > 0 then (got, None)
          else (0, Some (case werr w' of
              Some e \<Rightarrow> WindowErr e
            | None \<Rightarrow> (case oserr of Some e \<Rightarrow> ReadOSError e | None \<Rightarrow> ReadUnexpectedEOF))), w'))"

text \<open>\<open>CloseWithError\<close>; the errors of closing and removing the file do not change the state.\<close>

definition CloseWithError :: "window_error \<Rightarrow> Window \<Rightarrow> Window" where
  "CloseWithError sticky w =
     w\<lparr>werr := (if werr w = None then Some sticky else werr w), wopen := False,
       slotState := map (\<lambda>_. slotFree) (slotState w), slotChunk := map (\<lambda>_. - 1) (slotChunk w)\<rparr>"

definition Close :: "Window \<Rightarrow> Window" where
  "Close w = CloseWithError ErrClosed w"

text \<open>One round of the loop of \<open>Snapshot\<close> on the pair of \<open>ranges\<close> and \<open>ReceivedBytes\<close>.\<close>

definition snapshot_step :: "Window \<Rightarrow> (nat \<times> nat) list \<times> int \<Rightarrow> nat \<Rightarrow> (nat \<times> nat) list \<times> int" where
  "snapshot_step w acc idx =
     (case acc of (ranges, bytes) \<Rightarrow>
        let slot = idx mod slots w in
          if slotState w ! slot \<noteq> slotReady \<or> slotChunk w ! slot \<noteq> int idx then (ranges, bytes)
          else
            (let start = idx * chunkSize w;
                 consumed = (if readPos w > start then int (readPos w) - int start else 0);
                 bytes = bytes + int (ChunkLen w idx) - consumed
             in if ranges \<noteq> [] \<and> Suc (snd (last ranges)) = idx
                then (butlast ranges @ [(fst (last ranges), idx)], bytes)
                else (ranges @ [(idx, idx)], bytes)))"

definition Window_Snapshot :: "Window \<Rightarrow> Snapshot" where
  "Window_Snapshot w =
     (let fr = frontier w;
          (ranges, bytes) = foldl (snapshot_step w)
            (if fr > 0 then [(0, fr - 1)] else [], int (readPos w))
            [fr..<min (fr + slots w) (total w)]
      in \<lparr>Frontier = fr, SnapReadPos = readPos w, ReceivedBytes = bytes, Received = ranges\<rparr>)"

definition CRCs :: "Window \<Rightarrow> nat list \<times> bool list" where
  "CRCs w = (crcs w, crcSet w)"

section \<open>Interleavings\<close>

text \<open>A request that is copying its body: the chunk, the body and the bytes copied so far.\<close>

record writer =
  widx :: nat
  wbody :: string
  wpos :: nat

text \<open>The single reader: between calls, before \<open>ReadAt\<close>, after \<open>ReadAt\<close>.\<close>

datatype reader = Idle | Reading nat nat nat nat | Got nat nat string

text \<open>The window, the requests in flight, the reader, the bytes \<open>Read\<close> has returned so far, and
  the bodies of the chunks that were acknowledged.\<close>

record sys =
  win :: Window
  writers :: "nat \<rightharpoonup> writer"
  rdr :: reader
  delivered :: string
  committed :: "nat \<rightharpoonup> string"

definition write_bytes :: "(nat \<Rightarrow> char) \<Rightarrow> nat \<Rightarrow> string \<Rightarrow> nat \<Rightarrow> char" where
  "write_bytes f off bs = (\<lambda>j. if off \<le> j \<and> j < off + length bs then bs ! (j - off) else f j)"

definition read_bytes :: "(nat \<Rightarrow> char) \<Rightarrow> nat \<Rightarrow> nat \<Rightarrow> string" where
  "read_bytes f off k = map (\<lambda>j. f (off + j)) [0..<k]"

inductive window_step :: "(string \<Rightarrow> nat) \<Rightarrow> sys \<Rightarrow> sys \<Rightarrow> bool" for crc where
  admit: "\<lbrakk>WriteChunk_admit (win s) idx expired = AdmitGo w; writers s t = None\<rbrakk> \<Longrightarrow>
    window_step crc s (s\<lparr>win := w, writers := (writers s)(t \<mapsto> \<lparr>widx = nat idx, wbody = body, wpos = 0\<rparr>)\<rparr>)"
| copy: "\<lbrakk>writers s t = Some wr; wopen (win s); wpos wr + k \<le> length (wbody wr);
      wpos wr + k \<le> ChunkLen (win s) (widx wr)\<rbrakk> \<Longrightarrow>
    window_step crc s (s\<lparr>win := (win s)\<lparr>wfile := write_bytes (wfile (win s))
          (widx wr mod slots (win s) * chunkSize (win s) + wpos wr) (take k (drop (wpos wr) (wbody wr)))\<rparr>,
        writers := (writers s)(t \<mapsto> wr\<lparr>wpos := wpos wr + k\<rparr>)\<rparr>)"
| commit: "\<lbrakk>writers s t = Some wr;
      err = None \<Longrightarrow> copy_error (win s) (widx wr) (wbody wr) = None \<and> wpos wr = length (wbody wr);
      WriteChunk_commit (win s) (widx wr) err (crc (wbody wr)) = (res, w)\<rbrakk> \<Longrightarrow>
    window_step crc s (s\<lparr>win := w, writers := (writers s)(t := None),
        committed := (case res of Inr _ \<Rightarrow> (committed s)(widx wr \<mapsto> wbody wr) | Inl _ \<Rightarrow> committed s)\<rparr>)"
| read: "\<lbrakk>rdr s = Idle; Read_poll (win s) plen = ReadGo slot off n chunkEnd\<rbrakk> \<Longrightarrow>
    window_step crc s (s\<lparr>rdr := Reading slot off n chunkEnd\<rparr>)"
| read_at: "\<lbrakk>rdr s = Reading slot off n chunkEnd; k \<le> n; wopen (win s) \<or> k = 0\<rbrakk> \<Longrightarrow>
    window_step crc s (s\<lparr>rdr := Got slot chunkEnd (read_bytes (wfile (win s)) off k)\<rparr>)"
| read_done: "\<lbrakk>rdr s = Got slot chunkEnd bs; Read_finish (win s) slot chunkEnd (length bs) oserr = (res, w)\<rbrakk> \<Longrightarrow>
    window_step crc s (s\<lparr>win := w, rdr := Idle, delivered := delivered s @ bs\<rparr>)"
| close: "window_step crc s (s\<lparr>win := CloseWithError sticky (win s)\<rparr>)"

inductive window_reach :: "(string \<Rightarrow> nat) \<Rightarrow> sys \<Rightarrow> sys \<Rightarrow> bool" for crc where
  start: "window_reach crc s s"
| more: "window_reach crc s s' \<Longrightarrow> window_step crc s' s'' \<Longrightarrow> window_reach crc s s''"

definition window_start :: "Window \<Rightarrow> sys" where
  "window_start w = \<lparr>win = w, writers = Map.empty, rdr = Idle, delivered = [], committed = Map.empty\<rparr>"

section \<open>The invariant\<close>

definition window_ok :: "Window \<Rightarrow> bool" where
  "window_ok w \<longleftrightarrow> 0 < chunkSize w \<and> 0 < slots w \<and> 0 < total w \<and>
     (total w - 1) * chunkSize w < totalSize w \<and> totalSize w \<le> total w * chunkSize w \<and>
     length (slotState w) = slots w \<and> length (slotChunk w) = slots w \<and>
     length (crcs w) = total w \<and> length (crcSet w) = total w \<and>
     readPos w \<le> totalSize w \<and> wopen w = (werr w = None)"

text \<open>A slot is free or holds a chunk of the window that starts at the frontier.\<close>

definition slot_ok :: "Window \<Rightarrow> nat \<Rightarrow> bool" where
  "slot_ok w s \<longleftrightarrow>
     (slotState w ! s = slotFree \<longleftrightarrow> slotChunk w ! s = - 1) \<and>
     (slotState w ! s \<noteq> slotFree \<longrightarrow> werr w = None \<and>
       (\<exists>i. slotChunk w ! s = int i \<and> i < total w \<and> i mod slots w = s \<and>
          frontier w \<le> i \<and> i < frontier w + slots w))"

definition slots_ok :: "Window \<Rightarrow> bool" where
  "slots_ok w \<longleftrightarrow> (\<forall>s < slots w. slot_ok w s)"

text \<open>The slot of chunk \<open>i\<close> is ready and holds it.\<close>

definition ready :: "Window \<Rightarrow> nat \<Rightarrow> bool" where
  "ready w i \<longleftrightarrow> slotState w ! (i mod slots w) = slotReady \<and> slotChunk w ! (i mod slots w) = int i"

definition filling :: "Window \<Rightarrow> nat \<Rightarrow> bool" where
  "filling w i \<longleftrightarrow> slotState w ! (i mod slots w) = slotFilling \<and> slotChunk w ! (i mod slots w) = int i"

text \<open>A chunk that is consumed in part stays in its slot.\<close>

definition partial_ok :: "Window \<Rightarrow> bool" where
  "partial_ok w \<longleftrightarrow> (werr w = None \<and> readPos w < totalSize w \<and> readPos w mod chunkSize w \<noteq> 0 \<longrightarrow>
     ready w (readPos w div chunkSize w))"

definition data_ok :: "Window \<Rightarrow> (nat \<rightharpoonup> string) \<Rightarrow> bool" where
  "data_ok w C \<longleftrightarrow> (\<forall>i < total w. ready w i \<longrightarrow>
     (\<exists>b. C i = Some b \<and> (\<forall>j < length b. wfile w (i mod slots w * chunkSize w + j) = b ! j)))"

definition committed_ok :: "(string \<Rightarrow> nat) \<Rightarrow> Window \<Rightarrow> (nat \<rightharpoonup> string) \<Rightarrow> bool" where
  "committed_ok crc w C \<longleftrightarrow> (\<forall>i b. C i = Some b \<longrightarrow>
     i < total w \<and> length b = ChunkLen w i \<and> crcs w ! i = crc b \<and> crcSet w ! i)"

definition writer_ok :: "Window \<Rightarrow> writer \<Rightarrow> bool" where
  "writer_ok w r \<longleftrightarrow> filling w (widx r) \<and> widx r < total w \<and>
     wpos r \<le> length (wbody r) \<and> wpos r \<le> ChunkLen w (widx r) \<and>
     (\<forall>j < wpos r. wfile w (widx r mod slots w * chunkSize w + j) = wbody r ! j)"

definition writers_ok :: "Window \<Rightarrow> (nat \<rightharpoonup> writer) \<Rightarrow> bool" where
  "writers_ok w ws \<longleftrightarrow> (werr w = None \<longrightarrow>
     (\<forall>t r. ws t = Some r \<longrightarrow> writer_ok w r) \<and>
     (\<forall>t t' r r'. ws t = Some r \<longrightarrow> ws t' = Some r' \<longrightarrow>
        widx r mod slots w = widx r' mod slots w \<longrightarrow> t = t'))"

definition delivered_ok :: "Window \<Rightarrow> (nat \<rightharpoonup> string) \<Rightarrow> string \<Rightarrow> bool" where
  "delivered_ok w C out \<longleftrightarrow> length out = readPos w \<and>
     (\<forall>j < readPos w. \<exists>b. C (j div chunkSize w) = Some b \<and> out ! j = b ! (j mod chunkSize w))"

text \<open>The reader between its critical sections, at the chunk \<open>cur\<close> of the read position.\<close>

definition reader_at :: "Window \<Rightarrow> nat \<Rightarrow> nat \<Rightarrow> bool" where
  "reader_at w slot chunkEnd \<longleftrightarrow>
     (let cur = readPos w div chunkSize w in
        readPos w < totalSize w \<and> slot = cur mod slots w \<and>
        chunkEnd = cur * chunkSize w + ChunkLen w cur \<and> (werr w = None \<longrightarrow> ready w cur))"

definition reader_ok :: "Window \<Rightarrow> (nat \<rightharpoonup> string) \<Rightarrow> reader \<Rightarrow> bool" where
  "reader_ok w C r =
     (case r of
        Idle \<Rightarrow> True
      | Reading slot off n chunkEnd \<Rightarrow> reader_at w slot chunkEnd \<and>
          off = slot * chunkSize w + readPos w mod chunkSize w \<and> readPos w + n \<le> chunkEnd
      | Got slot chunkEnd bs \<Rightarrow> reader_at w slot chunkEnd \<and> readPos w + length bs \<le> chunkEnd \<and>
          (bs \<noteq> [] \<longrightarrow> (\<exists>b. C (readPos w div chunkSize w) = Some b \<and>
             (\<forall>j < length bs. bs ! j = b ! (readPos w mod chunkSize w + j)))))"

definition sys_ok :: "(string \<Rightarrow> nat) \<Rightarrow> sys \<Rightarrow> bool" where
  "sys_ok crc s \<longleftrightarrow> window_ok (win s) \<and> slots_ok (win s) \<and> partial_ok (win s) \<and>
     data_ok (win s) (committed s) \<and> committed_ok crc (win s) (committed s) \<and>
     writers_ok (win s) (writers s) \<and> delivered_ok (win s) (committed s) (delivered s) \<and>
     reader_ok (win s) (committed s) (rdr s)"

section \<open>Chunk arithmetic\<close>

lemma chunk_end:
  assumes "window_ok w" "idx < total w"
  shows "idx * chunkSize w + ChunkLen w idx = min (Suc idx * chunkSize w) (totalSize w)"
    and "0 < ChunkLen w idx" and "ChunkLen w idx \<le> chunkSize w"
proof -
  have last: "total w = Suc idx \<Longrightarrow> idx * chunkSize w < totalSize w \<and> totalSize w \<le> Suc idx * chunkSize w"
    using assms by (auto simp: window_ok_def)
  have other: "total w \<noteq> Suc idx \<Longrightarrow> Suc idx * chunkSize w \<le> totalSize w"
  proof -
    assume "total w \<noteq> Suc idx"
    then have "Suc idx \<le> total w - 1" using assms(2) by simp
    then have "Suc idx * chunkSize w \<le> (total w - 1) * chunkSize w" by (rule mult_le_mono1)
    then show ?thesis using assms(1) by (simp add: window_ok_def)
  qed
  show "idx * chunkSize w + ChunkLen w idx = min (Suc idx * chunkSize w) (totalSize w)"
    using last other by (cases "total w = Suc idx") (auto simp: ChunkLen_def min_def)
  show "0 < ChunkLen w idx" using last assms(1) by (auto simp: ChunkLen_def window_ok_def)
  show "ChunkLen w idx \<le> chunkSize w" using last by (auto simp: ChunkLen_def)
qed

lemma div_less_total:
  assumes "window_ok w" "p < totalSize w" shows "p div chunkSize w < total w"
proof -
  have "p < total w * chunkSize w" using assms by (simp add: window_ok_def)
  then show ?thesis by (simp add: less_mult_imp_div_less)
qed

lemma cur_chunk:
  assumes "window_ok w" "p < totalSize w"
  shows "p < p div chunkSize w * chunkSize w + ChunkLen w (p div chunkSize w)"
proof -
  have "p < Suc (p div chunkSize w) * chunkSize w"
    using assms(1) by (simp add: window_ok_def dividend_less_div_times)
  then show ?thesis using chunk_end(1) [OF assms(1) div_less_total [OF assms]] assms(2) by simp
qed

lemma slot_regions:
  fixes s s' :: nat
  assumes "s \<noteq> s'" "j < c" "j' < c" shows "s * c + j \<noteq> s' * c + j'"
proof
  assume eq: "s * c + j = s' * c + j'"
  have "(s * c + j) div c = s" "(s' * c + j') div c = s'" using assms(2,3) by auto
  with eq assms(1) show False by simp
qed

lemma mod_close:
  fixes i j n :: nat
  assumes "i mod n = j mod n" "i \<le> j" "j - i < n" shows "i = j"
proof -
  have "n dvd (j - i)" using assms(1,2) by (metis mod_eq_dvd_iff_nat)
  then have "j - i = 0" using assms(3) nat_dvd_not_less by blast
  then show ?thesis using assms(2) by simp
qed

lemma mod_in_window:
  fixes i j n :: nat
  assumes "i mod n = j mod n" "f \<le> i" "i < f + n" "f \<le> j" "j < f + n" shows "i = j"
proof (cases "i \<le> j")
  case True
  have "j - i < n" using assms(2,5) True by linarith
  with True show ?thesis by (rule mod_close [OF assms(1)])
next
  case False
  then have "j \<le> i" "i - j < n" using assms(3,4) by linarith+
  then show ?thesis using mod_close [OF assms(1) [symmetric]] by blast
qed

subsection \<open>Updates of one slot\<close>

lemma set_slot_simps [simp]:
  "wopen (set_slot s st c w) = wopen w" "wfile (set_slot s st c w) = wfile w"
  "chunkSize (set_slot s st c w) = chunkSize w" "totalSize (set_slot s st c w) = totalSize w"
  "total (set_slot s st c w) = total w" "slots (set_slot s st c w) = slots w"
  "readPos (set_slot s st c w) = readPos w" "crcs (set_slot s st c w) = crcs w"
  "crcSet (set_slot s st c w) = crcSet w" "werr (set_slot s st c w) = werr w"
  "slotState (set_slot s st c w) = (slotState w)[s := st]"
  "slotChunk (set_slot s st c w) = (slotChunk w)[s := c]"
  by (simp_all add: set_slot_def)

lemma set_slot_derived [simp]:
  "ChunkLen (set_slot s st c w) i = ChunkLen w i" "frontier (set_slot s st c w) = frontier w"
  by (simp_all add: ChunkLen_def frontier_def)

lemma ready_set_slot:
  "window_ok w \<Longrightarrow> ready (set_slot s st c w) i \<longleftrightarrow>
     (if i mod slots w = s then st = slotReady \<and> c = int i else ready w i)"
  by (auto simp: ready_def window_ok_def)

lemma filling_set_slot:
  "window_ok w \<Longrightarrow> filling (set_slot s st c w) i \<longleftrightarrow>
     (if i mod slots w = s then st = slotFilling \<and> c = int i else filling w i)"
  by (auto simp: filling_def window_ok_def)

lemma window_ok_set_slot: "window_ok w \<Longrightarrow> window_ok (set_slot s st c w)"
  by (simp add: window_ok_def)

lemma slot_ok_set_slot:
  assumes "window_ok w" "s < slots w" "s' < slots w"
  shows "slot_ok (set_slot s st c w) s' \<longleftrightarrow>
    (if s' = s then (st = slotFree \<longleftrightarrow> c = - 1) \<and>
       (st \<noteq> slotFree \<longrightarrow> werr w = None \<and> (\<exists>i. c = int i \<and> i < total w \<and> i mod slots w = s \<and>
          frontier w \<le> i \<and> i < frontier w + slots w))
     else slot_ok w s')"
  using assms by (simp add: slot_ok_def window_ok_def)

lemma slots_ok_free:
  "slots_ok w \<Longrightarrow> window_ok w \<Longrightarrow> s < slots w \<Longrightarrow> slots_ok (set_slot s slotFree (- 1) w)"
  by (simp add: slots_ok_def slot_ok_set_slot)

lemma slots_ok_fill:
  assumes "slots_ok w" "window_ok w" "werr w = None" "i < total w" "frontier w \<le> i" "i < frontier w + slots w"
    "st \<noteq> slotFree"
  shows "slots_ok (set_slot (i mod slots w) st (int i) w)"
proof -
  have "i mod slots w < slots w" using assms(2) by (simp add: window_ok_def)
  with assms show ?thesis by (auto simp: slots_ok_def slot_ok_set_slot)
qed

text \<open>A filling or ready slot belongs to the window, so the window is open.\<close>

lemma slot_used:
  assumes "window_ok w" "slots_ok w" "ready w i \<or> filling w i"
  shows "werr w = None" "i < total w" "frontier w \<le> i" "i < frontier w + slots w"
proof -
  have "i mod slots w < slots w" using assms(1) by (simp add: window_ok_def)
  moreover have "slotState w ! (i mod slots w) \<noteq> slotFree" "slotChunk w ! (i mod slots w) = int i"
    using assms(3) by (auto simp: ready_def filling_def)
  ultimately have "werr w = None \<and> i < total w \<and> frontier w \<le> i \<and> i < frontier w + slots w"
    using assms(2) unfolding slots_ok_def slot_ok_def by force
  then show "werr w = None" "i < total w" "frontier w \<le> i" "i < frontier w + slots w" by auto
qed

lemma not_ready_filling: "ready w i \<Longrightarrow> filling w j \<Longrightarrow> i mod slots w \<noteq> j mod slots w"
  unfolding ready_def filling_def by (metis slot_state.distinct(5))

lemma ready_unique: "ready w i \<Longrightarrow> ready w j \<Longrightarrow> i mod slots w = j mod slots w \<Longrightarrow> i = j"
  unfolding ready_def by (metis of_nat_eq_iff)

section \<open>Preservation\<close>

text \<open>What only depends on the sizes and the read position, on the ready slots and on the
  acknowledged chunks is kept by steps that keep these.\<close>

definition same_shape :: "Window \<Rightarrow> Window \<Rightarrow> bool" where
  "same_shape w w' \<longleftrightarrow> chunkSize w' = chunkSize w \<and> totalSize w' = totalSize w \<and> total w' = total w \<and>
     slots w' = slots w \<and> readPos w' = readPos w"

lemma same_shapeD:
  assumes "same_shape w w'"
  shows "chunkSize w' = chunkSize w" "totalSize w' = totalSize w" "total w' = total w"
    "slots w' = slots w" "readPos w' = readPos w" "ChunkLen w' i = ChunkLen w i" "frontier w' = frontier w"
  using assms by (auto simp: same_shape_def ChunkLen_def frontier_def)

lemma same_shape_set_slot [simp]: "same_shape w (set_slot s st c w)"
  by (simp add: same_shape_def)

lemma reader_ok_mono:
  assumes "reader_ok w C r" "same_shape w w'"
    "werr w' = None \<Longrightarrow> werr w = None \<and> (ready w (readPos w div chunkSize w) \<longrightarrow> ready w' (readPos w div chunkSize w))"
    "\<And>b. C (readPos w div chunkSize w) = Some b \<Longrightarrow> C' (readPos w div chunkSize w) = Some b"
  shows "reader_ok w' C' r"
proof -
  have "reader_at w' slot chunkEnd" if "reader_at w slot chunkEnd" for slot chunkEnd
    using that assms(3) same_shapeD [OF assms(2)] by (simp add: reader_at_def Let_def)
  then show ?thesis using assms(1,4) same_shapeD [OF assms(2)]
    by (cases r) (force simp: reader_ok_def)+
qed

lemma partial_ok_mono:
  assumes "partial_ok w" "same_shape w w'"
    "werr w' = None \<Longrightarrow> werr w = None \<and> (ready w (readPos w div chunkSize w) \<longrightarrow> ready w' (readPos w div chunkSize w))"
  shows "partial_ok w'"
  using assms(1,3) same_shapeD [OF assms(2)] by (auto simp: partial_ok_def)

lemma delivered_ok_mono:
  assumes "delivered_ok w C out" "same_shape w w'"
    "\<And>j b. j < readPos w \<Longrightarrow> C (j div chunkSize w) = Some b \<Longrightarrow> C' (j div chunkSize w) = Some b"
  shows "delivered_ok w' C' out"
  using assms(1,3) same_shapeD [OF assms(2)] by (fastforce simp: delivered_ok_def)

lemma writers_okI:
  assumes "\<And>t r. werr w = None \<Longrightarrow> ws t = Some r \<Longrightarrow> writer_ok w r"
    "\<And>t t' r r'. werr w = None \<Longrightarrow> ws t = Some r \<Longrightarrow> ws t' = Some r' \<Longrightarrow>
       widx r mod slots w = widx r' mod slots w \<Longrightarrow> t = t'"
  shows "writers_ok w ws"
  using assms unfolding writers_ok_def by blast

lemma writers_okD:
  assumes "writers_ok w ws" "werr w = None"
  shows "ws t = Some r \<Longrightarrow> writer_ok w r"
    "ws t = Some r \<Longrightarrow> ws t' = Some r' \<Longrightarrow> widx r mod slots w = widx r' mod slots w \<Longrightarrow> t = t'"
  using assms unfolding writers_ok_def by blast+

lemma writers_ok_add:
  assumes "\<And>t' r. ws t' = Some r \<Longrightarrow> writer_ok w r \<and> widx r mod slots w \<noteq> widx nw mod slots w"
    "\<And>t1 t2 r1 r2. ws t1 = Some r1 \<Longrightarrow> ws t2 = Some r2 \<Longrightarrow> widx r1 mod slots w = widx r2 mod slots w \<Longrightarrow> t1 = t2"
    "writer_ok w nw"
  shows "writers_ok w (ws(t \<mapsto> nw))"
proof (rule writers_okI)
  fix t1 t2 r1 r2
  assume "(ws(t \<mapsto> nw)) t1 = Some r1" "(ws(t \<mapsto> nw)) t2 = Some r2" "widx r1 mod slots w = widx r2 mod slots w"
  then show "t1 = t2" using assms(1,2) by (metis fun_upd_apply option.inject)
qed (use assms in \<open>auto split: if_splits\<close>)

lemma writer_ok_set_slot:
  assumes "window_ok w" "widx r mod slots w \<noteq> s"
  shows "writer_ok (set_slot s st c w) r \<longleftrightarrow> writer_ok w r"
  using assms by (simp add: writer_ok_def filling_set_slot)

lemma sys_okD:
  assumes "sys_ok crc s"
  shows "window_ok (win s)" "slots_ok (win s)" "partial_ok (win s)" "data_ok (win s) (committed s)"
    "committed_ok crc (win s) (committed s)" "writers_ok (win s) (writers s)"
    "delivered_ok (win s) (committed s) (delivered s)" "reader_ok (win s) (committed s) (rdr s)"
  using assms by (auto simp: sys_ok_def)

subsection \<open>Admission\<close>

lemma admission_round_go:
  assumes "window_ok w" "i < total w" "admission_round w i expired = AdmitGo w'"
  shows "werr w = None" "slotState w ! (i mod slots w) = slotFree" "frontier w \<le> i" "i < frontier w + slots w"
    "w' = set_slot (i mod slots w) slotFilling (int i) w"
proof -
  show "werr w = None" "slotState w ! (i mod slots w) = slotFree" "i < frontier w + slots w"
    "w' = set_slot (i mod slots w) slotFilling (int i) w"
    using assms(3) by (auto simp: admission_round_def Let_def split: option.splits if_splits)
  have "readPos w < i * chunkSize w + ChunkLen w i"
    using assms(3) by (auto simp: admission_round_def Let_def split: option.splits if_splits)
  then have "readPos w < Suc i * chunkSize w" "readPos w < totalSize w"
    using chunk_end(1) [OF assms(1,2)] by auto
  then show "frontier w \<le> i"
    using less_mult_imp_div_less [of "readPos w" "Suc i" "chunkSize w"] by (auto simp: frontier_def)
qed

lemma admit_ok:
  assumes ok: "sys_ok crc s" and go: "WriteChunk_admit (win s) idx expired = AdmitGo w"
    and t: "writers s t = None"
  shows "sys_ok crc (s\<lparr>win := w, writers := (writers s)(t \<mapsto> \<lparr>widx = nat idx, wbody = body, wpos = 0\<rparr>)\<rparr>)"
proof -
  let ?w = "win s" and ?i = "nat idx"
  note ok = sys_okD [OF ok]
  have i: "?i < total ?w" and round: "admission_round ?w ?i expired = AdmitGo w"
    using go by (auto simp: WriteChunk_admit_def split: option.splits if_splits)
  note go = admission_round_go [OF ok(1) i round]
  have free: "\<not> ready ?w j" "\<not> filling ?w j" if "j mod slots ?w = ?i mod slots ?w" for j
    using go(2) that by (auto simp: ready_def filling_def)
  have keep: "ready w j" if "ready ?w j" for j
    using free(1) [of j] that by (auto simp: go(5) ready_set_slot [OF ok(1)])
  have old: "writer_ok w r \<and> widx r mod slots ?w \<noteq> ?i mod slots ?w" if "writers s t' = Some r" for t' r
  proof -
    have r: "writer_ok ?w r" using writers_okD(1) [OF ok(6) go(1) that] .
    then have "widx r mod slots ?w \<noteq> ?i mod slots ?w" using free(2) by (auto simp: writer_ok_def)
    with r show ?thesis by (simp add: go(5) writer_ok_set_slot [OF ok(1)])
  qed
  have new: "writer_ok w \<lparr>widx = ?i, wbody = body, wpos = 0\<rparr>"
    using i by (simp add: go(5) writer_ok_def filling_set_slot [OF ok(1)])
  have "writers_ok w ((writers s)(t \<mapsto> \<lparr>widx = ?i, wbody = body, wpos = 0\<rparr>))"
    using old new writers_okD(2) [OF ok(6) go(1)] by (intro writers_ok_add) (auto simp: go(5))
  moreover have "reader_ok w (committed s) (rdr s)" "partial_ok w"
    using reader_ok_mono [OF ok(8), of w] partial_ok_mono [OF ok(3), of w] keep by (auto simp: go(1,5))
  moreover have "data_ok w (committed s)"
    using ok(4) free(1) unfolding go(5) data_ok_def by (auto simp: ready_set_slot [OF ok(1)])
  moreover have "committed_ok crc w (committed s)" "delivered_ok w (committed s) (delivered s)"
    using ok(5,7) unfolding go(5) committed_ok_def delivered_ok_def by simp_all
  moreover have "window_ok w" "slots_ok w"
    using slots_ok_fill [OF ok(2,1) go(1) i go(3,4)] window_ok_set_slot [OF ok(1)] by (simp_all add: go(5))
  ultimately show ?thesis by (simp add: sys_ok_def)
qed

subsection \<open>Copying\<close>

lemma write_bytes_other:
  "j < off \<or> off + length bs \<le> j \<Longrightarrow> write_bytes f off bs j = f j"
  by (auto simp: write_bytes_def)

lemma copy_ok:
  assumes ok: "sys_ok crc s" and t: "writers s t = Some r" and op: "wopen (win s)"
    and k: "wpos r + k \<le> length (wbody r)" "wpos r + k \<le> ChunkLen (win s) (widx r)"
  shows "sys_ok crc (s\<lparr>win := (win s)\<lparr>wfile := write_bytes (wfile (win s))
          (widx r mod slots (win s) * chunkSize (win s) + wpos r) (take k (drop (wpos r) (wbody r)))\<rparr>,
        writers := (writers s)(t \<mapsto> r\<lparr>wpos := wpos r + k\<rparr>)\<rparr>)"
proof -
  let ?w = "win s" and ?c = "chunkSize (win s)" and ?bs = "take k (drop (wpos r) (wbody r))"
  let ?off = "widx r mod slots ?w * ?c + wpos r"
  let ?f = "write_bytes (wfile ?w) ?off ?bs"
  let ?w' = "?w\<lparr>wfile := ?f\<rparr>"
  note ok = sys_okD [OF ok]
  have err: "werr ?w = None" using op ok(1) by (simp add: window_ok_def)
  have r: "writer_ok ?w r" by (rule writers_okD(1) [OF ok(6) err t])
  have len: "length ?bs = k" using k(1) by simp
  have shape: "same_shape ?w ?w'" by (simp add: same_shape_def)
  have rdy: "ready ?w' i = ready ?w i" "filling ?w' i = filling ?w i" for i
    by (simp_all add: ready_def filling_def)
  have bound: "wpos r + k \<le> ?c"
    using k(2) chunk_end(3) [OF ok(1), of "widx r"] r by (simp add: writer_ok_def)
  have other: "?f (s' * ?c + j) = wfile ?w (s' * ?c + j)" if "s' \<noteq> widx r mod slots ?w" "j < ?c" for s' j
  proof (rule write_bytes_other, rule ccontr)
    assume "\<not> (s' * ?c + j < ?off \<or> ?off + length ?bs \<le> s' * ?c + j)"
    then have "widx r mod slots ?w * ?c \<le> s' * ?c + j" "s' * ?c + j < widx r mod slots ?w * ?c + ?c"
      unfolding len using bound by linarith+
    moreover from this have "s' * ?c + j - widx r mod slots ?w * ?c < ?c" by linarith
    ultimately show False
      using slot_regions [OF that(1,2), of "s' * ?c + j - widx r mod slots ?w * ?c"] by simp
  qed
  have "data_ok ?w' (committed s)"
  proof -
    have "?f (i mod slots ?w * ?c + j) = b ! j"
      if "i < total ?w" "ready ?w i" "committed s i = Some b" "j < length b" 
        "\<forall>j < length b. wfile ?w (i mod slots ?w * ?c + j) = b ! j" for i b j
    proof -
      have "i mod slots ?w \<noteq> widx r mod slots ?w"
        using not_ready_filling that(2) r by (auto simp: writer_ok_def)
      moreover have "j < ?c"
        using ok(5) that chunk_end(3) [OF ok(1) that(1)] by (auto simp: committed_ok_def)
      ultimately show ?thesis using other that by simp
    qed
    then show ?thesis using ok(4) rdy(1) unfolding data_ok_def by fastforce
  qed
  moreover have "writers_ok ?w' ((writers s)(t \<mapsto> r\<lparr>wpos := wpos r + k\<rparr>))"
  proof (rule writers_okI)
    fix t1 r1
    assume t1: "((writers s)(t \<mapsto> r\<lparr>wpos := wpos r + k\<rparr>)) t1 = Some r1"
    show "writer_ok ?w' r1"
    proof (cases "t1 = t")
      case True
      then have r1: "r1 = r\<lparr>wpos := wpos r + k\<rparr>" using t1 by simp
      have "?f (widx r mod slots ?w * ?c + j) = wbody r ! j" if "j < wpos r + k" for j
        using r that k(1) by (auto simp: write_bytes_def writer_ok_def)
      then show ?thesis using r k same_shapeD [OF shape] rdy(2) by (simp add: r1 writer_ok_def)
    next
      case False
      then have w1: "writers s t1 = Some r1" using t1 by simp
      have ok1: "writer_ok ?w r1" by (rule writers_okD(1) [OF ok(6) err w1])
      have "widx r1 mod slots ?w \<noteq> widx r mod slots ?w"
        using writers_okD(2) [OF ok(6) err w1 t] False by blast
      moreover have "wpos r1 \<le> ?c"
        using ok1 chunk_end(3) [OF ok(1), of "widx r1"] by (simp add: writer_ok_def)
      ultimately have "?f (widx r1 mod slots ?w * ?c + j) = wbody r1 ! j" if "j < wpos r1" for j
        using other [of "widx r1 mod slots ?w" j] ok1 that by (simp add: writer_ok_def)
      then show ?thesis using ok1 same_shapeD [OF shape] rdy(2) by (simp add: writer_ok_def)
    qed
  next
    fix t1 t2 r1 r2
    assume "((writers s)(t \<mapsto> r\<lparr>wpos := wpos r + k\<rparr>)) t1 = Some r1"
      "((writers s)(t \<mapsto> r\<lparr>wpos := wpos r + k\<rparr>)) t2 = Some r2" "widx r1 mod slots ?w' = widx r2 mod slots ?w'"
    then obtain q1 q2 where "writers s t1 = Some q1" "writers s t2 = Some q2" "widx q1 mod slots ?w = widx q2 mod slots ?w"
      using t by (auto split: if_splits)
    then show "t1 = t2" by (rule writers_okD(2) [OF ok(6) err])
  qed
  moreover have "reader_ok ?w' (committed s) (rdr s)" "partial_ok ?w'" "delivered_ok ?w' (committed s) (delivered s)"
    using reader_ok_mono [OF ok(8) shape] partial_ok_mono [OF ok(3) shape] delivered_ok_mono [OF ok(7) shape] rdy
    by auto
  moreover have "committed_ok crc ?w' (committed s)" "window_ok ?w'"
    using ok(1,5) same_shapeD [OF shape] by (simp_all add: committed_ok_def window_ok_def)
  moreover have "slots_ok ?w'"
    using ok(2) same_shapeD [OF shape] by (simp add: slots_ok_def slot_ok_def)
  ultimately show ?thesis by (simp add: sys_ok_def)
qed

subsection \<open>Commit\<close>

lemma commit_cases:
  assumes "WriteChunk_commit w i err h = (res, w')"
  obtains (stale) e where "res = Inl e" "w' = w" "\<not> filling w i"
  | (failed) e where "res = Inl e" "filling w i" "w' = set_slot (i mod slots w) slotFree (- 1) w"
  | (success) "res = Inr h" "filling w i" "err = None" "werr w = None"
      "w' = (set_slot (i mod slots w) slotReady (int i) w)\<lparr>crcs := (crcs w)[i := h], crcSet := (crcSet w)[i := True]\<rparr>"
proof (cases "filling w i")
  case False
  then have "(Inl (case werr w of Some e \<Rightarrow> e | None \<Rightarrow> ErrClosed), w) = (res, w')"
    using assms by (auto simp: WriteChunk_commit_def filling_def)
  with False show ?thesis using stale by blast
next
  case True
  let ?err = "if err = None \<and> werr w \<noteq> None then werr w else err"
  have run: "(case ?err of Some e \<Rightarrow> (Inl e, set_slot (i mod slots w) slotFree (- 1) w)
      | None \<Rightarrow> (Inr h, w\<lparr>slotState := (slotState w)[i mod slots w := slotReady],
          crcs := (crcs w)[i := h], crcSet := (crcSet w)[i := True]\<rparr>)) = (res, w')"
    using assms True by (simp add: WriteChunk_commit_def filling_def Let_def)
  show ?thesis
  proof (cases ?err)
    case None
    then have "err = None" "werr w = None" by (auto split: if_splits)
    moreover have "(slotChunk w)[i mod slots w := int i] = slotChunk w"
      using True by (metis filling_def list_update_id)
    ultimately show ?thesis using run None True by (intro success) (auto simp: set_slot_def)
  next
    case (Some e)
    with run True show ?thesis by (intro failed) auto
  qed
qed

lemma writers_ok_remove:
  assumes "writers_ok w ws" "window_ok w" "ws t = Some r" "werr w = None"
    "same_shape w w'" "wfile w' = wfile w" "\<And>i. i mod slots w \<noteq> widx r mod slots w \<Longrightarrow> filling w i \<Longrightarrow> filling w' i"
  shows "writers_ok w' (ws(t := None))"
proof (rule writers_okI)
  fix t1 r1
  assume "(ws(t := None)) t1 = Some r1"
  then have t1: "ws t1 = Some r1" "t1 \<noteq> t" by (auto split: if_splits)
  have "writer_ok w r1" by (rule writers_okD(1) [OF assms(1,4) t1(1)])
  moreover have "widx r1 mod slots w \<noteq> widx r mod slots w"
    using writers_okD(2) [OF assms(1,4) t1(1) assms(3)] t1(2) by blast
  ultimately show "writer_ok w' r1"
    using assms(6,7) same_shapeD [OF assms(5)] by (simp add: writer_ok_def)
next
  fix t1 t2 r1 r2
  assume "(ws(t := None)) t1 = Some r1" "(ws(t := None)) t2 = Some r2" "widx r1 mod slots w' = widx r2 mod slots w'"
  then have "ws t1 = Some r1" "ws t2 = Some r2" "widx r1 mod slots w = widx r2 mod slots w"
    using same_shapeD(4) [OF assms(5)] by (auto split: if_splits)
  then show "t1 = t2" by (rule writers_okD(2) [OF assms(1,4)])
qed

lemma writers_ok_forget: "writers_ok w ws \<Longrightarrow> writers_ok w (ws(t := None))"
  unfolding writers_ok_def by (auto split: if_splits)

lemma commit_failed_ok:
  assumes ok: "sys_ok crc s" and t: "writers s t = Some r" and f: "filling (win s) (widx r)"
  shows "sys_ok crc (s\<lparr>win := set_slot (widx r mod slots (win s)) slotFree (- 1) (win s),
    writers := (writers s)(t := None)\<rparr>)"
proof -
  let ?w = "win s" and ?sl = "widx r mod slots (win s)"
  let ?w' = "set_slot ?sl slotFree (- 1) ?w"
  note ok = sys_okD [OF ok]
  have err: "werr ?w = None" using slot_used(1) [OF ok(1,2)] f by blast
  have sl: "?sl < slots ?w" using ok(1) by (simp add: window_ok_def)
  have keep: "ready ?w' i \<longleftrightarrow> ready ?w i" for i
    using not_ready_filling [OF _ f] by (auto simp: ready_set_slot [OF ok(1)])
  have "writers_ok ?w' ((writers s)(t := None))"
    by (rule writers_ok_remove [OF ok(6,1) t err]) (simp_all add: filling_set_slot [OF ok(1)])
  moreover have "reader_ok ?w' (committed s) (rdr s)" "partial_ok ?w'" "delivered_ok ?w' (committed s) (delivered s)"
    using reader_ok_mono [OF ok(8), of ?w'] partial_ok_mono [OF ok(3), of ?w'] delivered_ok_mono [OF ok(7), of ?w'] keep err
    by auto
  moreover have "data_ok ?w' (committed s)" "committed_ok crc ?w' (committed s)"
    using ok(4,5) keep by (simp_all add: data_ok_def committed_ok_def)
  ultimately show ?thesis
    using slots_ok_free [OF ok(2,1) sl] window_ok_set_slot [OF ok(1)] by (simp add: sys_ok_def)
qed

text \<open>A chunk that is being filled has not been read, not even in part.\<close>

lemma filling_not_read:
  assumes "window_ok w" "slots_ok w" "partial_ok w" "filling w i" "j < readPos w"
  shows "j div chunkSize w \<noteq> i"
proof
  assume j: "j div chunkSize w = i"
  note used = slot_used [OF assms(1,2) disjI2 [OF assms(4)]]
  have pos: "readPos w < totalSize w" "readPos w div chunkSize w \<le> i"
    using used(2,3) by (auto simp: frontier_def split: if_splits)
  moreover have "i \<le> readPos w div chunkSize w" using j assms(5) by (auto intro: div_le_mono)
  ultimately have i: "i = readPos w div chunkSize w" by simp
  then have "readPos w mod chunkSize w \<noteq> 0"
    using j assms(5) by (metis div_mult_mod_eq add.right_neutral div_times_less_eq_dividend linorder_not_less)
  then have "ready w i" using assms(3) used(1) pos(1) i by (simp add: partial_ok_def)
  then show False using not_ready_filling [OF _ assms(4)] by blast
qed

lemma commit_success_ok:
  assumes ok: "sys_ok crc s" and t: "writers s t = Some r" and f: "filling (win s) (widx r)"
    and len: "length (wbody r) = ChunkLen (win s) (widx r)" "wpos r = length (wbody r)"
    and w': "w' = (set_slot (widx r mod slots (win s)) slotReady (int (widx r)) (win s))
      \<lparr>crcs := (crcs (win s))[widx r := crc (wbody r)], crcSet := (crcSet (win s))[widx r := True]\<rparr>"
  shows "sys_ok crc (s\<lparr>win := w', writers := (writers s)(t := None),
    committed := (committed s)(widx r \<mapsto> wbody r)\<rparr>)"
proof -
  let ?w = "win s" and ?i = "widx r" and ?C = "(committed s)(widx r \<mapsto> wbody r)"
  let ?sw = "set_slot (?i mod slots ?w) slotReady (int ?i) ?w"
  note ok = sys_okD [OF ok]
  note used = slot_used [OF ok(1,2) disjI2 [OF f]]
  have shape: "same_shape ?w w'" by (simp add: w' same_shape_def)
  have fields: "wfile w' = wfile ?w" "werr w' = None" "wopen w' = wopen ?w"
    "slotState w' = slotState ?sw" "slotChunk w' = slotChunk ?sw"
    using used(1) by (simp_all add: w')
  have rdy: "ready w' j \<longleftrightarrow> j = ?i \<or> ready ?w j" for j
  proof -
    have "ready w' j \<longleftrightarrow> ready ?sw j" using fields same_shapeD(4) [OF shape] by (simp add: ready_def)
    also have "\<dots> \<longleftrightarrow> j = ?i \<or> ready ?w j"
    proof (cases "j mod slots ?w = ?i mod slots ?w")
      case True
      then have "\<not> ready ?w j" using not_ready_filling [OF _ f] by blast
      with True show ?thesis using ready_set_slot [OF ok(1)] by auto
    next
      case False
      then show ?thesis using ready_set_slot [OF ok(1)] by auto
    qed
    finally show ?thesis .
  qed
  have new: "j div chunkSize ?w \<noteq> ?i" if "j < readPos ?w" for j
    using filling_not_read [OF ok(1,2,3) f that] .
  have r: "writer_ok ?w r" by (rule writers_okD(1) [OF ok(6) used(1) t])
  have "writers_ok w' ((writers s)(t := None))"
  proof (rule writers_ok_remove [OF ok(6,1) t used(1) shape fields(1)])
    fix i
    assume "i mod slots ?w \<noteq> ?i mod slots ?w" "filling ?w i"
    then have "filling ?sw i" by (simp add: filling_set_slot [OF ok(1)])
    then show "filling w' i" using fields same_shapeD(4) [OF shape] by (simp add: filling_def)
  qed
  moreover have "reader_ok w' ?C (rdr s)"
  proof (cases "rdr s")
    case Idle
    then show ?thesis by (simp add: reader_ok_def)
  next
    case (Reading slot off n e)
    then show ?thesis using ok(8) rdy used(1) same_shapeD [OF shape]
      by (simp add: reader_ok_def reader_at_def Let_def)
  next
    case (Got slot e bs)
    then have "ready ?w (readPos ?w div chunkSize ?w)"
      using ok(8) used(1) by (simp add: reader_ok_def reader_at_def Let_def)
    then have "readPos ?w div chunkSize ?w \<noteq> ?i" using not_ready_filling [OF _ f] by (metis (full_types))
    with Got show ?thesis using ok(8) rdy used(1) same_shapeD [OF shape]
      by (simp add: reader_ok_def reader_at_def Let_def)
  qed
  moreover have "partial_ok w'" using partial_ok_mono [OF ok(3) shape] rdy used(1) by blast
  moreover have "delivered_ok w' ?C (delivered s)"
    by (rule delivered_ok_mono [OF ok(7) shape]) (use new in auto)
  moreover have "data_ok w' ?C"
    unfolding data_ok_def
  proof (intro allI impI)
    fix i
    assume i: "i < total w'" "ready w' i"
    show "\<exists>b. ?C i = Some b \<and> (\<forall>j<length b. wfile w' (i mod slots w' * chunkSize w' + j) = b ! j)"
    proof (cases "i = ?i")
      case True
      then show ?thesis using r len fields(1) same_shapeD [OF shape] by (simp add: writer_ok_def)
    next
      case False
      then have "ready ?w i" "i < total ?w" using i rdy same_shapeD [OF shape] by auto
      then show ?thesis using ok(4) False fields(1) same_shapeD [OF shape] by (auto simp: data_ok_def)
    qed
  qed
  moreover have "committed_ok crc w' ?C"
    using ok(1,5) used(2) len(1) same_shapeD [OF shape]
    by (auto simp: committed_ok_def w' window_ok_def nth_list_update)
  moreover have "window_ok w'" using ok(1) by (simp add: w' window_ok_def)
  moreover have "slots_ok w'"
    using slots_ok_fill [OF ok(2,1) used, of slotReady] fields used(1) same_shapeD [OF shape]
    by (simp add: slots_ok_def slot_ok_def)
  ultimately show ?thesis by (simp add: sys_ok_def)
qed

lemma commit_ok:
  assumes ok: "sys_ok crc s" and t: "writers s t = Some r"
    and err: "err = None \<Longrightarrow> copy_error (win s) (widx r) (wbody r) = None \<and> wpos r = length (wbody r)"
    and run: "WriteChunk_commit (win s) (widx r) err (crc (wbody r)) = (res, w)"
  shows "sys_ok crc (s\<lparr>win := w, writers := (writers s)(t := None),
    committed := (case res of Inr _ \<Rightarrow> (committed s)(widx r \<mapsto> wbody r) | Inl _ \<Rightarrow> committed s)\<rparr>)"
  using run
proof (cases rule: commit_cases)
  case (stale e)
  then show ?thesis using ok writers_ok_forget by (simp add: sys_ok_def)
next
  case (failed e)
  then show ?thesis using commit_failed_ok [OF ok t] by simp
next
  case success
  then have "length (wbody r) = ChunkLen (win s) (widx r)" "wpos r = length (wbody r)"
    using err by (auto simp: copy_error_def Let_def split: if_splits)
  then show ?thesis using commit_success_ok [OF ok t success(2)] success by simp
qed

subsection \<open>Reading\<close>

lemma read_ok:
  assumes ok: "sys_ok crc s" and go: "Read_poll (win s) plen = ReadGo slot off n chunkEnd"
  shows "sys_ok crc (s\<lparr>rdr := Reading slot off n chunkEnd\<rparr>)"
proof -
  let ?w = "win s"
  let ?cur = "readPos ?w div chunkSize ?w"
  have g: "werr ?w = None" "readPos ?w < totalSize ?w" "ready ?w ?cur" "slot = ?cur mod slots ?w"
    "off = slot * chunkSize ?w + (readPos ?w - ?cur * chunkSize ?w)"
    "n = min plen (chunkEnd - readPos ?w)" "chunkEnd = ?cur * chunkSize ?w + ChunkLen ?w ?cur"
    using go by (auto simp: Read_poll_def ready_def Let_def split: if_splits option.splits)
  moreover have "readPos ?w - ?cur * chunkSize ?w = readPos ?w mod chunkSize ?w"
    by (metis minus_div_mult_eq_mod)
  moreover have "readPos ?w < chunkEnd"
    using cur_chunk [of ?w "readPos ?w"] sys_okD(1) [OF ok] g(2,7) by simp
  ultimately have "reader_ok ?w (committed s) (Reading slot off n chunkEnd)"
    by (simp add: reader_ok_def reader_at_def Let_def)
  then show ?thesis using ok by (simp add: sys_ok_def)
qed

lemma mod_less_chunk_len:
  assumes "window_ok w" "readPos w + m \<le> readPos w div chunkSize w * chunkSize w + ChunkLen w (readPos w div chunkSize w)"
  shows "readPos w mod chunkSize w + m \<le> ChunkLen w (readPos w div chunkSize w)"
  using assms(2) div_mult_mod_eq [of "readPos w" "chunkSize w"] by linarith

lemma read_at_ok:
  assumes ok: "sys_ok crc s" and rd: "rdr s = Reading slot off n chunkEnd" and k: "k \<le> n" "wopen (win s) \<or> k = 0"
  shows "sys_ok crc (s\<lparr>rdr := Got slot chunkEnd (read_bytes (wfile (win s)) off k)\<rparr>)"
proof -
  let ?w = "win s"
  let ?cur = "readPos ?w div chunkSize ?w"
  note oks = sys_okD [OF ok]
  have at: "reader_at ?w slot chunkEnd" and off: "off = slot * chunkSize ?w + readPos ?w mod chunkSize ?w"
    and n: "readPos ?w + n \<le> chunkEnd"
    using oks(8) rd by (auto simp: reader_ok_def)
  have "\<exists>b. committed s ?cur = Some b \<and>
      (\<forall>j < k. read_bytes (wfile ?w) off k ! j = b ! (readPos ?w mod chunkSize ?w + j))" if "k > 0"
  proof -
    have "werr ?w = None" using k(2) that oks(1) by (auto simp: window_ok_def)
    then have "ready ?w ?cur" and slot: "slot = ?cur mod slots ?w"
      and e: "chunkEnd = ?cur * chunkSize ?w + ChunkLen ?w ?cur" and cur: "?cur < total ?w"
      using at div_less_total [OF oks(1)] by (auto simp: reader_at_def Let_def)
    then obtain b where b: "committed s ?cur = Some b"
        "\<forall>j < length b. wfile ?w (?cur mod slots ?w * chunkSize ?w + j) = b ! j"
      using oks(4) by (auto simp: data_ok_def)
    have "length b = ChunkLen ?w ?cur" using b(1) oks(5) by (auto simp: committed_ok_def)
    then have "readPos ?w mod chunkSize ?w + k \<le> length b"
      using mod_less_chunk_len [OF oks(1), of k] n k(1) e by simp
    then have "\<forall>j < k. read_bytes (wfile ?w) off k ! j = b ! (readPos ?w mod chunkSize ?w + j)"
      using b(2) off slot by (simp add: read_bytes_def add.assoc)
    with b(1) show ?thesis by blast
  qed
  then have "reader_ok ?w (committed s) (Got slot chunkEnd (read_bytes (wfile ?w) off k))"
    using at n k(1) by (auto simp: reader_ok_def read_bytes_def)
  then show ?thesis using ok by (simp add: sys_ok_def)
qed

text \<open>Moving the read position by \<open>n\<close> bytes inside the current chunk.\<close>

lemma advance_within:
  assumes "window_ok w" "readPos w < totalSize w"
    "readPos w + n \<le> readPos w div chunkSize w * chunkSize w + ChunkLen w (readPos w div chunkSize w)"
    "readPos w \<le> j" "j < readPos w + n"
  shows "j div chunkSize w = readPos w div chunkSize w"
    "j mod chunkSize w = readPos w mod chunkSize w + (j - readPos w)"
proof -
  let ?c = "chunkSize w"
  have "ChunkLen w (readPos w div ?c) \<le> ?c"
    using chunk_end(3) [OF assms(1) div_less_total [OF assms(1,2)]] .
  then have lt: "readPos w mod ?c + (j - readPos w) < ?c"
    using mod_less_chunk_len [OF assms(1,3)] assms(4,5) by linarith
  have "j = readPos w div ?c * ?c + (readPos w mod ?c + (j - readPos w))"
    using assms(4) div_mult_mod_eq [of "readPos w" ?c] by linarith
  then show "j div ?c = readPos w div ?c" "j mod ?c = readPos w mod ?c + (j - readPos w)"
    using lt by (metis div_mult_self3 div_less add.right_neutral add_cancel_right_left less_nat_zero_code neq0_conv,
      metis mod_mult_self3 mod_less)
qed

lemma delivered_extend:
  assumes "window_ok w" "delivered_ok w C out" "reader_ok w C (Got slot chunkEnd bs)"
  shows "length (out @ bs) = readPos w + length bs"
    "j < readPos w + length bs \<Longrightarrow> \<exists>b. C (j div chunkSize w) = Some b \<and> (out @ bs) ! j = b ! (j mod chunkSize w)"
proof -
  show len: "length (out @ bs) = readPos w + length bs" using assms(2) by (simp add: delivered_ok_def)
  assume j: "j < readPos w + length bs"
  show "\<exists>b. C (j div chunkSize w) = Some b \<and> (out @ bs) ! j = b ! (j mod chunkSize w)"
  proof (cases "j < readPos w")
    case True
    then show ?thesis using assms(2) by (auto simp: delivered_ok_def nth_append)
  next
    case False
    then have "bs \<noteq> []" using j by auto
    then obtain b where b: "C (readPos w div chunkSize w) = Some b"
        "\<forall>j < length bs. bs ! j = b ! (readPos w mod chunkSize w + j)"
      and at: "readPos w < totalSize w"
        "readPos w + length bs \<le> readPos w div chunkSize w * chunkSize w + ChunkLen w (readPos w div chunkSize w)"
      using assms(3) by (auto simp: reader_ok_def reader_at_def Let_def)
    note adv = advance_within [OF assms(1) at(1,2), of j]
    have "(out @ bs) ! j = bs ! (j - readPos w)" using assms(2) False by (simp add: delivered_ok_def nth_append)
    then show ?thesis using b False j adv by auto
  qed
qed

lemma readPos_update [simp]:
  "ready (w\<lparr>readPos := p\<rparr>) i = ready w i" "filling (w\<lparr>readPos := p\<rparr>) i = filling w i"
  "ChunkLen (w\<lparr>readPos := p\<rparr>) i = ChunkLen w i" "writer_ok (w\<lparr>readPos := p\<rparr>) r = writer_ok w r"
  by (simp_all add: ready_def filling_def ChunkLen_def writer_ok_def)

lemma writers_ok_readPos: "writers_ok (w\<lparr>readPos := p\<rparr>) ws = writers_ok w ws"
  by (simp add: writers_ok_def)

lemma read_part_ok:
  assumes ok: "sys_ok crc s" and rd: "rdr s = Got slot chunkEnd bs" "bs \<noteq> []"
    and part: "readPos (win s) + length bs < chunkEnd"
  shows "sys_ok crc (s\<lparr>win := (win s)\<lparr>readPos := readPos (win s) + length bs\<rparr>, rdr := Idle, delivered := delivered s @ bs\<rparr>)"
proof -
  let ?w = "win s" and ?p = "readPos (win s) + length bs"
  let ?cur = "readPos ?w div chunkSize ?w" and ?w' = "?w\<lparr>readPos := ?p\<rparr>"
  note oks = sys_okD [OF ok]
  have at: "readPos ?w < totalSize ?w" "chunkEnd = ?cur * chunkSize ?w + ChunkLen ?w ?cur" "werr ?w = None \<longrightarrow> ready ?w ?cur"
    using oks(8) rd(1) by (auto simp: reader_ok_def reader_at_def Let_def)
  have cur: "?cur < total ?w" by (rule div_less_total [OF oks(1) at(1)])
  have "?p div chunkSize ?w = ?cur"
    using advance_within(1) [OF oks(1) at(1), of "length bs + 1" ?p] part at(2) by simp
  moreover have "?p < totalSize ?w" using chunk_end(1) [OF oks(1) cur] part at(2) by simp
  ultimately have "frontier ?w' = frontier ?w" "partial_ok ?w'"
    using at(1,3) by (simp_all add: frontier_def partial_ok_def)
  moreover from this have "slots_ok ?w'" using oks(2) by (simp add: slots_ok_def slot_ok_def)
  moreover have "window_ok ?w'" using oks(1) \<open>?p < totalSize ?w\<close> by (simp add: window_ok_def)
  moreover have "data_ok ?w' (committed s)" "committed_ok crc ?w' (committed s)"
    using oks(4,5) by (simp_all add: data_ok_def committed_ok_def)
  moreover have "delivered_ok ?w' (committed s) (delivered s @ bs)"
    using delivered_extend [OF oks(1,7), of slot chunkEnd bs] oks(8) rd(1) by (simp add: delivered_ok_def)
  ultimately show ?thesis using oks(6) by (simp add: sys_ok_def writers_ok_readPos reader_ok_def)
qed

lemma next_frontier:
  assumes "window_ok w" "cur < total w" "p = cur * chunkSize w + ChunkLen w cur"
  shows "frontier (w\<lparr>readPos := p\<rparr>) = Suc cur" "p \<le> totalSize w" "p < totalSize w \<Longrightarrow> p mod chunkSize w = 0"
proof -
  have p: "p = min (Suc cur * chunkSize w) (totalSize w)" using chunk_end(1) [OF assms(1,2)] assms(3) by simp
  have c: "0 < chunkSize w" using assms(1) by (simp add: window_ok_def)
  show "p \<le> totalSize w" using p by simp
  show "p < totalSize w \<Longrightarrow> p mod chunkSize w = 0" using p by (auto simp: min_def split: if_splits)
  show "frontier (w\<lparr>readPos := p\<rparr>) = Suc cur"
  proof (cases "p < totalSize w")
    case True
    then have "p = Suc cur * chunkSize w" using p by (auto simp: min_def split: if_splits)
    then have "p div chunkSize w = Suc cur" using c by (simp only: nonzero_mult_div_cancel_right)
    with True show ?thesis by (simp add: frontier_def)
  next
    case False
    then have "totalSize w \<le> Suc cur * chunkSize w" using p by auto
    then have "(total w - 1) * chunkSize w < Suc cur * chunkSize w" using assms(1) by (simp add: window_ok_def)
    then have "total w - 1 < Suc cur" by (rule mult_less_cancel2 [THEN iffD1, THEN conjunct2])
    with False assms(2) show ?thesis by (simp add: frontier_def)
  qed
qed

lemma read_chunk_ok:
  assumes ok: "sys_ok crc s" and rd: "rdr s = Got slot chunkEnd bs" "bs \<noteq> []"
    and full: "readPos (win s) + length bs = chunkEnd"
  shows "sys_ok crc (s\<lparr>win := set_slot slot slotFree (- 1) ((win s)\<lparr>readPos := readPos (win s) + length bs\<rparr>),
    rdr := Idle, delivered := delivered s @ bs\<rparr>)"
proof -
  let ?w = "win s" and ?p = "readPos (win s) + length bs"
  let ?cur = "readPos ?w div chunkSize ?w" and ?w1 = "(win s)\<lparr>readPos := readPos (win s) + length bs\<rparr>"
  let ?w' = "set_slot slot slotFree (- 1) ?w1"
  note oks = sys_okD [OF ok]
  have at: "readPos ?w < totalSize ?w" "slot = ?cur mod slots ?w"
      "chunkEnd = ?cur * chunkSize ?w + ChunkLen ?w ?cur" "werr ?w = None \<longrightarrow> ready ?w ?cur"
    using oks(8) rd(1) by (auto simp: reader_ok_def reader_at_def Let_def)
  have cur: "?cur < total ?w" by (rule div_less_total [OF oks(1) at(1)])
  have front: "frontier ?w = ?cur" using at(1) by (simp add: frontier_def)
  note nf = next_frontier [OF oks(1) cur, of ?p]
  have ok1: "window_ok ?w1" using oks(1) nf(2) full at(3) by (simp add: window_ok_def)
  have sl: "slot < slots ?w" using oks(1) at(2) by (simp add: window_ok_def)
  have "slot_ok ?w' s'" if "s' < slots ?w" for s'
  proof (cases "s' = slot")
    case True
    then show ?thesis using slot_ok_set_slot [OF ok1, of slot slot slotFree "- 1"] sl by simp
  next
    case False
    have old: "slot_ok ?w s'" using oks(2) that by (simp add: slots_ok_def)
    have "frontier ?w1 \<le> i" "i < frontier ?w1 + slots ?w"
      if "i mod slots ?w = s'" "frontier ?w \<le> i" "i < frontier ?w + slots ?w" for i
      using that nf(1) full at(2,3) front False by (auto simp: le_less Suc_le_eq)
    then have "slot_ok ?w1 s'" using old unfolding slot_ok_def by fastforce
    then show ?thesis using slot_ok_set_slot [OF ok1, of slot s' slotFree "- 1"] sl that False by simp
  qed
  then have "slots_ok ?w'" by (simp add: slots_ok_def)
  moreover have "partial_ok ?w'" using nf(3) full at(3) by (auto simp: partial_ok_def)
  moreover have "data_ok ?w' (committed s)" "committed_ok crc ?w' (committed s)"
    using oks(4,5) by (auto simp: data_ok_def committed_ok_def ready_set_slot [OF ok1])
  moreover have "delivered_ok ?w' (committed s) (delivered s @ bs)"
    using delivered_extend [OF oks(1,7), of slot chunkEnd bs] oks(8) rd(1) by (simp add: delivered_ok_def)
  moreover have "writers_ok ?w' (writers s)"
  proof (rule writers_okI)
    fix t r
    assume e: "werr ?w' = None" and t: "writers s t = Some r"
    then have r: "writer_ok ?w r" using writers_okD(1) [OF oks(6)] by simp
    then have fl: "filling ?w (widx r)" by (simp add: writer_ok_def)
    have "ready ?w ?cur" using at(4) e by simp
    then have "widx r mod slots ?w \<noteq> slot" using not_ready_filling [OF _ fl] at(2) by metis
    with r show "writer_ok ?w' r" using writer_ok_set_slot [OF ok1] by simp
  next
    fix t1 t2 r1 r2
    assume "werr ?w' = None" "writers s t1 = Some r1" "writers s t2 = Some r2"
      "widx r1 mod slots ?w' = widx r2 mod slots ?w'"
    then show "t1 = t2" using writers_okD(2) [OF oks(6), of t1 r1 t2 r2] by simp
  qed
  ultimately show ?thesis using window_ok_set_slot [OF ok1] by (simp add: sys_ok_def reader_ok_def)
qed

lemma read_done_ok:
  assumes ok: "sys_ok crc s" and rd: "rdr s = Got slot chunkEnd bs"
    and fin: "Read_finish (win s) slot chunkEnd (length bs) oserr = (res, w)"
  shows "sys_ok crc (s\<lparr>win := w, rdr := Idle, delivered := delivered s @ bs\<rparr>)"
proof (cases "bs = []")
  case True
  then have "w = win s" using fin by (simp add: Read_finish_def Let_def)
  with True ok show ?thesis by (simp add: sys_ok_def reader_ok_def)
next
  case False
  have "readPos (win s) + length bs \<le> chunkEnd" using sys_okD(8) [OF ok] rd by (simp add: reader_ok_def)
  then consider "readPos (win s) + length bs < chunkEnd" | "readPos (win s) + length bs = chunkEnd" by linarith
  then show ?thesis
  proof cases
    case 1
    then have "w = (win s)\<lparr>readPos := readPos (win s) + length bs\<rparr>"
      using fin False by (auto simp: Read_finish_def Let_def)
    then show ?thesis using read_part_ok [OF ok rd False 1] by simp
  next
    case 2
    then have "w = set_slot slot slotFree (- 1) ((win s)\<lparr>readPos := readPos (win s) + length bs\<rparr>)"
      using fin False by (auto simp: Read_finish_def Let_def)
    then show ?thesis using read_chunk_ok [OF ok rd False 2] by simp
  qed
qed

subsection \<open>Closing\<close>

lemma close_ok: "sys_ok crc s \<Longrightarrow> sys_ok crc (s\<lparr>win := CloseWithError sticky (win s)\<rparr>)"
proof -
  assume ok: "sys_ok crc s"
  let ?w = "win s" and ?w' = "CloseWithError sticky (win s)"
  note oks = sys_okD [OF ok]
  have err: "werr ?w' \<noteq> None" by (auto simp: CloseWithError_def)
  have shape: "same_shape ?w ?w'" by (simp add: same_shape_def CloseWithError_def)
  have free: "slotState ?w' ! i = slotFree \<and> slotChunk ?w' ! i = - 1" if "i < slots ?w" for i
    using that oks(1) by (simp add: CloseWithError_def window_ok_def)
  have nr: "\<not> ready ?w' i" for i
  proof -
    have "i mod slots ?w < slots ?w" using oks(1) by (simp add: window_ok_def)
    then show ?thesis using free same_shapeD(4) [OF shape] by (simp add: ready_def)
  qed
  have "slots_ok ?w'" using free same_shapeD(4) [OF shape] by (simp add: slots_ok_def slot_ok_def)
  moreover have "window_ok ?w'" using oks(1) err same_shapeD [OF shape]
    by (simp add: window_ok_def CloseWithError_def)
  moreover have "partial_ok ?w'" "writers_ok ?w' (writers s)" "data_ok ?w' (committed s)"
    using err nr by (auto simp: partial_ok_def writers_ok_def data_ok_def)
  moreover have "reader_ok ?w' (committed s) (rdr s)" "delivered_ok ?w' (committed s) (delivered s)"
    using reader_ok_mono [OF oks(8) shape] delivered_ok_mono [OF oks(7) shape] err by auto
  moreover have "committed_ok crc ?w' (committed s)"
    using oks(5) same_shapeD [OF shape] by (simp add: committed_ok_def) (simp add: CloseWithError_def)
  ultimately show ?thesis by (simp add: sys_ok_def)
qed

lemma window_step_ok: "window_step crc s s' \<Longrightarrow> sys_ok crc s \<Longrightarrow> sys_ok crc s'"
  by (induction rule: window_step.induct)
    (blast intro: admit_ok copy_ok commit_ok read_ok read_at_ok read_done_ok close_ok)+

lemma window_reach_ok: "window_reach crc s s' \<Longrightarrow> sys_ok crc s \<Longrightarrow> sys_ok crc s'"
  by (induction rule: window_reach.induct) (auto intro: window_step_ok)

text \<open>A new window satisfies the invariant, unless the chunk count overflows.\<close>

lemma NewWindow_ok:
  assumes "NewWindow mkdir openFile cs ts n = NewOk w" "ts + cs - 1 < 2 ^ 63"
  shows "sys_ok crc (window_start w)" "chunkSize w = nat cs" "totalSize w = nat ts" "slots w = nat n"
proof -
  have pos: "0 < cs" "0 < ts" "0 < n"
    using assms(1) by (auto simp: NewWindow_def split: if_splits)
  have "wrap64 (ts + cs - 1) = ts + cs - 1" using pos assms(2) by (intro wrap64_id) (simp add: int64_range_def)
  then have t: "go_div (wrap64 (ts + cs - 1)) cs = (ts + cs - 1) div cs"
    using pos by (simp add: go_div_nonneg)
  let ?t = "(ts + cs - 1) div cs"
  have t0: "0 < ?t" using pos by (simp add: pos_imp_zdiv_pos_iff)
  have m: "0 \<le> (ts + cs - 1) mod cs" "(ts + cs - 1) mod cs < cs" using pos by simp_all
  have "?t * cs = ts + cs - 1 - (ts + cs - 1) mod cs" by (simp add: minus_mod_eq_div_mult)
  then have "?t * cs - cs < ts" "ts \<le> ?t * cs" using m by linarith+
  then have "(?t - 1) * cs < ts" "ts \<le> ?t * cs" by (simp_all add: left_diff_distrib)
  moreover have "int (nat ?t - 1) = ?t - 1" "int (nat ?t) = ?t" "int (nat cs) = cs" "int (nat ts) = ts"
    using pos t0 by linarith+
  ultimately have "int ((nat ?t - 1) * nat cs) < int (nat ts)" "int (nat ts) \<le> int (nat ?t * nat cs)"
    by (simp_all only: of_nat_mult)
  then have "(nat ?t - 1) * nat cs < nat ts" "nat ts \<le> nat ?t * nat cs"
    by (simp_all only: of_nat_less_iff of_nat_le_iff)
  moreover have w: "w = \<lparr>wopen = True, wfile = (\<lambda>_. CHR 0x00), chunkSize = nat cs, totalSize = nat ts,
       total = nat ?t, slots = nat n, slotState = replicate (nat n) slotFree,
       slotChunk = replicate (nat n) (- 1), readPos = 0, crcs = replicate (nat ?t) 0,
       crcSet = replicate (nat ?t) False, werr = None\<rparr>"
    using assms(1) t by (auto simp: NewWindow_def Let_def split: if_splits option.splits)
  ultimately show "sys_ok crc (window_start w)" "chunkSize w = nat cs" "totalSize w = nat ts" "slots w = nat n"
    using pos t0
    by (auto simp: sys_ok_def window_start_def window_ok_def slots_ok_def slot_ok_def partial_ok_def data_ok_def
        committed_ok_def writers_ok_def delivered_ok_def reader_ok_def ready_def)
qed

section \<open>Chunks as a stream\<close>

lemma length_concat_chunks:
  "(\<And>i. i < k \<Longrightarrow> length (b i) = c) \<Longrightarrow> length (concat (map b [0..<k])) = k * c"
  by (induction k) auto

lemma nth_concat_chunks:
  "(\<And>i. i < k \<Longrightarrow> length (b i) = c) \<Longrightarrow> length (b k) \<le> c \<Longrightarrow> j < k * c + length (b k) \<Longrightarrow>
     concat (map b [0..<Suc k]) ! j = b (j div c) ! (j mod c)"
proof (induction k)
  case 0
  then show ?case by simp
next
  case (Suc k)
  have len: "length (concat (map b [0..<Suc k])) = Suc k * c" using Suc.prems(1) by (intro length_concat_chunks)
  have split: "concat (map b [0..<Suc (Suc k)]) = concat (map b [0..<Suc k]) @ b (Suc k)" by simp
  show ?case
  proof (cases "j < Suc k * c")
    case True
    have "concat (map b [0..<Suc k]) ! j = b (j div c) ! (j mod c)"
      using Suc.prems(1) True by (intro Suc.IH) auto
    then show ?thesis unfolding split using len True by (simp only: nth_append if_True)
  next
    case False
    then have j: "j - Suc k * c < c" "j = Suc k * c + (j - Suc k * c)" using Suc.prems(2,3) by auto
    then have "j div c = Suc k" "j mod c = j - Suc k * c"
      by (metis add.right_neutral div_less div_mult_self3 less_nat_zero_code neq0_conv, metis mod_less mod_mult_self3)
    then show ?thesis unfolding split using len False by (simp only: nth_append if_False)
  qed
qed

text \<open>A chunk whose first byte has been read is acknowledged.\<close>

lemma read_committed:
  assumes "window_ok w" "delivered_ok w C out" "i * chunkSize w < readPos w"
  shows "\<exists>b. C i = Some b"
  using assms by (force simp: delivered_ok_def window_ok_def)

lemma prefix_nthI:
  assumes "length xs \<le> length ys" "\<And>j. j < length xs \<Longrightarrow> ys ! j = xs ! j" shows "prefix xs ys"
proof -
  have "xs = take (length xs) ys" using assms by (intro nth_equalityI) auto
  then show ?thesis by (metis take_is_prefix)
qed

lemma delivered_prefix:
  assumes "sys_ok crc s"
  shows "\<exists>k. (\<forall>i < k. \<exists>b. committed s i = Some b \<and> length b = ChunkLen (win s) i) \<and>
    prefix (delivered s) (concat (map (\<lambda>i. the (committed s i)) [0..<k]))"
proof (cases "readPos (win s) = 0")
  case True
  then show ?thesis using sys_okD(7) [OF assms] by (intro exI [of _ 0]) (simp add: delivered_ok_def)
next
  case False
  let ?w = "win s" and ?b = "\<lambda>i. the (committed s i)" and ?c = "chunkSize (win s)"
  let ?k = "(readPos ?w - 1) div ?c"
  note oks = sys_okD [OF assms]
  have c: "0 < ?c" "readPos ?w \<le> totalSize ?w" using oks(1) by (auto simp: window_ok_def)
  have com: "\<exists>b. committed s i = Some b \<and> length b = ChunkLen ?w i" if "i < Suc ?k" for i
  proof -
    have "i * ?c \<le> readPos ?w - 1" using that by (meson div_times_less_eq_dividend less_Suc_eq_le mult_le_mono1 order_trans)
    then have "i * ?c < readPos ?w" using False by linarith
    then show ?thesis using read_committed [OF oks(1,7), of i] oks(5) by (auto simp: committed_ok_def)
  qed
  have k: "?k < total ?w" using com [of ?k] oks(5) by (auto simp: committed_ok_def)
  have len: "length (?b i) = ?c" if "i < ?k" for i
  proof -
    have "Suc i < total ?w" using that k by simp
    then show ?thesis using com [of i] that by (auto simp: ChunkLen_def)
  qed
  have last: "length (?b ?k) = ChunkLen ?w ?k" using com [of ?k] by auto
  have all: "readPos ?w \<le> ?k * ?c + length (?b ?k)"
  proof -
    have "readPos ?w - 1 < totalSize ?w" using False c(2) by linarith
    from cur_chunk [OF oks(1) this] show ?thesis using last by linarith
  qed
  let ?all = "concat (map ?b [0..<Suc ?k])"
  have "length ?all = ?k * ?c + length (?b ?k)" using length_concat_chunks [of ?k ?b ?c] len by simp
  moreover have "?all ! j = delivered s ! j" if j: "j < readPos ?w" for j
  proof -
    have "?all ! j = ?b (j div ?c) ! (j mod ?c)"
      using len last chunk_end(3) [OF oks(1) k] all that by (intro nth_concat_chunks) auto
    moreover obtain b where "committed s (j div ?c) = Some b" "delivered s ! j = b ! (j mod ?c)"
      using oks(7) j unfolding delivered_ok_def by blast
    ultimately show ?thesis by simp
  qed
  moreover have "length (delivered s) = readPos ?w" using oks(7) by (simp add: delivered_ok_def)
  ultimately have "prefix (delivered s) ?all" using all by (intro prefix_nthI) metis+
  then show ?thesis using com by (intro exI [of _ "Suc ?k"]) auto
qed

section \<open>Requests in flight\<close>

definition owned :: "sys \<Rightarrow> bool" where
  "owned s \<longleftrightarrow> (\<forall>i. filling (win s) i \<longrightarrow> (\<exists>t r. writers s t = Some r \<and> widx r = i))"

lemma owned_mono:
  assumes "owned s" "\<And>i. filling (win s') i \<Longrightarrow> filling (win s) i" "writers s' = writers s"
  shows "owned s'"
  using assms unfolding owned_def by metis

lemma window_step_owned: "window_step crc s s' \<Longrightarrow> sys_ok crc s \<Longrightarrow> owned s \<Longrightarrow> owned s'"
proof (induction rule: window_step.induct)
  case (admit s idx expired w t body)
  have i: "nat idx < total (win s)" "admission_round (win s) (nat idx) expired = AdmitGo w"
    using admit.hyps by (auto simp: WriteChunk_admit_def split: option.splits if_splits)
  note ok = sys_okD [OF admit.prems(1)]
  have w: "w = set_slot (nat idx mod slots (win s)) slotFilling (int (nat idx)) (win s)"
    by (rule admission_round_go(5) [OF ok(1) i])
  have "i = nat idx \<or> filling (win s) i" if "filling w i" for i
    using that filling_set_slot [OF ok(1)] unfolding w by (metis of_nat_eq_iff)
  then show ?case using admit.prems(2) admit.hyps(2) unfolding owned_def
    by (simp add: split: if_splits) (metis option.distinct(1) writer.select_convs(1))
next
  case (copy s t wr k)
  have "filling ((win s)\<lparr>wfile := f\<rparr>) i = filling (win s) i" for f i by (simp add: filling_def)
  then show ?case using copy.prems(2) copy.hyps(1) unfolding owned_def
    by (simp split: if_splits) (metis option.inject writer.select_convs(1) writer.surjective writer.update_convs(3))
next
  case (commit s t wr err res w)
  note ok = sys_okD [OF commit.prems(1)]
  have keep: "owned (s\<lparr>win := w, writers := (writers s)(t := None), committed := C\<rparr>)"
    if "\<And>i. filling w i \<Longrightarrow> filling (win s) i \<and> i \<noteq> widx wr" for C
    using commit.prems(2) commit.hyps(1) that unfolding owned_def
    by (simp split: if_splits) (metis option.inject)
  have free: "filling (win s) i \<and> i \<noteq> widx wr" if "filling (set_slot (widx wr mod slots (win s)) st c (win s)) i" "st \<noteq> slotFilling" for i st c
    using that filling_set_slot [OF ok(1)] by metis
  from commit.hyps(3) show ?case
  proof (cases rule: commit_cases)
    case (stale e)
    then show ?thesis using keep by metis
  next
    case (failed e)
    then show ?thesis using keep free by blast
  next
    case success
    have "filling w i = filling (set_slot (widx wr mod slots (win s)) slotReady (int (widx wr)) (win s)) i" for i
      by (simp add: success(5) filling_def)
    then show ?thesis using keep free by blast
  qed
next
  case (read_done s slot chunkEnd bs oserr res w)
  note ok = sys_okD [OF read_done.prems(1)]
  have "w = win s \<or> (\<exists>p. w = (win s)\<lparr>readPos := p\<rparr> \<or> w = set_slot slot slotFree (- 1) ((win s)\<lparr>readPos := p\<rparr>))"
    using read_done.hyps(2) by (auto simp: Read_finish_def Let_def split: if_splits)
  moreover have "filling (win s) i" if "filling (set_slot slot slotFree (- 1) ((win s)\<lparr>readPos := p\<rparr>)) i" for i p
  proof -
    have "filling (set_slot slot slotFree (- 1) (win s)) i" using that by (simp add: filling_def)
    then show ?thesis using filling_set_slot [OF ok(1)] by (metis slot_state.distinct(1))
  qed
  ultimately show ?case using read_done.prems(2) by (elim owned_mono) (auto simp: filling_def)
next
  case (close s sticky)
  note ok = sys_okD [OF close.prems(1)]
  have "\<not> filling (CloseWithError sticky (win s)) i" for i
    using ok(1) by (simp add: filling_def CloseWithError_def window_ok_def)
  then show ?case by (simp add: owned_def)
qed (simp_all add: owned_def)

lemma window_reach_inv:
  assumes "window_reach crc (window_start w) s" "NewWindow mkdir openFile cs ts n = NewOk w" "ts + cs - 1 < 2 ^ 63"
  shows "sys_ok crc s" "owned s"
proof -
  have start: "sys_ok crc (window_start w)" by (rule NewWindow_ok(1) [OF assms(2,3)])
  have "owned (window_start w)"
    using assms(2)
    by (auto simp: owned_def window_start_def NewWindow_def filling_def Let_def split: if_splits option.splits)
  with assms(1) start have "sys_ok crc s \<and> owned s"
    by (induction "window_start w" s rule: window_reach.induct) (auto intro: window_step_ok window_step_owned)
  then show "sys_ok crc s" "owned s" by auto
qed

section \<open>Properties\<close>

definition example_window :: Window where
  "example_window = (case NewWindow None None 2 5 2 of NewOk w \<Rightarrow> w)"

lemma example_window: "NewWindow None None 2 5 2 = NewOk example_window"
  by (simp add: example_window_def NewWindow_def go_div_def wrap64_def)

text \<open>A run in which the first chunk arrives, is read, and the second one is being received.\<close>

definition example_state :: "sys \<Rightarrow> bool" where
  "example_state s \<longleftrightarrow> delivered s = ''ab'' \<and> committed s = [0 \<mapsto> ''ab''] \<and> werr (win s) = None \<and>
     readPos (win s) = 2 \<and> totalSize (win s) = 5 \<and> frontier (win s) = 1 \<and>
     WriteChunk_admit (win s) 0 False = AdmitCrc 2 \<and> Read_poll (win s) 4 = ReadWait"

lemma example_run: "\<exists>s. window_reach length (window_start example_window) s \<and> example_state s"
proof -
  let ?W = "\<lambda>f st ch p cr. \<lparr>wopen = True, wfile = f, chunkSize = 2, totalSize = 5, total = 3, slots = 2,
    slotState = st, slotChunk = ch, readPos = p, crcs = [cr, 0, 0], crcSet = [cr \<noteq> 0, False, False], werr = None\<rparr>"
  let ?wr = "\<lambda>p. \<lparr>widx = 0, wbody = ''ab'', wpos = p\<rparr>"
  let ?zero = "\<lambda>_. CHR 0x00" and ?f = "write_bytes (\<lambda>_. CHR 0x00) 0 ''ab''"
  let ?s0 = "window_start example_window"
  let ?s1 = "\<lparr>win = ?W ?zero [slotFilling, slotFree] [0, -1] 0 0, writers = [0 \<mapsto> ?wr 0], rdr = Idle,
    delivered = [], committed = Map.empty\<rparr>"
  let ?s2 = "?s1\<lparr>win := ?W ?f [slotFilling, slotFree] [0, -1] 0 0, writers := [0 \<mapsto> ?wr 2]\<rparr>"
  let ?s3 = "?s2\<lparr>win := ?W ?f [slotReady, slotFree] [0, -1] 0 2, writers := Map.empty, committed := [0 \<mapsto> ''ab'']\<rparr>"
  let ?s4 = "?s3\<lparr>rdr := Reading 0 0 2 2\<rparr>"
  let ?s5 = "?s3\<lparr>rdr := Got 0 2 ''ab''\<rparr>"
  let ?s6 = "?s3\<lparr>win := ?W ?f [slotFree, slotFree] [-1, -1] 2 2, rdr := Idle, delivered := ''ab''\<rparr>"
  have w: "example_window = ?W ?zero [slotFree, slotFree] [-1, -1] 0 0"
    by (simp add: example_window_def NewWindow_def go_div_def wrap64_def numeral_eq_Suc)
  have "window_step length ?s0 ?s1"
    using window_step.admit [of ?s0 0 False "win ?s1" 0 length "''ab''"]
    by (simp add: w window_start_def WriteChunk_admit_def admission_round_def ChunkLen_def frontier_def set_slot_def)
  moreover have "window_step length ?s1 ?s2"
    using window_step.copy [of ?s1 0 "?wr 0" 2 length] by (simp add: ChunkLen_def numeral_2_eq_2)
  moreover have "window_step length ?s2 ?s3"
    using window_step.commit [of ?s2 0 "?wr 2" None length "Inr 2" "win ?s3"]
    by (simp add: copy_error_def ChunkLen_def WriteChunk_commit_def)
  moreover have "window_step length ?s3 ?s4"
    using window_step.read [of ?s3 4 0 0 2 2 length] by (simp add: Read_poll_def ChunkLen_def)
  moreover have "window_step length ?s4 ?s5"
    using window_step.read_at [of ?s4 0 0 2 2 2 length]
    by (simp add: read_bytes_def write_bytes_def numeral_eq_Suc)
  moreover have "window_step length ?s5 ?s6"
    using window_step.read_done [of ?s5 0 2 "''ab''" None "(2, None)" "win ?s6" length]
    by (simp add: Read_finish_def set_slot_def)
  ultimately have "window_reach length ?s0 ?s6" by (meson window_reach.intros)
  moreover have "example_state ?s6"
    by (simp add: example_state_def frontier_def WriteChunk_admit_def admission_round_def ChunkLen_def Read_poll_def)
  ultimately show ?thesis by blast
qed

text \<open>C5 (in-order delivery): however chunk uploads, reads and closing are interleaved, the bytes the
  reader has received are a prefix of the acknowledged chunk bodies in chunk order.\<close>

theorem window_delivers_in_order:
  assumes "NewWindow mkdir openFile cs ts n = NewOk w" "ts + cs - 1 < 2 ^ 63"
    and "window_reach crc (window_start w) s"
  shows "\<exists>k. (\<forall>i < k. \<exists>b. committed s i = Some b \<and> length b = ChunkLen (win s) i) \<and>
    prefix (delivered s) (concat (map (\<lambda>i. the (committed s i)) [0..<k])) \<and>
    length (delivered s) = readPos (win s)"
proof -
  have ok: "sys_ok crc s" by (rule window_reach_inv(1) [OF assms(3,1,2)])
  then show ?thesis using delivered_prefix [OF ok] sys_okD(7) [OF ok] by (auto simp: delivered_ok_def)
qed

text \<open>Acknowledgement: when a chunk is answered with a checksum without being read again, its
  body was received before and the checksum is the one of that body.\<close>

theorem WriteChunk_resend_crc:
  assumes "NewWindow mkdir openFile cs ts n = NewOk w" "ts + cs - 1 < 2 ^ 63"
    and "window_reach crc (window_start w) s" "WriteChunk_admit (win s) idx expired = AdmitCrc c"
  shows "\<exists>b. committed s (nat idx) = Some b \<and> length b = ChunkLen (win s) (nat idx) \<and> c = crc b"
proof -
  let ?w = "win s" and ?i = "nat idx"
  note ok = sys_okD [OF window_reach_inv(1) [OF assms(3,1,2)]]
  have i: "?i < total ?w" and run: "admission_round ?w ?i expired = AdmitCrc c"
    using assms(4) by (auto simp: WriteChunk_admit_def split: option.splits if_splits)
  then have "c = crcs ?w ! ?i" "?i * chunkSize ?w + ChunkLen ?w ?i \<le> readPos ?w \<or> ready ?w ?i"
    by (auto simp: admission_round_def ready_def Let_def split: option.splits if_splits)
  moreover have "\<exists>b. committed s ?i = Some b" if "?i * chunkSize ?w + ChunkLen ?w ?i \<le> readPos ?w"
    using read_committed [OF ok(1,7), of ?i] chunk_end(2) [OF ok(1) i] that by simp
  moreover have "\<exists>b. committed s ?i = Some b" if "ready ?w ?i"
    using ok(4) that i by (auto simp: data_ok_def)
  ultimately obtain b where "committed s ?i = Some b" "c = crcs ?w ! ?i" by blast
  then show ?thesis using ok(5) by (auto simp: committed_ok_def)
qed

text \<open>C24 (no deadlock): while the window is open and the stream is not finished, the chunk the reader
  needs next can be read, is being received, or is admitted at once when a request brings it.\<close>

theorem window_progress:
  assumes "NewWindow mkdir openFile cs ts n = NewOk w" "ts + cs - 1 < 2 ^ 63"
    and "window_reach crc (window_start w) s" "werr (win s) = None" "readPos (win s) < totalSize (win s)" "0 < plen"
  shows "(\<exists>slot off k chunkEnd. Read_poll (win s) plen = ReadGo slot off k chunkEnd \<and> 0 < k) \<or>
    (\<exists>t r. writers s t = Some r \<and> widx r = frontier (win s)) \<or>
    (\<exists>w'. WriteChunk_admit (win s) (int (frontier (win s))) expired = AdmitGo w')"
proof -
  let ?w = "win s"
  let ?f = "frontier ?w"
  note inv = window_reach_inv [OF assms(3,1,2)]
  note ok = sys_okD [OF inv(1)]
  have f: "?f = readPos ?w div chunkSize ?w" using assms(5) by (simp add: frontier_def)
  then have ft: "?f < total ?w" using div_less_total [OF ok(1) assms(5)] by simp
  have pos: "readPos ?w < ?f * chunkSize ?w + ChunkLen ?w ?f" using cur_chunk [OF ok(1) assms(5)] f by simp
  have sl: "?f mod slots ?w < slots ?w" using ok(1) by (simp add: window_ok_def)
  consider "slotState ?w ! (?f mod slots ?w) = slotFree" | "ready ?w ?f" | "filling ?w ?f"
  proof -
    have "slotChunk ?w ! (?f mod slots ?w) = int ?f" if nf: "slotState ?w ! (?f mod slots ?w) \<noteq> slotFree"
    proof -
      obtain i where i: "slotChunk ?w ! (?f mod slots ?w) = int i" "i mod slots ?w = ?f mod slots ?w" "?f \<le> i" "i < ?f + slots ?w"
        using ok(2) sl nf unfolding slots_ok_def slot_ok_def by blast
      have "i = ?f" by (rule mod_in_window [OF i(2) i(3,4)]) (use sl in auto)
      with i(1) show ?thesis by simp
    qed
    then show thesis using that by (cases "slotState ?w ! (?f mod slots ?w)") (auto simp: ready_def filling_def)
  qed
  then show ?thesis
  proof cases
    case 1
    then have "slotChunk ?w ! (?f mod slots ?w) = - 1" using ok(2) sl by (simp add: slots_ok_def slot_ok_def)
    then show ?thesis using 1 assms(4) ft pos sl by (simp add: WriteChunk_admit_def admission_round_def Let_def)
  next
    case 2
    then have "Read_poll ?w plen = ReadGo (?f mod slots ?w)
        (?f mod slots ?w * chunkSize ?w + (readPos ?w - ?f * chunkSize ?w))
        (min plen (?f * chunkSize ?w + ChunkLen ?w ?f - readPos ?w)) (?f * chunkSize ?w + ChunkLen ?w ?f)"
      using assms(4-6) by (simp add: Read_poll_def Let_def ready_def f [symmetric])
    then show ?thesis using pos assms(6) by simp
  next
    case 3
    then show ?thesis using inv(2) by (auto simp: owned_def)
  qed
qed

theorem window_delivers_in_order_witness:
  "\<exists>s. window_reach length (window_start example_window) s \<and> delivered s = ''ab'' \<and>
    (\<exists>k. prefix ''ab'' (concat (map (\<lambda>i. the (committed s i)) [0..<k])))"
proof -
  obtain s where s: "window_reach length (window_start example_window) s" "example_state s"
    using example_run by blast
  then have d: "delivered s = ''ab''" by (simp add: example_state_def)
  obtain k where "prefix (delivered s) (concat (map (\<lambda>i. the (committed s i)) [0..<k]))"
    using window_delivers_in_order [OF example_window _ s(1)] by auto
  then show ?thesis using s(1) d by metis
qed

theorem WriteChunk_resend_crc_witness:
  "\<exists>s b. window_reach length (window_start example_window) s \<and> committed s 0 = Some b \<and> 2 = length b"
proof -
  obtain s where s: "window_reach length (window_start example_window) s" "example_state s"
    using example_run by blast
  then have "WriteChunk_admit (win s) 0 False = AdmitCrc 2" by (simp add: example_state_def)
  from WriteChunk_resend_crc [OF example_window _ s(1) this] show ?thesis using s(1) by auto
qed

theorem window_progress_witness:
  "\<exists>s. window_reach length (window_start example_window) s \<and> Read_poll (win s) 4 = ReadWait \<and>
    ((\<exists>t r. writers s t = Some r \<and> widx r = 1) \<or> (\<exists>w'. WriteChunk_admit (win s) 1 False = AdmitGo w'))"
proof -
  obtain s where s: "window_reach length (window_start example_window) s" "example_state s"
    using example_run by blast
  have "(\<exists>slot off k chunkEnd. Read_poll (win s) 4 = ReadGo slot off k chunkEnd \<and> 0 < k) \<or>
      (\<exists>t r. writers s t = Some r \<and> widx r = frontier (win s)) \<or>
      (\<exists>w'. WriteChunk_admit (win s) (int (frontier (win s))) False = AdmitGo w')"
    by (rule window_progress [OF example_window _ s(1)]) (use s(2) in \<open>simp_all add: example_state_def\<close>)
  with s show ?thesis by (auto simp: example_state_def)
qed

section \<open>Snapshots\<close>

definition covers :: "(nat \<times> nat) list \<Rightarrow> nat \<Rightarrow> bool" where
  "covers ranges i \<longleftrightarrow> (\<exists>(a, b) \<in> set ranges. a \<le> i \<and> i \<le> b)"

definition unread :: "Window \<Rightarrow> nat \<Rightarrow> int" where
  "unread w i = int (ChunkLen w i) - (if readPos w > i * chunkSize w then int (readPos w) - int (i * chunkSize w) else 0)"

lemma covers_snoc [simp]: "covers (rs @ [(a, b)]) i \<longleftrightarrow> covers rs i \<or> a \<le> i \<and> i \<le> b"
  by (auto simp: covers_def)

lemma snapshot_loop:
  assumes "f \<le> m" "foldl (snapshot_step w) (rs0, b0) [f..<m] = (rs, bytes)"
    "\<forall>(a, b) \<in> set rs0. a \<le> b \<and> b < f"
  shows "(\<forall>(a, b) \<in> set rs. a \<le> b \<and> b < m) \<and>
    (\<forall>i. covers rs i \<longleftrightarrow> covers rs0 i \<or> f \<le> i \<and> i < m \<and> ready w i) \<and>
    bytes = b0 + (\<Sum>i \<in> {i. f \<le> i \<and> i < m \<and> ready w i}. unread w i)"
  using assms(1,2)
proof (induction m arbitrary: rs bytes rule: dec_induct)
  case base
  moreover have "(\<Sum>i \<in> {i. f \<le> i \<and> i < f \<and> ready w i}. unread w i) = 0" by (rule sum.neutral) auto
  ultimately show ?case using assms(3) by auto
next
  case (step m)
  obtain rs1 b1 where st: "foldl (snapshot_step w) (rs0, b0) [f..<m] = (rs1, b1)" by fastforce
  note IH = step.IH [OF st]
  have run: "snapshot_step w (rs1, b1) m = (rs, bytes)" using step.prems st step.hyps(1) by simp
  have idx: "{i. f \<le> i \<and> i < Suc m \<and> ready w i} = (if ready w m then insert m {i. f \<le> i \<and> i < m \<and> ready w i}
      else {i. f \<le> i \<and> i < m \<and> ready w i})"
    using step.hyps(1) by (auto simp: less_Suc_eq)
  have fin: "finite {i. f \<le> i \<and> i < m \<and> ready w i}" by (rule finite_subset [of _ "{..<m}"]) auto
  show ?case
  proof (cases "ready w m")
    case False
    then have "rs = rs1" "bytes = b1" using run by (auto simp: snapshot_step_def ready_def Let_def)
    then show ?thesis using IH False idx by (auto simp: less_Suc_eq)
  next
    case True
    then have bytes: "bytes = b1 + unread w m"
      using run by (auto simp: snapshot_step_def ready_def unread_def Let_def split: if_splits)
    have sum: "bytes = b0 + (\<Sum>i \<in> {i. f \<le> i \<and> i < Suc m \<and> ready w i}. unread w i)"
      using IH True idx bytes fin by simp
    show ?thesis
    proof (cases "rs1 \<noteq> [] \<and> Suc (snd (last rs1)) = m")
      case merge: True
      define a where "a = fst (last rs1)"
      have rs1: "rs1 = butlast rs1 @ [(a, m - 1)]" using merge by (auto simp: a_def snoc_eq_iff_butlast)
      have rs: "rs = butlast rs1 @ [(a, m)]" using run True merge by (simp add: snapshot_step_def ready_def Let_def a_def)
      have le: "a \<le> m - 1" "0 < m" using IH rs1 merge by (metis case_prodD in_set_conv_decomp, simp)
      have "covers rs i \<longleftrightarrow> covers rs1 i \<or> i = m" for i
        unfolding rs using le by (subst (2) rs1) auto
      moreover have "\<forall>(a, b) \<in> set rs. a \<le> b \<and> b < Suc m"
        unfolding rs using IH le by (fastforce dest: in_set_butlastD)
      ultimately show ?thesis using IH True sum step.hyps(1) by (auto simp: less_Suc_eq)
    next
      case False
      then have "rs = rs1 @ [(m, m)]" using run True by (auto simp: snapshot_step_def ready_def Let_def split: if_splits)
      then show ?thesis using IH True sum step.hyps(1) by (auto simp: less_Suc_eq)
    qed
  qed
qed

lemma sum_ChunkLen:
  "window_ok w \<Longrightarrow> f \<le> total w \<Longrightarrow> (\<Sum>i<f. ChunkLen w i) = min (f * chunkSize w) (totalSize w)"
proof (induction f)
  case 0
  then show ?case by simp
next
  case (Suc f)
  have "f * chunkSize w \<le> (total w - 1) * chunkSize w" using Suc.prems(2) by (intro mult_le_mono1) simp
  moreover have "(total w - 1) * chunkSize w < totalSize w" using Suc.prems(1) by (simp add: window_ok_def)
  ultimately have "f * chunkSize w < totalSize w" by linarith
  then show ?case using Suc chunk_end(1) [of w f] by simp
qed

lemma snapshot_bytes:
  assumes "window_ok w" "slots_ok w" "partial_ok w" "werr w = None"
  shows "int (readPos w) + (\<Sum>i \<in> {i. i < total w \<and> ready w i}. unread w i) =
    int (\<Sum>i \<in> {i. i < frontier w \<or> i < total w \<and> ready w i}. ChunkLen w i)"
proof -
  let ?f = "frontier w" and ?R = "{i. i < total w \<and> ready w i}"
  have fin: "finite ?R" by (rule finite_subset [of _ "{..<total w}"]) auto
  have ge: "?f \<le> i" if "i \<in> ?R" for i using slot_used(3) [OF assms(1,2)] that by blast
  have "{i. i < ?f \<or> i < total w \<and> ready w i} = {..<?f} \<union> ?R" "{..<?f} \<inter> ?R = {}"
    using ge by fastforce+
  then have split: "(\<Sum>i \<in> {i. i < ?f \<or> i < total w \<and> ready w i}. ChunkLen w i) =
      (\<Sum>i<?f. ChunkLen w i) + (\<Sum>i \<in> ?R. ChunkLen w i)"
    using fin by (simp add: sum.union_disjoint)
  show ?thesis
  proof (cases "readPos w < totalSize w")
    case False
    then have "?f = total w" "readPos w = totalSize w" using assms(1) by (auto simp: frontier_def window_ok_def)
    moreover from this have R: "?R = {}" using ge by fastforce
    moreover have "(\<Sum>i<total w. ChunkLen w i) = totalSize w"
      using sum_ChunkLen [OF assms(1), of "total w"] assms(1) by (simp add: window_ok_def)
    ultimately show ?thesis unfolding split R by simp
  next
    case True
    then have f: "?f = readPos w div chunkSize w" by (simp add: frontier_def)
    have ft: "?f < total w" using div_less_total [OF assms(1) True] f by simp
    have start: "?f * chunkSize w \<le> readPos w" unfolding f by (rule div_times_less_eq_dividend)
    have front: "(\<Sum>i<?f. ChunkLen w i) = ?f * chunkSize w"
      using sum_ChunkLen [OF assms(1), of ?f] ft start True by simp
    have later: "unread w i = int (ChunkLen w i)" if "i \<in> ?R - {?f}" for i
    proof -
      have "Suc ?f \<le> i" using ge [of i] that by auto
      then have "Suc ?f * chunkSize w \<le> i * chunkSize w" by (rule mult_le_mono1)
      moreover have "readPos w < Suc ?f * chunkSize w"
        using assms(1) f by (simp add: window_ok_def dividend_less_div_times)
      ultimately show ?thesis by (simp add: unread_def)
    qed
    show ?thesis
    proof (cases "ready w ?f")
      case rf: True
      then have R: "?f \<in> ?R" using ft by simp
      have "unread w ?f = int (ChunkLen w ?f) - (int (readPos w) - int (?f * chunkSize w))"
        using start by (auto simp: unread_def simp del: of_nat_mult)
      then show ?thesis unfolding split front
        using sum.remove [OF fin R, of "unread w"] sum.remove [OF fin R, of "ChunkLen w"] later by simp
    next
      case rf: False
      then have "readPos w mod chunkSize w = 0" using assms(3,4) True f by (auto simp: partial_ok_def)
      then have "readPos w = ?f * chunkSize w" using f by (metis add.right_neutral div_mult_mod_eq)
      moreover have "?R - {?f} = ?R" using rf by auto
      ultimately show ?thesis unfolding split front using later by (simp del: of_nat_mult)
    qed
  qed
qed

lemma below_frontier:
  assumes "window_ok w" "i < frontier w" shows "i * chunkSize w < readPos w"
proof (cases "readPos w < totalSize w")
  case True
  then have "Suc i \<le> readPos w div chunkSize w" using assms(2) by (simp add: frontier_def)
  then have "Suc i * chunkSize w \<le> readPos w div chunkSize w * chunkSize w" by (rule mult_le_mono1)
  also have "\<dots> \<le> readPos w" by (rule div_times_less_eq_dividend)
  finally show ?thesis using assms(1) by (simp add: window_ok_def)
next
  case False
  then have "i \<le> total w - 1" "readPos w = totalSize w" using assms by (auto simp: frontier_def window_ok_def)
  then have "i * chunkSize w \<le> (total w - 1) * chunkSize w" by (intro mult_le_mono1)
  also have "\<dots> < totalSize w" using assms(1) by (simp add: window_ok_def)
  finally show ?thesis using \<open>readPos w = totalSize w\<close> by simp
qed

lemma snapshot_report:
  assumes "sys_ok crc s"
  shows "covers (Received (Window_Snapshot (win s))) i \<longleftrightarrow>
      i < frontier (win s) \<or> i < total (win s) \<and> ready (win s) i"
    and "covers (Received (Window_Snapshot (win s))) i \<Longrightarrow> committed s i \<noteq> None"
    and "ReceivedBytes (Window_Snapshot (win s)) =
      int (readPos (win s)) + (\<Sum>i \<in> {i. i < total (win s) \<and> ready (win s) i}. unread (win s) i)"
proof -
  let ?w = "win s"
  let ?f = "frontier ?w" and ?rs0 = "if frontier ?w > 0 then [(0, frontier ?w - 1)] else []"
  let ?m = "min (frontier ?w + slots ?w) (total ?w)"
  note ok = sys_okD [OF assms]
  obtain rs bytes where loop: "foldl (snapshot_step ?w) (?rs0, int (readPos ?w)) [?f..<?m] = (rs, bytes)" by fastforce
  have snap: "Received (Window_Snapshot ?w) = rs" "ReceivedBytes (Window_Snapshot ?w) = bytes"
    using loop by (simp_all add: Window_Snapshot_def)
  have "?f \<le> total ?w"
    using div_less_total [OF ok(1), of "readPos ?w"] by (auto simp: frontier_def)
  then have fm: "?f \<le> ?m" by simp
  have "?f \<le> i \<and> i < ?m \<and> ready ?w i \<longleftrightarrow> i < total ?w \<and> ready ?w i" for i
    using slot_used(3,4) [OF ok(1,2), of i] by auto
  then have R: "{i. ?f \<le> i \<and> i < ?m \<and> ready ?w i} = {i. i < total ?w \<and> ready ?w i}"
    and Ri: "\<And>i. ?f \<le> i \<and> i < ?m \<and> ready ?w i \<longleftrightarrow> i < total ?w \<and> ready ?w i" by blast+
  have rs0: "\<forall>(a, b) \<in> set ?rs0. a \<le> b \<and> b < ?f" by auto
  have "covers ?rs0 i \<longleftrightarrow> i < ?f" for i by (auto simp: covers_def)
  then have cov: "covers rs i \<longleftrightarrow> i < ?f \<or> i < total ?w \<and> ready ?w i" for i
    using snapshot_loop [OF fm loop rs0] unfolding Ri by blast
  show "ReceivedBytes (Window_Snapshot (win s)) = int (readPos ?w) + (\<Sum>i \<in> {i. i < total ?w \<and> ready ?w i}. unread ?w i)"
    using snapshot_loop [OF fm loop rs0] unfolding R snap by blast
  have "committed s i \<noteq> None" if "i < ?f"
    using read_committed [OF ok(1,7)] below_frontier [OF ok(1) that] by auto
  moreover have "committed s i \<noteq> None" if "i < total ?w" "ready ?w i"
    using ok(4) that by (auto simp: data_ok_def)
  ultimately show "covers (Received (Window_Snapshot (win s))) i \<longleftrightarrow> i < frontier (win s) \<or> i < total (win s) \<and> ready (win s) i"
    "covers (Received (Window_Snapshot (win s))) i \<Longrightarrow> committed s i \<noteq> None" unfolding snap using cov by auto
qed

text \<open>A report of the full length means that every chunk was acknowledged, also after the window is closed.\<close>

lemma all_received:
  assumes "sys_ok crc s" "ReceivedBytes (Window_Snapshot (win s)) \<ge> int (totalSize (win s))" "i < total (win s)"
  shows "committed s i \<noteq> None"
proof -
  let ?w = "win s" and ?R = "{i. i < frontier (win s) \<or> i < total (win s) \<and> ready (win s) i}"
  note ok = sys_okD [OF assms(1)]
  have bytes: "int (totalSize ?w) \<le> int (readPos ?w) + (\<Sum>i \<in> {i. i < total ?w \<and> ready ?w i}. unread ?w i)"
    using assms(2) unfolding snapshot_report(3) [OF assms(1)] .
  have ft: "frontier ?w \<le> total ?w"
    using div_less_total [OF ok(1), of "readPos ?w"] by (auto simp: frontier_def)
  show ?thesis
  proof (cases "werr ?w")
    case None
    have "totalSize ?w \<le> sum (ChunkLen ?w) ?R" using bytes unfolding snapshot_bytes [OF ok(1,2,3) None] of_nat_le_iff .
    moreover have "sum (ChunkLen ?w) {..<total ?w} = totalSize ?w"
      using sum_ChunkLen [OF ok(1), of "total ?w"] ok(1) by (simp add: window_ok_def)
    moreover have "sum (ChunkLen ?w) ?R \<le> sum (ChunkLen ?w) ({..<total ?w} - {i})" if "i \<notin> ?R"
      using that ft by (intro sum_mono2) auto
    moreover have "sum (ChunkLen ?w) {..<total ?w} = ChunkLen ?w i + sum (ChunkLen ?w) ({..<total ?w} - {i})"
      using assms(3) by (intro sum.remove) auto
    moreover have "0 < ChunkLen ?w i"
    proof (cases "Suc i = total ?w")
      case True
      then have "total ?w - 1 = i" by simp
      then have "i * chunkSize ?w < totalSize ?w" using ok(1) unfolding window_ok_def by metis
      then show ?thesis using True by (simp add: ChunkLen_def)
    qed (use ok(1) in \<open>simp add: ChunkLen_def window_ok_def\<close>)
    ultimately have "i \<in> ?R" by linarith
    then show ?thesis using snapshot_report(1,2) [OF assms(1), of i] by blast
  next
    case (Some e)
    have "\<not> ready ?w j" for j
    proof
      assume "ready ?w j"
      moreover have "j mod slots ?w < slots ?w" using ok(1) by (simp add: window_ok_def)
      ultimately show False using ok(2) Some by (auto simp: ready_def slots_ok_def slot_ok_def)
    qed
    then have "totalSize ?w \<le> readPos ?w" using bytes by simp
    then have "i < frontier ?w" using assms(3) by (simp add: frontier_def)
    then show ?thesis using snapshot_report(1,2) [OF assms(1), of i] by blast
  qed
qed

text \<open>Snapshot: the reported ranges are exactly the chunks that are consumed or buffered, each of
  them was acknowledged, and while the window is open the reported byte count is their length.\<close>

theorem Snapshot_received:
  assumes "NewWindow mkdir openFile cs ts n = NewOk w" "ts + cs - 1 < 2 ^ 63"
    and "window_reach crc (window_start w) s"
  shows "(covers (Received (Window_Snapshot (win s))) i \<longleftrightarrow>
      i < frontier (win s) \<or> i < total (win s) \<and> ready (win s) i) \<and>
    (covers (Received (Window_Snapshot (win s))) i \<longrightarrow> committed s i \<noteq> None) \<and>
    (werr (win s) = None \<longrightarrow> ReceivedBytes (Window_Snapshot (win s)) =
      int (\<Sum>i \<in> {i. i < frontier (win s) \<or> i < total (win s) \<and> ready (win s) i}. ChunkLen (win s) i))"
proof -
  have inv: "sys_ok crc s" by (rule window_reach_inv(1) [OF assms(3,1,2)])
  note ok = sys_okD [OF inv]
  show ?thesis
    using snapshot_report [OF inv] snapshot_bytes [OF ok(1,2,3)] by (intro conjI impI) simp_all
qed

theorem Snapshot_received_witness:
  "\<exists>s. window_reach length (window_start example_window) s \<and> covers (Received (Window_Snapshot (win s))) 0 \<and>
    committed s 0 \<noteq> None"
proof -
  obtain s where s: "window_reach length (window_start example_window) s" "example_state s"
    using example_run by blast
  then have "frontier (win s) = 1" by (simp add: example_state_def)
  then show ?thesis using Snapshot_received [OF example_window _ s(1), of 0] s(1) by auto
qed

end
