(* ===== verification/Session.thy ===== *)
theory Session
  imports Window Go_Path
begin

text \<open>
  Multipart upload sessions (\<open>internal/multipart/session.go\<close>): the manager keeps the live sessions by
  identifier and by key, each session runs at most one pipeline attempt, which reads the session's
  window while requests fill it.

  Sessions and windows are objects that requests, the pipeline and the garbage collector share, so
  the manager has a store for each, a window with the requests that are copying into it; an attempt is identified by the address of its window. Every
  critical section is one function; a request that locks several times is several functions, and the
  step relation interleaves them. The pipeline goroutine is its result \<open>finishAttempt\<close>: what
  \<open>putFile\<close> returns is a parameter, as are the clock, the identifiers of \<open>uuid\<close> and the errors of the file
  system. The storage progress, a float in the code, is kept as an integer. \<open>None\<close> is a panic.
\<close>

section \<open>Data\<close>

datatype State = StateReceiving | StateCompleted | StateFailedRetriable | StateFailedPermanent | StateAborted

definition WindowSlots :: int where
  "WindowSlots = 8"

text \<open>An error of \<open>putFile\<close> is the list of the errors that it wraps, as far as \<open>errors.Is\<close> asks for them.\<close>

datatype put_error =
    Canceled
  | UploadNotSupported
  | PermissionDenied
  | StorageNotFound
  | ObjectAlreadyExists
  | RelativePath
  | IgnoredSystemFile
  | OtherError string

datatype session_error =
    ErrSessionNotFound
  | ErrNotOwner
  | NotPositiveSize int
  | InvalidChunkSize int
  | NewWindowInvalid
  | NewWindowIO string
  | ResendFromZero "session_error option"
  | SessionIs State "session_error option"
  | UploadFailed State "session_error option"
  | ContentChanged nat
  | CannotComplete int int
  | ContextDone
  | SessionExpired
  | Superseded
  | AbortedByClient
  | PutError "put_error list"
  | ChunkError window_error

record Session =
  ID :: string
  Path :: string
  DstDir :: string
  SName :: string
  SSize :: int
  SChunkSize :: int
  Total :: int
  Mimetype :: string
  SModified :: int
  Hashes :: "(string \<times> string) list"
  Creator :: nat
  state :: State
  serr :: "session_error option"
  attempt :: nat
  swin :: "nat option"
  sdone :: "nat option"
  scancel :: "nat option"
  prevCRCs :: "nat list"
  prevSet :: "bool list"
  storagePct :: int
  lastActive :: int

record SessionSnapshot =
  SnapID :: string
  SnapState :: State
  SnapAttempt :: nat
  SnapPath :: string
  SnapSize :: int
  SnapChunkSize :: int
  SnapTotal :: int
  SnapReceived :: "(int \<times> int) list"
  SnapReceivedBytes :: int
  SnapFrontier :: int
  SnapProgress :: int
  SnapError :: "session_error option"

record InitReq =
  ReqUser :: nat
  ReqPath :: string
  ReqSize :: int
  ReqChunkSize :: int
  ReqMimetype :: string
  ReqModified :: int
  ReqHashes :: "(string \<times> string) list"

text \<open>\<open>running\<close> maps the window of each unfinished attempt to its session; \<open>cancelled\<close> and \<open>closed\<close> are the attempts
  whose context is cancelled and whose \<open>done\<close> channel is closed.\<close>

record Manager =
  byID :: "string \<Rightarrow> nat option"
  byKey :: "string \<Rightarrow> string option"
  ttl :: int
  sess :: "nat \<Rightarrow> Session"
  freshSess :: nat
  wins :: "nat \<Rightarrow> sys"
  freshWin :: nat
  running :: "nat \<Rightarrow> nat option"
  cancelled :: "nat list"
  closed :: "nat list"

definition defaultSessionTTL :: int where
  "defaultSessionTTL = 30 * 60 * 1000000000"

definition sessionTTL :: "Manager \<Rightarrow> int" where
  "sessionTTL m = (if ttl m > 0 then ttl m else defaultSessionTTL)"

definition sessionKey :: "nat \<Rightarrow> string \<Rightarrow> int \<Rightarrow> string" where
  "sessionKey userID path sz = format_nat userID @ ''|'' @ path @ ''|'' @ format_int sz"

definition upd_sess :: "nat \<Rightarrow> (Session \<Rightarrow> Session) \<Rightarrow> Manager \<Rightarrow> Manager" where
  "upd_sess a f m = m\<lparr>sess := (sess m)(a := f (sess m a))\<rparr>"

definition upd_win :: "nat \<Rightarrow> (Window \<Rightarrow> Window) \<Rightarrow> Manager \<Rightarrow> Manager" where
  "upd_win w f m = m\<lparr>wins := (wins m)(w := (wins m w)\<lparr>win := f (win (wins m w))\<rparr>)\<rparr>"

definition touch :: "int \<Rightarrow> nat \<Rightarrow> Manager \<Rightarrow> Manager" where
  "touch now a = upd_sess a (\<lambda>s. s\<lparr>lastActive := now\<rparr>)"

section \<open>Reporting\<close>

definition snapshotLocked :: "Manager \<Rightarrow> nat \<Rightarrow> SessionSnapshot" where
  "snapshotLocked m a =
     (let s = sess m a;
          snap = \<lparr>SnapID = ID s, SnapState = state s, SnapAttempt = attempt s, SnapPath = Path s, SnapSize = SSize s,
            SnapChunkSize = SChunkSize s, SnapTotal = Total s, SnapReceived = [], SnapReceivedBytes = 0,
            SnapFrontier = 0, SnapProgress = storagePct s, SnapError = serr s\<rparr>
      in if state s = StateCompleted then
           snap\<lparr>SnapReceived := [(0, Total s - 1)], SnapReceivedBytes := SSize s, SnapFrontier := Total s, SnapProgress := 100\<rparr>
         else (case swin s of
             None \<Rightarrow> snap
           | Some w \<Rightarrow>
               (let ws = Window_Snapshot (win (wins m w))
                in snap\<lparr>SnapReceived := map (\<lambda>(i, j). (int i, int j)) (Received ws),
                     SnapReceivedBytes := ReceivedBytes ws, SnapFrontier := int (Frontier ws)\<rparr>)))"

text \<open>The loop over the hashes of the old session; \<open>found\<close> is the variable \<open>shared\<close>.\<close>

fun hashes_loop :: "(string \<times> string) list \<Rightarrow> (string \<times> string) list \<Rightarrow> bool \<Rightarrow> bool" where
  "hashes_loop [] new found = found"
| "hashes_loop ((t, ov) # old) new found =
     (case map_of new t of
        None \<Rightarrow> hashes_loop old new found
      | Some nv \<Rightarrow> if ov \<noteq> nv then False else hashes_loop old new True)"

definition hashesQualifyResume :: "(string \<times> string) list \<Rightarrow> (string \<times> string) list \<Rightarrow> bool" where
  "hashesQualifyResume old new = hashes_loop old new False"

section \<open>Ending sessions\<close>

definition errAborted :: window_error where
  "errAborted = StickyError ''multipart upload aborted: context canceled''"

definition killAttemptLocked :: "nat \<Rightarrow> Manager \<Rightarrow> Manager" where
  "killAttemptLocked a m =
     (let s = sess m a;
          m = (case scancel s of None \<Rightarrow> m | Some c \<Rightarrow> m\<lparr>cancelled := c # cancelled m\<rparr>)
      in case swin s of None \<Rightarrow> m | Some w \<Rightarrow> upd_win w (CloseWithError errAborted) m)"

text \<open>The first critical section of \<open>terminate\<close>; the second one is \<open>remove_session\<close>.\<close>

definition terminate_session :: "nat \<Rightarrow> session_error \<Rightarrow> Manager \<Rightarrow> Manager" where
  "terminate_session a cause m =
     (let m = (if state (sess m a) = StateReceiving
               then upd_sess a (\<lambda>s. s\<lparr>state := StateAborted, serr := Some cause\<rparr>) m else m)
      in killAttemptLocked a m)"

definition remove_session :: "nat \<Rightarrow> Manager \<Rightarrow> Manager" where
  "remove_session a m =
     (let s = sess m a;
          m = m\<lparr>byID := (byID m)(ID s := None)\<rparr>;
          key = sessionKey (Creator s) (Path s) (SSize s)
      in if byKey m key = Some (ID s) then m\<lparr>byKey := (byKey m)(key := None)\<rparr> else m)"

definition terminate :: "nat \<Rightarrow> session_error \<Rightarrow> Manager \<Rightarrow> Manager" where
  "terminate a cause m = remove_session a (terminate_session a cause m)"

text \<open>The sessions that one round of the garbage collector ends; \<open>ids\<close> is the order of the map iteration.\<close>

definition gc_expired :: "int \<Rightarrow> string list \<Rightarrow> Manager \<Rightarrow> nat list" where
  "gc_expired now ids m =
     (let deadline = now - sessionTTL m
      in filter (\<lambda>a. lastActive (sess m a) < deadline) (List.map_filter (byID m) ids))"

definition gc :: "int \<Rightarrow> string list \<Rightarrow> Manager \<Rightarrow> Manager" where
  "gc now ids m = foldl (\<lambda>m a. terminate a SessionExpired m) m (gc_expired now ids m)"

definition get :: "Manager \<Rightarrow> nat \<Rightarrow> string \<Rightarrow> session_error + nat" where
  "get m user sid =
     (case byID m sid of
        None \<Rightarrow> Inl ErrSessionNotFound
      | Some a \<Rightarrow> if Creator (sess m a) \<noteq> user then Inl ErrNotOwner else Inr a)"

section \<open>Attempts\<close>

text \<open>\<open>startAttemptLocked\<close>: a new window and a new pipeline. \<open>None\<close> is the panic of \<open>NewWindow\<close>.\<close>

definition startAttemptLocked :: "string option \<Rightarrow> string option \<Rightarrow> nat \<Rightarrow> Manager \<Rightarrow> (session_error option \<times> Manager) option" where
  "startAttemptLocked mkdir openFile a m =
     (case NewWindow mkdir openFile (SChunkSize (sess m a)) (SSize (sess m a)) WindowSlots of
        NewPanic \<Rightarrow> None
      | NewInvalid \<Rightarrow> Some (Some NewWindowInvalid, m)
      | NewIOError e \<Rightarrow> Some (Some (NewWindowIO e), m)
      | NewOk w \<Rightarrow>
          (let v = freshWin m;
               m = m\<lparr>wins := (wins m)(v := window_start w), freshWin := v + 1, running := (running m)(v \<mapsto> a)\<rparr>
           in Some (None, upd_sess a (\<lambda>s. s\<lparr>swin := Some v, scancel := Some v, sdone := Some v,
                state := StateReceiving, serr := None, storagePct := 0\<rparr>) m)))"

definition isPermanentPutError :: "put_error list \<Rightarrow> bool" where
  "isPermanentPutError err =
     (if Canceled \<in> set err then False
      else list_ex (\<lambda>target. target \<in> set err)
        [UploadNotSupported, PermissionDenied, StorageNotFound, ObjectAlreadyExists, RelativePath, IgnoredSystemFile])"

text \<open>\<open>finishAttempt\<close> for the attempt with window \<open>w\<close> of the session \<open>a\<close>; the pipeline goroutine then closes \<open>done\<close>.
  Reading the checksums, closing the window and the section under the session lock are one step here: what other
  requests do to the window in between comes before or after it, and they may also close the window at any time.\<close>

definition finishAttempt :: "int \<Rightarrow> nat \<Rightarrow> nat \<Rightarrow> put_error list option \<Rightarrow> Manager \<Rightarrow> Manager" where
  "finishAttempt now a w err m =
     (let (newCRCs, newSet) = CRCs (win (wins m w));
          m = upd_win w Close m;
          m = m\<lparr>running := (running m)(w := None)\<rparr>;
          m = touch now a m;
          m = upd_sess a (\<lambda>s. if swin s = Some w then s\<lparr>swin := None\<rparr> else s) m;
          m = upd_sess a (\<lambda>s. s\<lparr>prevCRCs := newCRCs, prevSet := newSet\<rparr>) m
      in case err of
           None \<Rightarrow> upd_sess a (\<lambda>s. s\<lparr>state := StateCompleted, serr := None, storagePct := 100\<rparr>) m
         | Some e \<Rightarrow>
             if state (sess m a) \<noteq> StateReceiving then
               (if serr (sess m a) = None then upd_sess a (\<lambda>s. s\<lparr>serr := Some (PutError e)\<rparr>) m else m)
             else if isPermanentPutError e then
               upd_sess a (\<lambda>s. s\<lparr>state := StateFailedPermanent, serr := Some (PutError e)\<rparr>) m
             else upd_sess a (\<lambda>s. s\<lparr>state := StateFailedRetriable, serr := Some (PutError e), attempt := attempt s + 1\<rparr>) m)"

definition close_done :: "nat \<Rightarrow> Manager \<Rightarrow> Manager" where
  "close_done w m = m\<lparr>closed := w # closed m\<rparr>"

section \<open>Requests\<close>

text \<open>\<open>Init\<close>: the lookup under the manager's lock. \<open>InitResume a\<close> answers with the live session, \<open>InitReplace a\<close>
  ends it first.\<close>

datatype init_lookup = InitErr session_error | InitResume nat | InitReplace nat | InitFresh

definition Init_lookup :: "InitReq \<Rightarrow> Manager \<Rightarrow> init_lookup" where
  "Init_lookup req m =
     (if ReqSize req \<le> 0 then InitErr (NotPositiveSize (ReqSize req))
      else if ReqChunkSize req \<le> 0 then InitErr (InvalidChunkSize (ReqChunkSize req))
      else (case byKey m (sessionKey (ReqUser req) (ReqPath req) (ReqSize req)) of
          None \<Rightarrow> InitFresh
        | Some sid \<Rightarrow>
            (case byID m sid of
               None \<Rightarrow> InitFresh
             | Some a \<Rightarrow>
                 if state (sess m a) = StateFailedRetriable \<or>
                    state (sess m a) = StateReceiving \<and> hashesQualifyResume (Hashes (sess m a)) (ReqHashes req)
                 then InitResume a else InitReplace a)))"

text \<open>\<open>Init\<close>: the new session, with its first attempt started; it is in no map yet.\<close>

definition new_session :: "string \<Rightarrow> int \<Rightarrow> InitReq \<Rightarrow> Session" where
  "new_session uuid now req =
     (case path_split (ReqPath req) of (dir, nam) \<Rightarrow>
        \<lparr>ID = uuid, Path = ReqPath req, DstDir = dir, SName = nam, SSize = ReqSize req, SChunkSize = ReqChunkSize req,
         Total = 0, Mimetype = ReqMimetype req, SModified = ReqModified req, Hashes = ReqHashes req, Creator = ReqUser req,
         state = StateReceiving, serr = None, attempt = 0, swin = None, sdone = None, scancel = None,
         prevCRCs = [], prevSet = [], storagePct = 0, lastActive = now\<rparr>)"

definition Init_create :: "string option \<Rightarrow> string option \<Rightarrow> string \<Rightarrow> int \<Rightarrow> InitReq \<Rightarrow> Manager \<Rightarrow>
    ((session_error + nat \<times> SessionSnapshot) \<times> Manager) option" where
  "Init_create mkdir openFile uuid now req m =
     (let a = freshSess m;
          m' = m\<lparr>sess := (sess m)(a := new_session uuid now req), freshSess := a + 1\<rparr>
      in case startAttemptLocked mkdir openFile a m' of
           None \<Rightarrow> None
         | Some (Some e, _) \<Rightarrow> Some (Inl e, m)
         | Some (None, m) \<Rightarrow>
             (case swin (sess m a) of
                None \<Rightarrow> None
              | Some w \<Rightarrow>
                  (let m = upd_sess a (\<lambda>s. s\<lparr>Total := int (TotalChunks (win (wins m w)))\<rparr>) m
                   in Some (Inr (a, snapshotLocked m a), m))))"

definition Init_publish :: "nat \<Rightarrow> Manager \<Rightarrow> Manager" where
  "Init_publish a m =
     (let s = sess m a in
        m\<lparr>byID := (byID m)(ID s \<mapsto> a), byKey := (byKey m)(sessionKey (Creator s) (Path s) (SSize s) \<mapsto> ID s)\<rparr>)"

text \<open>\<open>Init\<close> as one request without interference.\<close>

definition Init :: "string option \<Rightarrow> string option \<Rightarrow> string \<Rightarrow> int \<Rightarrow> InitReq \<Rightarrow> Manager \<Rightarrow>
    ((session_error + SessionSnapshot \<times> bool) \<times> Manager) option" where
  "Init mkdir openFile uuid now req m =
     (case Init_lookup req m of
        InitErr e \<Rightarrow> Some (Inl e, m)
      | InitResume a \<Rightarrow> (let m = touch now a m in Some (Inr (snapshotLocked m a, True), m))
      | look \<Rightarrow>
          (let m = (case look of InitReplace a \<Rightarrow> terminate a Superseded m | _ \<Rightarrow> m) in
             case Init_create mkdir openFile uuid now req m of
               None \<Rightarrow> None
             | Some (Inl e, m) \<Rightarrow> Some (Inl e, m)
             | Some (Inr (a, snap), m) \<Rightarrow> Some (Inr (snap, False), Init_publish a m)))"

text \<open>\<open>Chunk\<close> up to the call of \<open>WriteChunk\<close>, its locked section apart: \<open>ChunkWrite a w prev\<close> goes on with window \<open>w\<close>, \<open>prev\<close> is the checksum of the
  chunk in the previous attempt. Indexing with a negative number panics; a missing window would be
  a nil pointer.\<close>

datatype chunk_begin =
    ChunkRefused session_error
  | ChunkAnswer SessionSnapshot "session_error option"
  | ChunkWrite nat nat "nat option"

definition prev_crc :: "Session \<Rightarrow> int \<Rightarrow> nat option option" where
  "prev_crc s idx =
     (if idx < int (length (prevSet s)) then
        (if idx < 0 then None
         else if prevSet s ! nat idx then
           (if nat idx < length (prevCRCs s) then Some (Some (prevCRCs s ! nat idx)) else None)
         else Some None)
      else Some None)"

definition Chunk_proceed :: "nat \<Rightarrow> int \<Rightarrow> Manager \<Rightarrow> (chunk_begin \<times> Manager) option" where
  "Chunk_proceed a idx m =
     (case prev_crc (sess m a) idx of
        None \<Rightarrow> None
      | Some prev \<Rightarrow> (case swin (sess m a) of None \<Rightarrow> None | Some w \<Rightarrow> Some (ChunkWrite a w prev, m)))"

definition Chunk_locked :: "string option \<Rightarrow> string option \<Rightarrow> nat \<Rightarrow> int \<Rightarrow> Manager \<Rightarrow> (chunk_begin \<times> Manager) option" where
  "Chunk_locked mkdir openFile a idx m =
     (case state (sess m a) of
        StateReceiving \<Rightarrow> Chunk_proceed a idx m
      | StateFailedRetriable \<Rightarrow>
          if idx \<noteq> 0 then Some (ChunkAnswer (snapshotLocked m a) (Some (ResendFromZero (serr (sess m a)))), m)
          else (case startAttemptLocked mkdir openFile a m of
              None \<Rightarrow> None
            | Some (Some e, m) \<Rightarrow> Some (ChunkAnswer (snapshotLocked m a) (Some e), m)
            | Some (None, m) \<Rightarrow> Chunk_proceed a idx m)
      | StateCompleted \<Rightarrow> Some (ChunkAnswer (snapshotLocked m a) None, m)
      | st \<Rightarrow> Some (ChunkAnswer (snapshotLocked m a) (Some (SessionIs st (serr (sess m a)))), m))"

definition Chunk_begin :: "string option \<Rightarrow> string option \<Rightarrow> int \<Rightarrow> nat \<Rightarrow> string \<Rightarrow> int \<Rightarrow> Manager \<Rightarrow> (chunk_begin \<times> Manager) option" where
  "Chunk_begin mkdir openFile now user sid idx m =
     (case get m user sid of
        Inl e \<Rightarrow> Some (ChunkRefused e, m)
      | Inr a \<Rightarrow> Chunk_locked mkdir openFile a idx (touch now a m))"

text \<open>\<open>Chunk\<close> after \<open>WriteChunk\<close> has returned, and after the wait for the verdict if the window was closed.\<close>

definition Chunk_end :: "nat \<Rightarrow> int \<Rightarrow> nat option \<Rightarrow> window_error + nat \<Rightarrow> Manager \<Rightarrow> (SessionSnapshot \<times> session_error option) \<times> Manager" where
  "Chunk_end a idx prev result m =
     (case result of
        Inl e \<Rightarrow>
          (let snap = snapshotLocked m a
           in ((snap, if state (sess m a) = StateCompleted then None else Some (ChunkError e)), m))
      | Inr crc \<Rightarrow>
          if prev \<noteq> None \<and> prev \<noteq> Some crc then
            (let err = ContentChanged (nat idx);
                 m = upd_sess a (\<lambda>s. s\<lparr>state := StateFailedPermanent, serr := Some err\<rparr>) m;
                 m = killAttemptLocked a m
             in ((snapshotLocked m a, Some err), m))
          else ((snapshotLocked m a, None), m))"

text \<open>\<open>Complete\<close>: one round of its loop, and the section after it. \<open>CompleteWait\<close> waits for the attempt or the
  end of the request.\<close>

datatype complete_round = CompleteAnswer SessionSnapshot session_error | CompleteWait | CompleteDone

definition Complete_round :: "nat \<Rightarrow> Manager \<Rightarrow> complete_round" where
  "Complete_round a m =
     (let s = sess m a in
        case (if state s = StateReceiving then swin s else None) of
          Some w \<Rightarrow>
            (let ws = Window_Snapshot (win (wins m w)) in
               if ReceivedBytes ws < SSize s
               then CompleteAnswer (snapshotLocked m a) (CannotComplete (ReceivedBytes ws) (SSize s))
               else CompleteWait)
        | None \<Rightarrow> if state s \<noteq> StateReceiving then CompleteDone else CompleteWait)"

definition Complete_end :: "int \<Rightarrow> nat \<Rightarrow> Manager \<Rightarrow> (SessionSnapshot \<times> session_error option) \<times> Manager" where
  "Complete_end now a m =
     (let m = touch now a m; s = sess m a; snap = snapshotLocked m a
      in if state s = StateCompleted then ((snap, None), remove_session a m)
         else ((snap, Some (UploadFailed (state s) (serr s))), m))"

definition Status :: "int \<Rightarrow> nat \<Rightarrow> string \<Rightarrow> Manager \<Rightarrow> (session_error + SessionSnapshot) \<times> Manager" where
  "Status now user sid m =
     (case get m user sid of
        Inl e \<Rightarrow> (Inl e, m)
      | Inr a \<Rightarrow> (let m = touch now a m in (Inr (snapshotLocked m a), m)))"

definition Find :: "int \<Rightarrow> nat \<Rightarrow> string \<Rightarrow> int \<Rightarrow> Manager \<Rightarrow> (session_error + SessionSnapshot) \<times> Manager" where
  "Find now user path sz m =
     (case byKey m (sessionKey user path sz) of
        None \<Rightarrow> (Inl ErrSessionNotFound, m)
      | Some sid \<Rightarrow> Status now user sid m)"

definition Abort :: "nat \<Rightarrow> string \<Rightarrow> Manager \<Rightarrow> session_error option \<times> Manager" where
  "Abort user sid m =
     (case get m user sid of
        Inl e \<Rightarrow> (Some e, m)
      | Inr a \<Rightarrow> (None, terminate a AbortedByClient m))"

end
