(* ===== verification/Session_Invariant.thy ===== *)
theory Session_Invariant
  imports Session
begin

text \<open>
  The interleavings of upload sessions and their invariant. A step is one critical section of a
  request, of the garbage collector or of a pipeline, or a step inside a window. A request keeps the
  session that it looked up, also after the session was removed from the maps, so its sections
  apply to every session that was ever created; the result of a section that panics is no step.
\<close>

section \<open>Interleavings\<close>

inductive session_step :: "(string \<Rightarrow> nat) \<Rightarrow> Manager \<Rightarrow> Manager \<Rightarrow> bool" for crc where
  create: "\<lbrakk>\<forall>b < freshSess m. ID (sess m b) \<noteq> uuid;
      Init_create mkdir openFile uuid now req m = Some (Inr (a, snap), m')\<rbrakk> \<Longrightarrow> session_step crc m m'"
| publish: "a < freshSess m \<Longrightarrow> session_step crc m (Init_publish a m)"
| touched: "a < freshSess m \<Longrightarrow> session_step crc m (touch now a m)"
| ended: "a < freshSess m \<Longrightarrow> session_step crc m (terminate_session a cause m)"
| removed: "a < freshSess m \<Longrightarrow> session_step crc m (remove_session a m)"
| chunk: "\<lbrakk>a < freshSess m; Chunk_locked mkdir openFile a idx m = Some (r, m')\<rbrakk> \<Longrightarrow> session_step crc m m'"
| chunk_end: "\<lbrakk>a < freshSess m; Chunk_end a idx prev result m = (r, m')\<rbrakk> \<Longrightarrow> session_step crc m m'"
| progress: "a < freshSess m \<Longrightarrow> session_step crc m (upd_sess a (\<lambda>s. s\<lparr>storagePct := pct\<rparr>) m)"
| finish: "running m w = Some a \<Longrightarrow> session_step crc m (finishAttempt now a w err m)"
| close: "\<lbrakk>w < freshWin m; running m w = None; w \<notin> set (closed m)\<rbrakk> \<Longrightarrow> session_step crc m (close_done w m)"
| window: "\<lbrakk>w < freshWin m; window_step crc (wins m w) s\<rbrakk> \<Longrightarrow>
    session_step crc m (m\<lparr>wins := (wins m)(w := s)\<rparr>)"

inductive session_reach :: "(string \<Rightarrow> nat) \<Rightarrow> Manager \<Rightarrow> Manager \<Rightarrow> bool" for crc where
  start: "session_reach crc m m"
| more: "session_reach crc m m' \<Longrightarrow> session_step crc m' m'' \<Longrightarrow> session_reach crc m m''"

text \<open>\<open>DefaultManager\<close>.\<close>

definition DefaultManager :: Manager where
  "DefaultManager = \<lparr>byID = Map.empty, byKey = Map.empty, ttl = 0, sess = (\<lambda>_. new_session [] 0
      \<lparr>ReqUser = 0, ReqPath = [], ReqSize = 0, ReqChunkSize = 0, ReqMimetype = [], ReqModified = 0, ReqHashes = []\<rparr>),
     freshSess = 0, wins = undefined, freshWin = 0, running = Map.empty, cancelled = [], closed = []\<rparr>"

section \<open>The invariant\<close>

text \<open>A session and its newest attempt: the window is the one the pipeline reads while the attempt
  runs, a receiving session has one, and one that can be restarted or is completed has none.\<close>

definition newest_window :: "(string \<Rightarrow> nat) \<Rightarrow> nat \<Rightarrow> (nat \<Rightarrow> sys) \<Rightarrow> Session \<Rightarrow> nat \<Rightarrow> bool" where
  "newest_window crc fw ws s d \<longleftrightarrow>
     sdone s = Some d \<and> scancel s = Some d \<and> d < fw \<and> (swin s = None \<or> swin s = Some d) \<and>
     (\<exists>w. NewWindow None None (SChunkSize s) (SSize s) WindowSlots = NewOk w \<and>
        window_reach crc (window_start w) (ws d))"

definition attempt_ok :: "(string \<Rightarrow> nat) \<Rightarrow> nat \<Rightarrow> (nat \<Rightarrow> sys) \<Rightarrow> (nat \<rightharpoonup> nat) \<Rightarrow> nat \<Rightarrow> Session \<Rightarrow> bool" where
  "attempt_ok crc fw ws run a s \<longleftrightarrow>
     (\<exists>d. newest_window crc fw ws s d) \<and>
     (\<forall>v. run v = Some a \<longleftrightarrow> swin s = Some v) \<and>
     (state s = StateReceiving \<longrightarrow> swin s \<noteq> None) \<and>
     (state s = StateFailedRetriable \<or> state s = StateCompleted \<longrightarrow> swin s = None) \<and>
     length (prevSet s) = length (prevCRCs s)"

definition session_key :: "Session \<Rightarrow> string" where
  "session_key s = sessionKey (Creator s) (Path s) (SSize s)"

definition maps_ok :: "Manager \<Rightarrow> bool" where
  "maps_ok m \<longleftrightarrow>
     (\<forall>a b. a < freshSess m \<longrightarrow> b < freshSess m \<longrightarrow> ID (sess m a) = ID (sess m b) \<longrightarrow> a = b) \<and>
     (\<forall>sid a. byID m sid = Some a \<longrightarrow> a < freshSess m \<and> ID (sess m a) = sid) \<and>
     (\<forall>k sid. byKey m k = Some sid \<longrightarrow> (\<exists>a. byID m sid = Some a \<and> session_key (sess m a) = k))"

definition attempts_ok :: "(string \<Rightarrow> nat) \<Rightarrow> Manager \<Rightarrow> bool" where
  "attempts_ok crc m \<longleftrightarrow>
     (\<forall>a < freshSess m. attempt_ok crc (freshWin m) (wins m) (running m) a (sess m a)) \<and>
     (\<forall>w a. running m w = Some a \<longrightarrow> a < freshSess m \<and> w < freshWin m) \<and>
     (\<forall>w \<in> set (closed m). w < freshWin m \<and> running m w = None)"

definition manager_ok :: "(string \<Rightarrow> nat) \<Rightarrow> Manager \<Rightarrow> bool" where
  "manager_ok crc m \<longleftrightarrow> maps_ok m \<and> attempts_ok crc m"

lemma upd_sess_simps [simp]:
  "byID (upd_sess a f m) = byID m" "byKey (upd_sess a f m) = byKey m" "ttl (upd_sess a f m) = ttl m"
  "freshSess (upd_sess a f m) = freshSess m" "wins (upd_sess a f m) = wins m" "freshWin (upd_sess a f m) = freshWin m"
  "running (upd_sess a f m) = running m" "cancelled (upd_sess a f m) = cancelled m" "closed (upd_sess a f m) = closed m"
  "sess (upd_sess a f m) b = (if b = a then f (sess m a) else sess m b)"
  by (auto simp: upd_sess_def)

lemma upd_win_simps [simp]:
  "byID (upd_win w f m) = byID m" "byKey (upd_win w f m) = byKey m" "ttl (upd_win w f m) = ttl m"
  "freshSess (upd_win w f m) = freshSess m" "sess (upd_win w f m) = sess m" "freshWin (upd_win w f m) = freshWin m"
  "running (upd_win w f m) = running m" "cancelled (upd_win w f m) = cancelled m" "closed (upd_win w f m) = closed m"
  "wins (upd_win w f m) v = (if v = w then (wins m w)\<lparr>win := f (win (wins m w))\<rparr> else wins m v)"
  by (auto simp: upd_win_def)

section \<open>Windows move along their own steps\<close>

definition windows_move :: "(string \<Rightarrow> nat) \<Rightarrow> nat \<Rightarrow> (nat \<Rightarrow> sys) \<Rightarrow> (nat \<Rightarrow> sys) \<Rightarrow> bool" where
  "windows_move crc fw ws ws' \<longleftrightarrow> (\<forall>v < fw. window_reach crc (ws v) (ws' v))"

lemma window_reach_trans: "window_reach crc s s' \<Longrightarrow> window_reach crc r s \<Longrightarrow> window_reach crc r s'"
  by (induction rule: window_reach.induct) (auto intro: window_reach.intros)

lemma window_reach_close: "window_reach crc s (s\<lparr>win := CloseWithError e (win s)\<rparr>)"
  by (rule window_reach.more [OF window_reach.start window_step.close])

lemma windows_move_refl [simp]: "windows_move crc fw ws ws"
  by (simp add: windows_move_def window_reach.start)

lemma windows_move_close [simp]:
  "windows_move crc fw (wins m) (wins (upd_win w (CloseWithError e) m))"
  "windows_move crc fw (wins m) (wins (upd_win w Close m))"
  by (auto simp: windows_move_def Close_def window_reach_close intro: window_reach.start)

lemma newest_window_mono:
  assumes "newest_window crc fw ws s d" "fw \<le> fw'" "windows_move crc fw ws ws'"
  shows "newest_window crc fw' ws' s d"
  using assms window_reach_trans [of crc "ws d" "ws' d"] by (auto simp: newest_window_def windows_move_def)

lemma attempt_ok_mono:
  assumes "attempt_ok crc fw ws run a s" "fw \<le> fw'" "windows_move crc fw ws ws'"
    and "\<And>v. run' v = Some a \<longleftrightarrow> run v = Some a"
  shows "attempt_ok crc fw' ws' run' a s"
proof -
  obtain d where "newest_window crc fw ws s d" using assms(1) unfolding attempt_ok_def by blast
  then have "newest_window crc fw' ws' s d" by (rule newest_window_mono [OF _ assms(2,3)])
  then show ?thesis using assms(1,4) unfolding attempt_ok_def by blast
qed

text \<open>What a step may do to a session without touching its attempt.\<close>

definition same_attempt :: "Session \<Rightarrow> Session \<Rightarrow> bool" where
  "same_attempt s s' \<longleftrightarrow> ID s' = ID s \<and> session_key s' = session_key s \<and> SChunkSize s' = SChunkSize s \<and> SSize s' = SSize s \<and>
     swin s' = swin s \<and> sdone s' = sdone s \<and> scancel s' = scancel s \<and> prevSet s' = prevSet s \<and> prevCRCs s' = prevCRCs s \<and>
     (state s' = state s \<or> state s' = StateAborted \<or> state s' = StateFailedPermanent)"

lemma same_attempt_refl [simp]: "same_attempt s s"
  by (simp add: same_attempt_def)

lemma attempt_ok_same: "attempt_ok crc fw ws run a s \<Longrightarrow> same_attempt s s' \<Longrightarrow> attempt_ok crc fw ws run a s'"
  unfolding attempt_ok_def same_attempt_def newest_window_def by (elim conjE disjE) simp_all

text \<open>The steps that leave the attempts as they are: the window state moves on, sessions are relabelled,
  the maps change within their own invariant.\<close>

lemma attempts_ok_same:
  assumes "attempts_ok crc m" "freshSess m' = freshSess m" "freshWin m' = freshWin m" "running m' = running m"
    and "closed m' = closed m" "windows_move crc (freshWin m) (wins m) (wins m')"
    and "\<And>a. a < freshSess m \<Longrightarrow> same_attempt (sess m a) (sess m' a)"
  shows "attempts_ok crc m'"
  unfolding attempts_ok_def
proof (intro conjI allI impI)
  fix a assume a: "a < freshSess m'"
  then have "attempt_ok crc (freshWin m) (wins m) (running m) a (sess m a)"
    using assms(1,2) by (simp add: attempts_ok_def)
  then have "attempt_ok crc (freshWin m') (wins m') (running m') a (sess m a)"
    by (rule attempt_ok_mono) (simp_all add: assms)
  then show "attempt_ok crc (freshWin m') (wins m') (running m') a (sess m' a)"
    using assms(2,7) a by (auto intro: attempt_ok_same)
qed (use assms in \<open>auto simp: attempts_ok_def\<close>)

lemma maps_ok_same:
  assumes "maps_ok m" "freshSess m' = freshSess m" "byID m' = byID m" "byKey m' = byKey m"
    and "\<And>a. a < freshSess m \<Longrightarrow> ID (sess m' a) = ID (sess m a) \<and> session_key (sess m' a) = session_key (sess m a)"
  shows "maps_ok m'"
proof -
  have "\<exists>a. byID m sid = Some a \<and> session_key (sess m' a) = k" if k: "byKey m k = Some sid" for k sid
  proof -
    obtain a where a: "byID m sid = Some a" "session_key (sess m a) = k" using assms(1) k unfolding maps_ok_def by blast
    then have "a < freshSess m" using assms(1) by (simp add: maps_ok_def)
    then show ?thesis using a assms(5) by auto
  qed
  then show ?thesis using assms(1) unfolding maps_ok_def by (simp add: assms(2-5))
qed

lemma manager_ok_same:
  assumes "manager_ok crc m" "freshSess m' = freshSess m" "freshWin m' = freshWin m" "running m' = running m"
    and "closed m' = closed m" "windows_move crc (freshWin m) (wins m) (wins m')" "byID m' = byID m" "byKey m' = byKey m"
    and "\<And>a. a < freshSess m \<Longrightarrow> same_attempt (sess m a) (sess m' a)"
  shows "manager_ok crc m'"
  using attempts_ok_same [of crc m m'] maps_ok_same [of m m'] assms by (simp add: manager_ok_def same_attempt_def)


lemma killAttemptLocked_frame:
  "freshSess (killAttemptLocked a m) = freshSess m" "freshWin (killAttemptLocked a m) = freshWin m"
  "running (killAttemptLocked a m) = running m" "closed (killAttemptLocked a m) = closed m"
  "byID (killAttemptLocked a m) = byID m" "byKey (killAttemptLocked a m) = byKey m"
  "sess (killAttemptLocked a m) = sess m" "ttl (killAttemptLocked a m) = ttl m"
  "windows_move crc (freshWin m) (wins m) (wins (killAttemptLocked a m))"
  using windows_move_close(1) [of crc "freshWin m" "m\<lparr>cancelled := c\<rparr>" w errAborted for c w]
  by (simp_all add: killAttemptLocked_def Let_def split: option.splits)

lemma touch_ok: "manager_ok crc m \<Longrightarrow> manager_ok crc (touch now a m)"
  by (erule manager_ok_same) (auto simp: touch_def same_attempt_def session_key_def)

lemma progress_ok: "manager_ok crc m \<Longrightarrow> manager_ok crc (upd_sess a (\<lambda>s. s\<lparr>storagePct := p\<rparr>) m)"
  by (erule manager_ok_same) (auto simp: same_attempt_def session_key_def)

lemma relabel_ok:
  assumes "manager_ok crc m" "st = StateAborted \<or> st = StateFailedPermanent"
  shows "manager_ok crc (killAttemptLocked a (upd_sess a (\<lambda>s. s\<lparr>state := st, serr := e\<rparr>) m))"
proof -
  let ?m = "upd_sess a (\<lambda>s. s\<lparr>state := st, serr := e\<rparr>) m"
  have "windows_move crc (freshWin m) (wins m) (wins (killAttemptLocked a ?m))"
    using killAttemptLocked_frame(9) [of crc ?m a] by simp
  then show ?thesis
    using assms by (intro manager_ok_same [OF assms(1)]) (auto simp: killAttemptLocked_frame same_attempt_def session_key_def)
qed

lemma kill_ok: "manager_ok crc m \<Longrightarrow> manager_ok crc (killAttemptLocked a m)"
  by (erule manager_ok_same) (auto simp: killAttemptLocked_frame)

lemma terminate_session_ok: "manager_ok crc m \<Longrightarrow> manager_ok crc (terminate_session a cause m)"
  by (auto simp: terminate_session_def intro: relabel_ok kill_ok)

lemma Chunk_end_ok: "manager_ok crc m \<Longrightarrow> Chunk_end a idx prev result m = (r, m') \<Longrightarrow> manager_ok crc m'"
  by (auto simp: Chunk_end_def Let_def split: sum.splits if_splits intro: relabel_ok)

lemma window_moved_ok:
  assumes "manager_ok crc m" "window_step crc (wins m w) s"
  shows "manager_ok crc (m\<lparr>wins := (wins m)(w := s)\<rparr>)"
proof -
  have "windows_move crc (freshWin m) (wins m) ((wins m)(w := s))"
    using assms(2) by (auto simp: windows_move_def intro: window_reach.intros)
  then show ?thesis by (intro manager_ok_same [OF assms(1)]) auto
qed

lemma close_done_ok:
  assumes "manager_ok crc m" "w < freshWin m" "running m w = None"
  shows "manager_ok crc (close_done w m)"
  using assms by (auto simp: manager_ok_def maps_ok_def attempts_ok_def close_done_def)

lemma publish_ok:
  assumes "manager_ok crc m" "a < freshSess m"
  shows "manager_ok crc (Init_publish a m)"
proof -
  have "maps_ok (Init_publish a m)"
    using assms unfolding manager_ok_def maps_ok_def by (auto simp: Init_publish_def Let_def session_key_def; metis)
  then show ?thesis using assms(1) by (simp add: manager_ok_def attempts_ok_def Init_publish_def Let_def)
qed

lemma remove_ok:
  assumes "manager_ok crc m" "a < freshSess m"
  shows "manager_ok crc (remove_session a m)"
proof -
  have "maps_ok (remove_session a m)"
    using assms unfolding manager_ok_def maps_ok_def by (auto simp: remove_session_def Let_def session_key_def; metis)
  then show ?thesis using assms(1) by (simp add: manager_ok_def attempts_ok_def remove_session_def Let_def)
qed


section \<open>Starting and finishing attempts\<close>

lemma NewWindow_NewOk: "NewWindow mkdir openFile cs ts n = NewOk w \<Longrightarrow> NewWindow None None cs ts n = NewOk w"
  by (auto simp: NewWindow_def split: if_splits option.splits)

lemma NewWindow_outcome:
  assumes "NewWindow None None cs ts n = NewOk w"
  shows "NewWindow mkdir openFile cs ts n = NewOk w \<or> (\<exists>e. NewWindow mkdir openFile cs ts n = NewIOError e)"
  using assms by (auto simp: NewWindow_def split: if_splits option.splits)

lemma startAttempt_started:
  assumes "startAttemptLocked mkdir openFile a m = Some (None, m')"
  obtains w where "NewWindow None None (SChunkSize (sess m a)) (SSize (sess m a)) WindowSlots = NewOk w"
    "m' = upd_sess a (\<lambda>s. s\<lparr>swin := Some (freshWin m), scancel := Some (freshWin m), sdone := Some (freshWin m),
            state := StateReceiving, serr := None, storagePct := 0\<rparr>)
        (m\<lparr>wins := (wins m)(freshWin m := window_start w), freshWin := freshWin m + 1,
           running := (running m)(freshWin m \<mapsto> a)\<rparr>)"
  using assms NewWindow_NewOk by (auto simp: startAttemptLocked_def Let_def split: new_window.splits)

lemma startAttempt_refused: "startAttemptLocked mkdir openFile a m = Some (Some e, m') \<Longrightarrow> m' = m"
  by (auto simp: startAttemptLocked_def Let_def split: new_window.splits)

text \<open>A session without a running attempt starts one; the other sessions keep theirs.\<close>

lemma startAttempt_attempt_ok:
  assumes "startAttemptLocked mkdir openFile a m = Some (None, m')" "\<And>v. running m v \<noteq> Some a"
    and "length (prevSet (sess m a)) = length (prevCRCs (sess m a))"
  shows "attempt_ok crc (freshWin m') (wins m') (running m') a (sess m' a)"
proof -
  obtain w where "NewWindow None None (SChunkSize (sess m a)) (SSize (sess m a)) WindowSlots = NewOk w"
    and m': "m' = upd_sess a (\<lambda>s. s\<lparr>swin := Some (freshWin m), scancel := Some (freshWin m), sdone := Some (freshWin m),
            state := StateReceiving, serr := None, storagePct := 0\<rparr>)
        (m\<lparr>wins := (wins m)(freshWin m := window_start w), freshWin := freshWin m + 1,
           running := (running m)(freshWin m \<mapsto> a)\<rparr>)"
    using assms(1) by (rule startAttempt_started)
  then have "newest_window crc (freshWin m') (wins m') (sess m' a) (freshWin m)"
    by (simp add: newest_window_def window_reach.start)
  then show ?thesis using assms(2,3) unfolding attempt_ok_def by (auto simp: m')
qed

lemma startAttempt_other_ok:
  assumes "startAttemptLocked mkdir openFile a m = Some (None, m')" "b \<noteq> a" "running m (freshWin m) = None"
    and "attempt_ok crc (freshWin m) (wins m) (running m) b (sess m b)"
  shows "attempt_ok crc (freshWin m') (wins m') (running m') b (sess m' b)"
proof -
  obtain w where m': "m' = upd_sess a (\<lambda>s. s\<lparr>swin := Some (freshWin m), scancel := Some (freshWin m), sdone := Some (freshWin m),
            state := StateReceiving, serr := None, storagePct := 0\<rparr>)
        (m\<lparr>wins := (wins m)(freshWin m := window_start w), freshWin := freshWin m + 1,
           running := (running m)(freshWin m \<mapsto> a)\<rparr>)"
    using assms(1) by (rule startAttempt_started)
  have "attempt_ok crc (freshWin m') (wins m') (running m') b (sess m b)"
    using assms(2,3) by (intro attempt_ok_mono [OF assms(4)]) (auto simp: m' windows_move_def window_reach.start)
  then show ?thesis using assms(2) by (simp add: m')
qed

lemma startAttempt_frame:
  assumes "startAttemptLocked mkdir openFile a m = Some (None, m')"
  shows "byID m' = byID m" "byKey m' = byKey m" "freshSess m' = freshSess m" "closed m' = closed m"
    "running m' = (running m)(freshWin m \<mapsto> a)" "freshWin m' = Suc (freshWin m)"
    "ID (sess m' b) = ID (sess m b)" "session_key (sess m' b) = session_key (sess m b)"
    "state (sess m' a) = StateReceiving" "swin (sess m' a) = Some (freshWin m)"
    "prevSet (sess m' a) = prevSet (sess m a)" "prevCRCs (sess m' a) = prevCRCs (sess m a)"
  using assms by (auto elim!: startAttempt_started simp: session_key_def)

lemma running_fresh: "manager_ok crc m \<Longrightarrow> running m (freshWin m) = None"
  by (cases "running m (freshWin m)") (auto simp: manager_ok_def attempts_ok_def)

lemma startAttempt_ok:
  assumes "manager_ok crc m" "a < freshSess m" "state (sess m a) = StateFailedRetriable"
    and "startAttemptLocked mkdir openFile a m = Some (None, m')"
  shows "manager_ok crc m'"
proof -
  have ok: "attempts_ok crc m" "maps_ok m" using assms(1) by (simp_all add: manager_ok_def)
  then have a: "attempt_ok crc (freshWin m) (wins m) (running m) a (sess m a)"
    using assms(2) by (simp add: attempts_ok_def)
  note frame = startAttempt_frame [OF assms(4)]
  have "attempt_ok crc (freshWin m') (wins m') (running m') a (sess m' a)"
    using a assms(3) by (intro startAttempt_attempt_ok [OF assms(4)]) (auto simp: attempt_ok_def)
  moreover have "attempt_ok crc (freshWin m') (wins m') (running m') b (sess m' b)" if "b < freshSess m" "b \<noteq> a" for b
    using ok(1) that startAttempt_other_ok [OF assms(4)] running_fresh [OF assms(1)] by (simp add: attempts_ok_def)
  ultimately have "attempts_ok crc m'"
    using ok(1) assms(2) unfolding attempts_ok_def frame by (auto simp: less_Suc_eq)
  moreover have "maps_ok m'" by (rule maps_ok_same [OF ok(2)]) (simp_all add: frame)
  ultimately show ?thesis by (simp add: manager_ok_def)
qed

lemma Chunk_proceed_same: "Chunk_proceed a idx m = Some (r, m') \<Longrightarrow> m' = m"
  by (auto simp: Chunk_proceed_def split: option.splits)

lemma Chunk_locked_ok:
  assumes "manager_ok crc m" "a < freshSess m" "Chunk_locked mkdir openFile a idx m = Some (r, m')"
  shows "manager_ok crc m'"
  using assms startAttempt_ok [OF assms(1,2)]
  by (auto simp: Chunk_locked_def split: State.splits if_splits option.splits prod.splits
      dest!: Chunk_proceed_same startAttempt_refused)


definition with_session :: "Session \<Rightarrow> Manager \<Rightarrow> Manager" where
  "with_session s m = m\<lparr>sess := (sess m)(freshSess m := s), freshSess := freshSess m + 1\<rparr>"

lemma Init_create_started:
  assumes "Init_create mkdir openFile uuid now req m = Some (Inr (a, snap), m')"
  obtains m2 w where "a = freshSess m"
    "startAttemptLocked mkdir openFile a (with_session (new_session uuid now req) m) = Some (None, m2)"
    "swin (sess m2 a) = Some w" "m' = upd_sess a (\<lambda>s. s\<lparr>Total := int (TotalChunks (win (wins m2 w)))\<rparr>) m2"
    "snap = snapshotLocked m' a"
  using assms by (auto simp: Init_create_def with_session_def Let_def split: option.splits prod.splits)

lemma maps_okI:
  assumes "\<And>a b. a < freshSess m \<Longrightarrow> b < freshSess m \<Longrightarrow> ID (sess m a) = ID (sess m b) \<Longrightarrow> a = b"
    and "\<And>sid a. byID m sid = Some a \<Longrightarrow> a < freshSess m \<and> ID (sess m a) = sid"
    and "\<And>k sid. byKey m k = Some sid \<Longrightarrow> \<exists>a. byID m sid = Some a \<and> session_key (sess m a) = k"
  shows "maps_ok m"
  using assms unfolding maps_ok_def by blast

lemma maps_ok_create:
  assumes "maps_ok m" "\<forall>b < freshSess m. ID (sess m b) \<noteq> ID s"
  shows "maps_ok (with_session s m)"
proof -
  have old: "a < freshSess m" if "byID m sid = Some a" for sid a using assms(1) that by (simp add: maps_ok_def)
  have new: "freshSess (with_session s m) = Suc (freshSess m)" "byID (with_session s m) = byID m"
    "byKey (with_session s m) = byKey m" "sess (with_session s m) a = (if a = freshSess m then s else sess m a)" for a
    by (simp_all add: with_session_def)
  show ?thesis
  proof (rule maps_okI, unfold new)
    fix a b assume "a < Suc (freshSess m)" "b < Suc (freshSess m)"
      "ID (if a = freshSess m then s else sess m a) = ID (if b = freshSess m then s else sess m b)"
    then show "a = b" using assms unfolding maps_ok_def by (auto simp: less_Suc_eq split: if_splits)
  next
    fix sid a assume a: "byID m sid = Some a"
    then have "ID (sess m a) = sid" using assms(1) unfolding maps_ok_def by blast
    then show "a < Suc (freshSess m) \<and> ID (if a = freshSess m then s else sess m a) = sid"
      using old [OF a] by simp
  next
    fix k sid assume "byKey m k = Some sid"
    then obtain a where "byID m sid = Some a" "session_key (sess m a) = k"
      using assms(1) unfolding maps_ok_def by blast
    with old [of sid a] show "\<exists>a. byID m sid = Some a \<and> session_key (if a = freshSess m then s else sess m a) = k" by auto
  qed
qed

lemma create_ok:
  assumes "manager_ok crc m" "\<forall>b < freshSess m. ID (sess m b) \<noteq> uuid"
    and "Init_create mkdir openFile uuid now req m = Some (Inr (a, snap), m')"
  shows "manager_ok crc m'"
proof -
  let ?s = "new_session uuid now req" and ?m = "with_session (new_session uuid now req) m"
  obtain m2 w where a: "a = freshSess m" and go: "startAttemptLocked mkdir openFile a ?m = Some (None, m2)"
    and m': "m' = upd_sess a (\<lambda>s. s\<lparr>Total := int (TotalChunks (win (wins m2 w)))\<rparr>) m2"
    using assms(3) by (rule Init_create_started)
  have ok: "attempts_ok crc m" "maps_ok m" using assms(1) by (simp_all add: manager_ok_def)
  have s: "ID ?s = uuid" "prevSet ?s = []" "prevCRCs ?s = []" by (simp_all add: new_session_def split: prod.splits)
  have none: "running m v \<noteq> Some a" for v using ok(1) by (auto simp: a attempts_ok_def)
  note frame = startAttempt_frame [OF go]
  have "attempt_ok crc (freshWin m2) (wins m2) (running m2) a (sess m2 a)"
    using none s by (intro startAttempt_attempt_ok [OF go]) (simp_all add: with_session_def a)
  moreover have "attempt_ok crc (freshWin m2) (wins m2) (running m2) b (sess m2 b)" if "b < freshSess m" for b
    using ok(1) that running_fresh [OF assms(1)]
    by (intro startAttempt_other_ok [OF go]) (auto simp: with_session_def a attempts_ok_def)
  ultimately have "attempts_ok crc m2"
    using ok(1) unfolding attempts_ok_def frame by (auto simp: with_session_def a less_Suc_eq)
  moreover have "maps_ok m2"
  proof (rule maps_ok_same)
    show "maps_ok ?m" using assms(2) by (intro maps_ok_create [OF ok(2)]) (simp add: s(1))
  qed (simp_all only: frame)
  ultimately have "manager_ok crc m2" by (simp add: manager_ok_def)
  then show ?thesis unfolding m' by (rule manager_ok_same) (simp_all add: same_attempt_def session_key_def)
qed

text \<open>The pipeline has ended: whatever it returned, the session is not receiving any more.\<close>

lemma crc_lengths_step:
  "window_step crc s s' \<Longrightarrow> length (crcs (win s)) = length (crcSet (win s)) \<Longrightarrow> length (crcs (win s')) = length (crcSet (win s'))"
  by (cases rule: window_step.cases)
    (auto simp: WriteChunk_admit_def admission_round_def WriteChunk_commit_def Read_finish_def CloseWithError_def set_slot_def Let_def
      split: option.splits if_splits)

lemma crc_lengths:
  assumes "window_reach crc (window_start w) s" "NewWindow mkdir openFile cs ts n = NewOk w"
  shows "length (crcs (win s)) = length (crcSet (win s))"
  using assms(1)
proof (induction "window_start w" s rule: window_reach.induct)
  case start
  then show ?case using assms(2) by (auto simp: NewWindow_def window_start_def Let_def split: if_splits option.splits)
qed (rule crc_lengths_step)

lemma finishAttempt_frame:
  shows "byID (finishAttempt now a w err m) = byID m" "byKey (finishAttempt now a w err m) = byKey m"
    "freshSess (finishAttempt now a w err m) = freshSess m" "freshWin (finishAttempt now a w err m) = freshWin m"
    "closed (finishAttempt now a w err m) = closed m" "running (finishAttempt now a w err m) = (running m)(w := None)"
    "wins (finishAttempt now a w err m) = wins (upd_win w Close m)"
    "b \<noteq> a \<Longrightarrow> sess (finishAttempt now a w err m) b = sess m b"
  by (auto simp: finishAttempt_def CRCs_def touch_def Let_def split: option.splits)

lemma finishAttempt_session:
  assumes "s = sess m a" "s' = sess (finishAttempt now a w err m) a"
  shows "ID s' = ID s" "session_key s' = session_key s" "SChunkSize s' = SChunkSize s" "SSize s' = SSize s"
    "sdone s' = sdone s" "scancel s' = scancel s" "swin s' = (if swin s = Some w then None else swin s)"
    "prevCRCs s' = crcs (win (wins m w))" "prevSet s' = crcSet (win (wins m w))"
    "state s' \<noteq> StateReceiving"
    "state s' = (case err of None \<Rightarrow> StateCompleted
       | Some e \<Rightarrow> if state s \<noteq> StateReceiving then state s
           else if isPermanentPutError e then StateFailedPermanent else StateFailedRetriable)"
  by (auto simp: assms finishAttempt_def CRCs_def touch_def session_key_def Let_def split: option.splits)

lemma finish_ok:
  assumes "manager_ok crc m" "running m w = Some a"
  shows "manager_ok crc (finishAttempt now a w err m)"
proof -
  let ?m = "finishAttempt now a w err m"
  have ok: "attempts_ok crc m" "maps_ok m" using assms(1) by (simp_all add: manager_ok_def)
  then have a: "a < freshSess m" and aok: "attempt_ok crc (freshWin m) (wins m) (running m) a (sess m a)"
    using assms(2) by (auto simp: attempts_ok_def)
  note frame = finishAttempt_frame [where now = now and a = a and w = w and err = err and m = m] and s = finishAttempt_session [OF refl refl, where now = now and a = a and w = w and err = err and m = m]
  have win: "swin (sess m a) = Some w" using aok assms(2) by (simp add: attempt_ok_def)
  obtain d where d: "newest_window crc (freshWin m) (wins m) (sess m a) d" using aok by (auto simp: attempt_ok_def)
  then have "d = w" using win by (simp add: newest_window_def)
  then have len: "length (crcSet (win (wins m w))) = length (crcs (win (wins m w)))"
    using d crc_lengths by (fastforce simp: newest_window_def)
  have "newest_window crc (freshWin m) (wins ?m) (sess m a) d"
    by (rule newest_window_mono [OF d]) (simp_all add: frame(7))
  then have "newest_window crc (freshWin ?m) (wins ?m) (sess ?m a) d" by (simp add: newest_window_def s frame)
  moreover have "running ?m v \<noteq> Some a" for v using aok win by (auto simp: frame(6) attempt_ok_def)
  ultimately have "attempt_ok crc (freshWin ?m) (wins ?m) (running ?m) a (sess ?m a)"
    using win len s(10) unfolding attempt_ok_def by (auto simp: s(7,8,9))
  moreover have "attempt_ok crc (freshWin ?m) (wins ?m) (running ?m) b (sess ?m b)" if "b < freshSess m" "b \<noteq> a" for b
  proof -
    have "attempt_ok crc (freshWin m) (wins m) (running m) b (sess m b)"
      using ok(1) that(1) by (simp add: attempts_ok_def)
    then have "attempt_ok crc (freshWin ?m) (wins ?m) (running ?m) b (sess m b)"
    proof (rule attempt_ok_mono)
      show "running ?m v = Some b \<longleftrightarrow> running m v = Some b" for v using that(2) assms(2) by (simp add: frame(6))
    qed (simp_all add: frame(4,7))
    then show ?thesis using frame(8) [OF that(2)] by simp
  qed
  ultimately have "attempts_ok crc ?m"
    using ok(1) a unfolding attempts_ok_def by (auto simp: frame(3,4,5,6) split: if_splits)
  moreover have "maps_ok ?m"
  proof (rule maps_ok_same [OF ok(2)])
    show "ID (sess ?m b) = ID (sess m b) \<and> session_key (sess ?m b) = session_key (sess m b)" for b
      using s(1,2) frame(8) by (cases "b = a") simp_all
  qed (simp_all only: frame)
  ultimately show ?thesis by (simp add: manager_ok_def)
qed

section \<open>Every reachable state\<close>

lemma session_step_ok: "session_step crc m m' \<Longrightarrow> manager_ok crc m \<Longrightarrow> manager_ok crc m'"
  by (cases rule: session_step.cases)
    (auto intro: create_ok publish_ok touch_ok terminate_session_ok remove_ok Chunk_locked_ok Chunk_end_ok progress_ok
      finish_ok close_done_ok window_moved_ok)

lemma DefaultManager_ok: "manager_ok crc DefaultManager"
  by (simp add: DefaultManager_def manager_ok_def maps_ok_def attempts_ok_def)

lemma session_reach_ok: "session_reach crc m m' \<Longrightarrow> manager_ok crc m \<Longrightarrow> manager_ok crc m'"
  by (induction rule: session_reach.induct) (auto intro: session_step_ok)

end
