(* ===== verification/Session_Properties.thy ===== *)
theory Session_Properties
  imports Session_Invariant
begin

text \<open>
  The properties of upload sessions: in every reachable state of the manager the maps and the
  attempts fit together, requests reach only the sessions of their user, a request for a chunk
  panics only for a negative index, and waiting for the end of an upload starts only when
  every chunk has been received.
\<close>

section \<open>Keys and hashes\<close>

lemma bar_not_digit: "CHR ''|'' \<notin> set (format_nat n)" "CHR ''|'' \<notin> set (format_int i)"
  using format_nat_digits [of "CHR ''|''" n] format_int_chars [of "CHR ''|''" i] by (auto simp: is_digit_def)

lemma append_sep_eq:
  fixes c :: char
  assumes "c \<notin> set a" "c \<notin> set b" "a @ c # s = b @ c # t"
  shows "a = b \<and> s = t"
  using cut_at_found [OF assms(1), of s, unfolded assms(3) cut_at_found [OF assms(2)]] by simp

lemma append_sep_eq_rev:
  fixes c :: char
  assumes "c \<notin> set s" "c \<notin> set t" "a @ c # s = b @ c # t"
  shows "a = b \<and> s = t"
proof -
  have "rev s @ c # rev a = rev t @ c # rev b" using assms(3) by (metis append.assoc append_Cons append_Nil rev.simps(2) rev_append rev_rev_ident)
  then show ?thesis using append_sep_eq [of c "rev s" "rev t" "rev a" "rev b"] assms(1,2) by simp
qed

lemma sessionKey_inj: "sessionKey u p n = sessionKey u' p' n' \<longleftrightarrow> u = u' \<and> p = p' \<and> n = n'"
proof
  assume "sessionKey u p n = sessionKey u' p' n'"
  then have "format_nat u @ CHR ''|'' # (p @ CHR ''|'' # format_int n) = format_nat u' @ CHR ''|'' # (p' @ CHR ''|'' # format_int n')"
    by (simp add: sessionKey_def)
  then have "u = u'" and rest: "p @ CHR ''|'' # format_int n = p' @ CHR ''|'' # format_int n'"
    using append_sep_eq [OF bar_not_digit(1) bar_not_digit(1)] by (metis format_nat_eq_iff, metis)
  moreover have "p = p' \<and> format_int n = format_int n'"
    by (rule append_sep_eq_rev [OF bar_not_digit(2) bar_not_digit(2) rest])
  ultimately show "u = u' \<and> p = p' \<and> n = n'" by simp
qed simp

lemma hashes_loop_iff:
  "hashes_loop old new found \<longleftrightarrow>
     (found \<or> (\<exists>(t, ov) \<in> set old. map_of new t \<noteq> None)) \<and> (\<forall>(t, ov) \<in> set old. \<forall>nv. map_of new t = Some nv \<longrightarrow> nv = ov)"
  by (induction old new found rule: hashes_loop.induct) (auto split: option.splits if_splits)

section \<open>Sections of requests\<close>

lemma reachable_ok: "session_reach crc DefaultManager m \<Longrightarrow> manager_ok crc m"
  using session_reach_ok DefaultManager_ok by blast

lemma known_session:
  assumes "manager_ok crc m" "byID m sid = Some a"
  shows "a < freshSess m" "ID (sess m a) = sid" "attempt_ok crc (freshWin m) (wins m) (running m) a (sess m a)"
  using assms by (auto simp: manager_ok_def maps_ok_def attempts_ok_def)

lemma key_session:
  assumes "manager_ok crc m" "byKey m (sessionKey u p n) = Some sid"
  obtains a where "byID m sid = Some a" "Creator (sess m a) = u" "Path (sess m a) = p" "SSize (sess m a) = n"
proof -
  obtain a where "byID m sid = Some a" "session_key (sess m a) = sessionKey u p n"
    using assms unfolding manager_ok_def maps_ok_def by blast
  then show thesis using that by (simp add: session_key_def sessionKey_inj)
qed

lemma prev_crc_total:
  "length (prevSet s) = length (prevCRCs s) \<Longrightarrow> prev_crc s idx = None \<longleftrightarrow> idx < 0"
  by (auto simp: prev_crc_def)

lemma Chunk_proceed_None:
  assumes "length (prevSet (sess m a)) = length (prevCRCs (sess m a))" "swin (sess m a) \<noteq> None"
  shows "Chunk_proceed a idx m = None \<longleftrightarrow> idx < 0"
  using prev_crc_total [OF assms(1), of idx] assms(2) by (auto simp: Chunk_proceed_def split: option.splits)

lemma startAttempt_total:
  assumes "attempt_ok crc (freshWin m) (wins m) (running m) a (sess m a)"
  shows "startAttemptLocked mkdir openFile a m \<noteq> None"
proof -
  obtain w where "NewWindow None None (SChunkSize (sess m a)) (SSize (sess m a)) WindowSlots = NewOk w"
    using assms by (auto simp: attempt_ok_def newest_window_def)
  from NewWindow_outcome [OF this, of mkdir openFile] show ?thesis
    by (auto simp: startAttemptLocked_def Let_def)
qed

lemma Chunk_locked_None:
  assumes ok: "attempt_ok crc (freshWin m) (wins m) (running m) a (sess m a)"
  shows "Chunk_locked mkdir openFile a idx m = None \<longleftrightarrow> state (sess m a) = StateReceiving \<and> idx < 0"
proof (cases "state (sess m a)")
  case StateReceiving
  then have "swin (sess m a) \<noteq> None" "length (prevSet (sess m a)) = length (prevCRCs (sess m a))"
    using ok by (auto simp: attempt_ok_def)
  then show ?thesis using Chunk_proceed_None StateReceiving by (simp add: Chunk_locked_def)
next
  case StateFailedRetriable
  then have "length (prevSet (sess m a)) = length (prevCRCs (sess m a))" using ok by (simp add: attempt_ok_def)
  then have "Chunk_proceed a 0 m' \<noteq> None" if "startAttemptLocked mkdir openFile a m = Some (None, m')" for m'
    using startAttempt_frame [OF that] Chunk_proceed_None [of m' a 0] by simp
  then show ?thesis using startAttempt_total [OF ok, of mkdir openFile] StateFailedRetriable
    by (auto simp: Chunk_locked_def split: option.splits)
qed (simp_all add: Chunk_locked_def)


section \<open>Waiting for the end of an upload\<close>

lemma window_step_shape: "window_step crc s s' \<Longrightarrow> total (win s') = total (win s) \<and> totalSize (win s') = totalSize (win s)"
  by (cases rule: window_step.cases)
    (auto simp: WriteChunk_admit_def admission_round_def WriteChunk_commit_def Read_finish_def CloseWithError_def set_slot_def Let_def
      split: option.splits if_splits)

lemma window_reach_shape: "window_reach crc s s' \<Longrightarrow> total (win s') = total (win s) \<and> totalSize (win s') = totalSize (win s)"
  by (induction rule: window_reach.induct) (auto dest: window_step_shape)

lemma session_window:
  assumes "attempt_ok crc (freshWin m) (wins m) (running m) a (sess m a)" "swin (sess m a) = Some w"
    and "SSize (sess m a) + SChunkSize (sess m a) - 1 < 2 ^ 63"
  shows "sys_ok crc (wins m w)" "int (totalSize (win (wins m w))) = SSize (sess m a)" "sdone (sess m a) = Some w"
    "running m w = Some a"
proof -
  obtain d w0 where d: "sdone (sess m a) = Some d" "swin (sess m a) = None \<or> swin (sess m a) = Some d"
    and w0: "NewWindow None None (SChunkSize (sess m a)) (SSize (sess m a)) WindowSlots = NewOk w0"
    and run: "window_reach crc (window_start w0) (wins m d)"
    using assms(1) by (auto simp: attempt_ok_def newest_window_def)
  have [simp]: "d = w" using d assms(2) by simp
  show "sdone (sess m a) = Some w" "running m w = Some a" using d assms(1,2) by (auto simp: attempt_ok_def)
  show "sys_ok crc (wins m w)" using window_reach_inv(1) [OF run w0 assms(3)] by simp
  have "0 < SSize (sess m a)" using w0 by (auto simp: NewWindow_def split: if_splits)
  then show "int (totalSize (win (wins m w))) = SSize (sess m a)"
    using window_reach_shape [OF run] NewWindow_ok(3) [OF w0 assms(3)] by (simp add: window_start_def)
qed

section \<open>The garbage collector\<close>

lemma terminate_frame:
  "sessionTTL (terminate a c m) = sessionTTL m" "b \<noteq> a \<Longrightarrow> sess (terminate a c m) b = sess m b"
  "ID (sess (terminate a c m) b) = ID (sess m b)" "swin (sess (terminate a c m) b) = swin (sess m b)"
  "state (sess (terminate a c m) b) = (if b = a \<and> state (sess m a) = StateReceiving then StateAborted else state (sess m b))"
  "byID (terminate a c m) = (byID m)(ID (sess m a) := None)"
  by (auto simp: terminate_def terminate_session_def remove_session_def killAttemptLocked_frame sessionTTL_def Let_def)

lemma CloseWithError_closed: "werr (CloseWithError e w) \<noteq> None"
  by (simp add: CloseWithError_def)

lemma terminate_closes:
  "swin (sess m a) = Some w \<Longrightarrow> werr (win (wins (terminate a c m) w)) \<noteq> None"
  "werr (win (wins m w)) \<noteq> None \<Longrightarrow> werr (win (wins (terminate a c m) w)) \<noteq> None"
  by (auto simp: terminate_def terminate_session_def remove_session_def killAttemptLocked_def Let_def CloseWithError_def split: option.splits)

abbreviation terminate_all :: "session_error \<Rightarrow> Manager \<Rightarrow> nat list \<Rightarrow> Manager" where
  "terminate_all c \<equiv> foldl (\<lambda>m a. terminate a c m)"

lemma terminate_all_byID:
  "byID (terminate_all c m as) sid = (if sid \<in> (\<lambda>a. ID (sess m a)) ` set as then None else byID m sid)"
  by (induction as arbitrary: m) (auto simp: terminate_frame)

lemma terminate_all_keeps:
  "state (sess m b) \<noteq> StateReceiving \<Longrightarrow> state (sess (terminate_all c m as) b) \<noteq> StateReceiving"
  "werr (win (wins m w)) \<noteq> None \<Longrightarrow> werr (win (wins (terminate_all c m as) w)) \<noteq> None"
proof (induction as arbitrary: m)
  case (Cons a as)
  { case 1 then show ?case using Cons.IH(1) [of "terminate a c m"] by (simp add: terminate_frame(5)) }
  { case 2 then show ?case using Cons.IH(2) [of "terminate a c m"] terminate_closes(2) by simp }
qed simp_all

lemma terminate_all_stops:
  assumes "b \<in> set as"
  shows "state (sess (terminate_all c m as) b) \<noteq> StateReceiving"
    and "swin (sess m b) = Some w \<Longrightarrow> werr (win (wins (terminate_all c m as) w)) \<noteq> None"
  using assms
proof (induction as arbitrary: m)
  case (Cons a as)
  { case 1 then show ?case
      using Cons.IH(1) [of "terminate a c m"] terminate_all_keeps(1) [of "terminate b c m" b c as]
      by (cases "b = a") (auto simp: terminate_frame(5)) }
  { case 2 then show ?case
      using Cons.IH(2) [of "terminate a c m"] terminate_all_keeps(2) [OF terminate_closes(1) [of m b w c], of c as]
      by (cases "b = a") (auto simp: terminate_frame(4)) }
qed simp_all

lemma terminate_all_other:
  "b \<notin> set as \<Longrightarrow> sess (terminate_all c m as) b = sess m b"
  by (induction as arbitrary: m) (auto simp: terminate_frame(2))

lemma set_gc_expired:
  assumes "\<forall>sid. byID m sid \<noteq> None \<longrightarrow> sid \<in> set ids"
  shows "set (gc_expired now ids m) = {a. \<exists>sid. byID m sid = Some a \<and> lastActive (sess m a) < now - sessionTTL m}"
proof -
  have "set (List.map_filter f xs) = {y. \<exists>x \<in> set xs. f x = Some y}" for f :: "string \<Rightarrow> nat option" and xs
    by (induction xs) (auto simp: map_filter_def split: option.splits)
  then show ?thesis using assms by (auto simp: gc_expired_def Let_def)
qed


section \<open>Properties\<close>

text \<open>C1 (sessions): however the sections of requests, pipelines and the garbage collector are
  interleaved, the two maps of the manager agree, a session has at most one running attempt, a
  receiving session has its window and the pipeline that reads it, and a session that can be
  restarted or is completed has no attempt running.\<close>

theorem session_invariant:
  assumes "session_reach crc DefaultManager m"
  shows "(\<forall>sid a. byID m sid = Some a \<longrightarrow> a < freshSess m \<and> ID (sess m a) = sid) \<and>
    (\<forall>k sid. byKey m k = Some sid \<longrightarrow>
       (\<exists>a. byID m sid = Some a \<and> sessionKey (Creator (sess m a)) (Path (sess m a)) (SSize (sess m a)) = k)) \<and>
    (\<forall>w a. running m w = Some a \<longrightarrow> swin (sess m a) = Some w \<and> w \<notin> set (closed m) \<and> (\<forall>v. running m v = Some a \<longrightarrow> v = w)) \<and>
    (\<forall>a < freshSess m. state (sess m a) = StateReceiving \<longrightarrow> (\<exists>w. swin (sess m a) = Some w \<and> running m w = Some a)) \<and>
    (\<forall>a < freshSess m. state (sess m a) \<in> {StateFailedRetriable, StateCompleted} \<longrightarrow>
       swin (sess m a) = None \<and> (\<forall>w. running m w \<noteq> Some a))"
proof -
  have ok: "maps_ok m" "attempts_ok crc m" using reachable_ok [OF assms] by (simp_all add: manager_ok_def)
  have att: "attempt_ok crc (freshWin m) (wins m) (running m) a (sess m a)" if "a < freshSess m" for a
    using ok(2) that by (simp add: attempts_ok_def)
  have run: "running m v = Some a \<longleftrightarrow> swin (sess m a) = Some v" if "a < freshSess m" for a v
    using att [OF that] by (simp add: attempt_ok_def)
  have old: "a < freshSess m" "w \<notin> set (closed m)" if "running m w = Some a" for a w
    using ok(2) that by (auto simp: attempts_ok_def)
  show ?thesis
  proof (intro conjI)
    show "\<forall>sid a. byID m sid = Some a \<longrightarrow> a < freshSess m \<and> ID (sess m a) = sid"
      using ok(1) by (simp add: maps_ok_def)
    show "\<forall>k sid. byKey m k = Some sid \<longrightarrow>
       (\<exists>a. byID m sid = Some a \<and> sessionKey (Creator (sess m a)) (Path (sess m a)) (SSize (sess m a)) = k)"
      using ok(1) by (simp add: maps_ok_def session_key_def)
    show "\<forall>w a. running m w = Some a \<longrightarrow> swin (sess m a) = Some w \<and> w \<notin> set (closed m) \<and> (\<forall>v. running m v = Some a \<longrightarrow> v = w)"
      using old run by (metis option.inject)
    show "\<forall>a < freshSess m. state (sess m a) = StateReceiving \<longrightarrow> (\<exists>w. swin (sess m a) = Some w \<and> running m w = Some a)"
      using att run by (auto simp: attempt_ok_def)
    show "\<forall>a < freshSess m. state (sess m a) \<in> {StateFailedRetriable, StateCompleted} \<longrightarrow>
       swin (sess m a) = None \<and> (\<forall>w. running m w \<noteq> Some a)"
      using att run by (auto simp: attempt_ok_def)
  qed
qed

text \<open>C26 (resuming): \<open>Init\<close> hands a client an existing session only if it is the client's own upload of the same path
  and size that can be restarted, or whose data is proved to be the same by a common hash and no
  differing one; \<open>Find\<close> and the requests by identifier reach only sessions of their user.\<close>

theorem resume_own_upload:
  assumes "session_reach crc DefaultManager m"
  shows "(Init_lookup req m = InitResume a \<longrightarrow>
      Creator (sess m a) = ReqUser req \<and> Path (sess m a) = ReqPath req \<and> SSize (sess m a) = ReqSize req \<and>
      (state (sess m a) = StateFailedRetriable \<or> state (sess m a) = StateReceiving \<and>
        (\<exists>t v. (t, v) \<in> set (Hashes (sess m a)) \<and> map_of (ReqHashes req) t = Some v) \<and>
        (\<forall>t v v'. (t, v) \<in> set (Hashes (sess m a)) \<longrightarrow> map_of (ReqHashes req) t = Some v' \<longrightarrow> v = v'))) \<and>
    (Find now user path sz m = (Inr snap, m') \<longrightarrow>
      (\<exists>b sid. byID m sid = Some b \<and> Creator (sess m b) = user \<and> Path (sess m b) = path \<and> SSize (sess m b) = sz \<and>
        m' = touch now b m \<and> snap = snapshotLocked m' b)) \<and>
    (get m user sid = Inr b \<longrightarrow> Creator (sess m b) = user \<and> ID (sess m b) = sid)"
proof (intro conjI impI)
  note ok = reachable_ok [OF assms]
  assume "Init_lookup req m = InitResume a"
  then obtain sid where sid: "byKey m (sessionKey (ReqUser req) (ReqPath req) (ReqSize req)) = Some sid" "byID m sid = Some a"
    and st: "state (sess m a) = StateFailedRetriable \<or>
      state (sess m a) = StateReceiving \<and> hashesQualifyResume (Hashes (sess m a)) (ReqHashes req)"
    by (auto simp: Init_lookup_def split: if_splits option.splits)
  show "Creator (sess m a) = ReqUser req" "Path (sess m a) = ReqPath req" "SSize (sess m a) = ReqSize req"
    using key_session [OF ok sid(1)] sid(2) by auto
  show "state (sess m a) = StateFailedRetriable \<or> state (sess m a) = StateReceiving \<and>
        (\<exists>t v. (t, v) \<in> set (Hashes (sess m a)) \<and> map_of (ReqHashes req) t = Some v) \<and>
        (\<forall>t v v'. (t, v) \<in> set (Hashes (sess m a)) \<longrightarrow> map_of (ReqHashes req) t = Some v' \<longrightarrow> v = v')"
    using st by (fastforce simp: hashesQualifyResume_def hashes_loop_iff)
next
  note ok = reachable_ok [OF assms]
  assume found: "Find now user path sz m = (Inr snap, m')"
  then obtain sid where sid: "byKey m (sessionKey user path sz) = Some sid" by (auto simp: Find_def split: option.splits)
  then obtain b where "byID m sid = Some b" "Creator (sess m b) = user" "Path (sess m b) = path" "SSize (sess m b) = sz"
    using key_session [OF ok] by blast
  then show "\<exists>b sid. byID m sid = Some b \<and> Creator (sess m b) = user \<and> Path (sess m b) = path \<and> SSize (sess m b) = sz \<and>
      m' = touch now b m \<and> snap = snapshotLocked m' b"
    using found sid by (auto simp: Find_def Status_def get_def Let_def)
next
  note ok = reachable_ok [OF assms]
  assume "get m user sid = Inr b"
  then show "Creator (sess m b) = user" "ID (sess m b) = sid"
    using known_session(2) [OF ok] by (auto simp: get_def split: option.splits if_splits)
qed

text \<open>C27 (chunk index): \<open>Chunk\<close> panics in its locked section exactly when the caller sends a negative index to a
  receiving session of its own.\<close>

theorem Chunk_panics_iff:
  assumes "session_reach crc DefaultManager m"
  shows "Chunk_begin mkdir openFile now user sid idx m = None \<longleftrightarrow>
    (\<exists>a. get m user sid = Inr a \<and> state (sess m a) = StateReceiving \<and> idx < 0)"
proof (cases "get m user sid")
  case (Inl e)
  then show ?thesis by (simp add: Chunk_begin_def)
next
  case (Inr a)
  then have a: "byID m sid = Some a" by (auto simp: get_def split: option.splits if_splits)
  have "manager_ok crc (touch now a m)" by (rule touch_ok [OF reachable_ok [OF assms]])
  then have "attempt_ok crc (freshWin (touch now a m)) (wins (touch now a m)) (running (touch now a m)) a (sess (touch now a m) a)"
    by (rule known_session(3) [of _ _ sid]) (simp add: touch_def a)
  from Chunk_locked_None [OF this] show ?thesis by (simp add: Chunk_begin_def Inr touch_def)
qed

text \<open>C25 (waiting): \<open>Complete\<close> waits only on the channel of the attempt that is running, which is not closed yet,
  and only when every chunk of the file was acknowledged in this attempt.\<close>

theorem Complete_waits_for_data:
  assumes "session_reach crc DefaultManager m" "a < freshSess m" "Complete_round a m = CompleteWait"
    and "SSize (sess m a) + SChunkSize (sess m a) - 1 < 2 ^ 63"
  shows "\<exists>w. swin (sess m a) = Some w \<and> sdone (sess m a) = Some w \<and> running m w = Some a \<and> w \<notin> set (closed m) \<and>
    (\<forall>i < total (win (wins m w)). committed (wins m w) i \<noteq> None)"
proof -
  have att: "attempts_ok crc m" using reachable_ok [OF assms(1)] by (simp add: manager_ok_def)
  then have ok: "attempt_ok crc (freshWin m) (wins m) (running m) a (sess m a)"
    using assms(2) by (simp add: attempts_ok_def)
  have st: "state (sess m a) = StateReceiving"
    using assms(3) by (auto simp: Complete_round_def Let_def split: if_splits)
  then obtain w where w: "swin (sess m a) = Some w" using ok by (auto simp: attempt_ok_def)
  note win = session_window [OF ok w assms(4)]
  have "ReceivedBytes (Window_Snapshot (win (wins m w))) \<ge> int (totalSize (win (wins m w)))"
    unfolding win(2) using assms(3) st w by (auto simp: Complete_round_def Let_def split: if_splits)
  then show ?thesis using w win all_received [OF win(1)] att by (auto simp: attempts_ok_def)
qed


section \<open>A run\<close>

text \<open>An upload of two bytes in one chunk is created, published and receives its chunk.\<close>

definition example_req :: InitReq where
  "example_req = \<lparr>ReqUser = 1, ReqPath = ''/d/f'', ReqSize = 2, ReqChunkSize = 2, ReqMimetype = [], ReqModified = 0,
     ReqHashes = [(''md5'', ''h'')]\<rparr>"

definition example_open :: Window where
  "example_open = (case NewWindow None None 2 2 8 of NewOk w \<Rightarrow> w)"

definition example_published :: Manager where
  "example_published = (case Init None None ''u1'' 0 example_req DefaultManager of Some (_, m) \<Rightarrow> m)"

lemma example_open: "NewWindow None None 2 2 8 = NewOk example_open"
  by (simp add: example_open_def NewWindow_def go_div_def wrap64_def)

lemma example_create:
  "\<exists>snap m. Init_create None None ''u1'' 0 example_req DefaultManager = Some (Inr (0, snap), m) \<and>
     example_published = Init_publish 0 m \<and> ttl m = 0 \<and>
     byID m = Map.empty \<and> byKey m = Map.empty \<and> freshSess m = 1 \<and> freshWin m = 1 \<and> wins m 0 = window_start example_open \<and> running m = [0 \<mapsto> 0] \<and>
     ID (sess m 0) = ''u1'' \<and> Creator (sess m 0) = 1 \<and> Path (sess m 0) = ''/d/f'' \<and> SSize (sess m 0) = 2 \<and> SChunkSize (sess m 0) = 2 \<and>
     state (sess m 0) = StateReceiving \<and> swin (sess m 0) = Some 0 \<and> Hashes (sess m 0) = [(''md5'', ''h'')] \<and> lastActive (sess m 0) = 0"
  by (simp add: example_published_def Init_def Init_lookup_def Init_create_def startAttemptLocked_def example_req_def WindowSlots_def
      example_open DefaultManager_def new_session_def path_split_def last_index_str.simps Let_def)


lemma example_published:
  "session_reach crc DefaultManager example_published"
  "byID example_published = [''u1'' \<mapsto> 0]" "byKey example_published = [sessionKey 1 ''/d/f'' 2 \<mapsto> ''u1'']"
  "freshSess example_published = 1" "freshWin example_published = 1" "running example_published = [0 \<mapsto> 0]"
  "wins example_published 0 = window_start example_open" "ID (sess example_published 0) = ''u1''"
  "Creator (sess example_published 0) = 1" "Path (sess example_published 0) = ''/d/f''" "SSize (sess example_published 0) = 2"
  "SChunkSize (sess example_published 0) = 2" "state (sess example_published 0) = StateReceiving"
  "swin (sess example_published 0) = Some 0" "Hashes (sess example_published 0) = [(''md5'', ''h'')]"
  "lastActive (sess example_published 0) = 0" "ttl example_published = 0"
proof -
  obtain snap m where c: "Init_create None None ''u1'' 0 example_req DefaultManager = Some (Inr (0, snap), m)"
    and p: "example_published = Init_publish 0 m" and maps: "ttl m = 0" "byID m = Map.empty" "byKey m = Map.empty" and m: "freshSess m = 1" "freshWin m = 1"
     "wins m 0 = window_start example_open" "running m = [0 \<mapsto> 0]"
     "ID (sess m 0) = ''u1''" "Creator (sess m 0) = 1" "Path (sess m 0) = ''/d/f''" "SSize (sess m 0) = 2" "SChunkSize (sess m 0) = 2"
     "state (sess m 0) = StateReceiving" "swin (sess m 0) = Some 0" "Hashes (sess m 0) = [(''md5'', ''h'')]" "lastActive (sess m 0) = 0"
    using example_create by blast
  have "session_step crc DefaultManager m"
    by (rule session_step.create [OF _ c]) (simp add: DefaultManager_def)
  moreover have "session_step crc m example_published" unfolding p by (rule session_step.publish) (simp add: m)
  ultimately show "session_reach crc DefaultManager example_published"
    by (meson session_reach.intros)
  show "byID example_published = [''u1'' \<mapsto> 0]" "byKey example_published = [sessionKey 1 ''/d/f'' 2 \<mapsto> ''u1'']"
    "freshSess example_published = 1" "freshWin example_published = 1" "running example_published = [0 \<mapsto> 0]"
    "wins example_published 0 = window_start example_open" "ID (sess example_published 0) = ''u1''"
    "Creator (sess example_published 0) = 1" "Path (sess example_published 0) = ''/d/f''" "SSize (sess example_published 0) = 2"
    "SChunkSize (sess example_published 0) = 2" "state (sess example_published 0) = StateReceiving"
    "swin (sess example_published 0) = Some 0" "Hashes (sess example_published 0) = [(''md5'', ''h'')]"
    "lastActive (sess example_published 0) = 0" "ttl example_published = 0"
    by (simp_all add: p m maps Init_publish_def Let_def)
qed

lemma session_reach_window:
  "window_reach crc (wins m w) s \<Longrightarrow> w < freshWin m \<Longrightarrow> session_reach crc r m \<Longrightarrow>
     session_reach crc r (m\<lparr>wins := (wins m)(w := s)\<rparr>)"
proof (induction "wins m w" s rule: window_reach.induct)
  case start
  then show ?case by simp
next
  case (more s s')
  have "session_step crc (m\<lparr>wins := (wins m)(w := s)\<rparr>) ((m\<lparr>wins := (wins m)(w := s)\<rparr>)\<lparr>wins := ((wins m)(w := s))(w := s')\<rparr>)"
    using session_step.window [of w "m\<lparr>wins := (wins m)(w := s)\<rparr>" crc s'] more by simp
  then show ?case using more by (auto intro: session_reach.more)
qed

text \<open>The window after its only chunk has arrived.\<close>

definition example_full :: sys where
  "example_full =
     (let w = set_slot 0 slotFilling 0 example_open;
          w = w\<lparr>wfile := write_bytes (wfile w) 0 ''ab''\<rparr>
      in \<lparr>win = snd (WriteChunk_commit w 0 None (length ''ab'')), writers = Map.empty, rdr = Idle, delivered = [],
          committed = [0 \<mapsto> ''ab'']\<rparr>)"

lemma example_full: "window_reach length (window_start example_open) example_full"
proof -
  let ?s0 = "window_start example_open"
  let ?w1 = "set_slot 0 slotFilling 0 example_open"
  let ?s1 = "?s0\<lparr>win := ?w1, writers := (writers ?s0)(0 \<mapsto> \<lparr>widx = nat 0, wbody = ''ab'', wpos = 0\<rparr>)\<rparr>"
  have open_simps: "werr example_open = None" "total example_open = 1" "slots example_open = 8" "chunkSize example_open = 2" "totalSize example_open = 2"
    "readPos example_open = 0" "slotState example_open = replicate 8 slotFree" "slotChunk example_open = replicate 8 (- 1)" "wopen example_open"
    "crcs example_open = [0]" "crcSet example_open = [False]"
    by (simp_all add: example_open_def NewWindow_def go_div_def wrap64_def)
  have "WriteChunk_admit (win ?s0) 0 False = AdmitGo ?w1"
    by (simp add: WriteChunk_admit_def admission_round_def ChunkLen_def frontier_def window_start_def open_simps Let_def)
  then have "window_step length ?s0 ?s1" by (rule window_step.admit) (simp add: window_start_def)
  moreover define s2 where "s2 = ?s1\<lparr>win := (win ?s1)\<lparr>wfile := write_bytes (wfile (win ?s1)) 0 ''ab''\<rparr>,
      writers := (writers ?s1)(0 \<mapsto> \<lparr>widx = 0, wbody = ''ab'', wpos = 2\<rparr>)\<rparr>"
  have "window_step length ?s1 s2"
    using window_step.copy [of ?s1 0 "\<lparr>widx = 0, wbody = ''ab'', wpos = 0\<rparr>" 2 length]
    by (simp add: s2_def open_simps ChunkLen_def set_slot_def numeral_2_eq_2)
  moreover have "window_step length s2 example_full"
  proof -
    obtain res w where c: "WriteChunk_commit (win s2) 0 None (length ''ab'') = (res, w)" by fastforce
    then have "res = Inr 2" by (auto simp: s2_def WriteChunk_commit_def set_slot_def open_simps Let_def)
    moreover have "example_full = s2\<lparr>win := w, writers := (writers s2)(0 := None), committed := [0 \<mapsto> ''ab'']\<rparr>"
      using c by (simp add: example_full_def s2_def window_start_def Let_def)
    ultimately show ?thesis
      using window_step.commit [of s2 0 "\<lparr>widx = 0, wbody = ''ab'', wpos = 2\<rparr>" None length res w] c
      by (simp add: s2_def copy_error_def ChunkLen_def set_slot_def open_simps window_start_def)
  qed
  ultimately show ?thesis by (meson window_reach.intros)
qed


definition example_received :: Manager where
  "example_received = example_published\<lparr>wins := (wins example_published)(0 := example_full)\<rparr>"

lemma example_received: "session_reach length DefaultManager example_received"
  unfolding example_received_def
  by (rule session_reach_window) (simp_all add: example_published example_full)

lemma example_waits: "Complete_round 0 example_received = CompleteWait"
proof -
  have "win example_full = example_open\<lparr>slotState := slotReady # replicate 7 slotFree, slotChunk := 0 # replicate 7 (- 1),
      wfile := write_bytes (wfile example_open) 0 ''ab'', crcs := [2], crcSet := [True]\<rparr>"
    by (simp add: example_full_def WriteChunk_commit_def set_slot_def example_open_def NewWindow_def go_div_def wrap64_def
        numeral_eq_Suc Let_def)
  then have "Window_Snapshot (win example_full) = \<lparr>Frontier = 0, SnapReadPos = 0, ReceivedBytes = 2, Received = [(0, 0)]\<rparr>"
    by (simp add: Window_Snapshot_def frontier_def snapshot_step_def ChunkLen_def example_open_def NewWindow_def go_div_def wrap64_def
        Let_def)
  then show ?thesis by (simp add: Complete_round_def example_received_def example_published Let_def)
qed

theorem session_invariant_witness:
  "session_reach length DefaultManager example_published \<and> state (sess example_published 0) = StateReceiving \<and>
   (\<exists>w. swin (sess example_published 0) = Some w \<and> running example_published w = Some 0)"
proof -
  have "\<forall>a < freshSess example_published. state (sess example_published a) = StateReceiving \<longrightarrow>
      (\<exists>w. swin (sess example_published a) = Some w \<and> running example_published w = Some a)"
    using session_invariant [OF example_published(1) [of length]] by (elim conjE)
  then show ?thesis by (simp add: example_published)
qed

theorem resume_own_upload_witness:
  "Init_lookup example_req example_published = InitResume 0 \<and> Creator (sess example_published 0) = ReqUser example_req \<and>
   get example_published 1 ''u1'' = Inr 0"
proof -
  have look: "Init_lookup example_req example_published = InitResume 0"
    by (simp add: Init_lookup_def example_req_def example_published hashesQualifyResume_def)
  have "get example_published 1 ''u1'' = Inr 0" by (simp add: get_def example_published)
  then show ?thesis using look resume_own_upload [OF example_published(1) [of length], of example_req 0] by blast
qed

theorem Chunk_panics_iff_witness:
  "session_reach length DefaultManager example_published \<and> get example_published 1 ''u1'' = Inr 0 \<and>
   Chunk_begin None None 5 1 ''u1'' (- 1) example_published = None \<and> Chunk_begin None None 5 1 ''u1'' 7 example_published \<noteq> None"
proof -
  have "get example_published 1 ''u1'' = Inr 0" by (simp add: get_def example_published)
  then show ?thesis
    using Chunk_panics_iff [OF example_published(1) [of length], of None None 5 1 "''u1''"] example_published by simp
qed

theorem Complete_waits_for_data_witness:
  "Complete_round 0 example_received = CompleteWait \<and>
   (\<exists>w. swin (sess example_received 0) = Some w \<and> (\<forall>i < total (win (wins example_received w)). committed (wins example_received w) i \<noteq> None))"
proof -
  have "\<exists>w. swin (sess example_received 0) = Some w \<and> sdone (sess example_received 0) = Some w \<and>
      running example_received w = Some 0 \<and> w \<notin> set (closed example_received) \<and>
      (\<forall>i < total (win (wins example_received w)). committed (wins example_received w) i \<noteq> None)"
    by (rule Complete_waits_for_data [OF example_received _ example_waits]) (simp_all add: example_received_def example_published)
  then show ?thesis using example_waits by blast
qed

text \<open>Expiry: one round of the garbage collector drops exactly the sessions that were idle for longer than
  the timeout, stops those that were receiving and closes their windows, and leaves the other sessions as
  they are.\<close>

theorem gc_drops_expired:
  assumes "session_reach crc DefaultManager m" "\<forall>sid. byID m sid \<noteq> None \<longrightarrow> sid \<in> set ids" "byID m sid = Some a"
  shows "if lastActive (sess m a) < now - sessionTTL m
    then byID (gc now ids m) sid = None \<and> state (sess (gc now ids m) a) \<noteq> StateReceiving \<and>
      (\<forall>w. swin (sess m a) = Some w \<longrightarrow> werr (win (wins (gc now ids m) w)) \<noteq> None)
    else byID (gc now ids m) sid = Some a \<and> sess (gc now ids m) a = sess m a"
proof -
  note ok = reachable_ok [OF assms(1)]
  note expired = set_gc_expired [OF assms(2), of now]
  have sid: "ID (sess m a) = sid" and a: "a < freshSess m" using known_session [OF ok assms(3)] by auto
  have same: "b = a" if "b \<in> set (gc_expired now ids m)" "ID (sess m b) = sid" for b
    using that sid a known_session(1) [OF ok] ok unfolding expired manager_ok_def maps_ok_def by blast
  show ?thesis
  proof (cases "lastActive (sess m a) < now - sessionTTL m")
    case True
    then have "a \<in> set (gc_expired now ids m)" using assms(3) unfolding expired by blast
    then show ?thesis using True sid terminate_all_stops [where b = a and as = "gc_expired now ids m" and c = SessionExpired and m = m]
      by (auto simp: gc_def terminate_all_byID)
  next
    case False
    then have no: "a \<notin> set (gc_expired now ids m)" unfolding expired by blast
    then have "sid \<notin> (\<lambda>b. ID (sess m b)) ` set (gc_expired now ids m)" using same by fastforce
    then show ?thesis using False no assms(3) terminate_all_other [OF no]
      by (simp add: gc_def terminate_all_byID)
  qed
qed

theorem gc_drops_expired_witness:
  "byID (gc (2 * defaultSessionTTL) [''u1''] example_published) ''u1'' = None \<and>
   byID (gc 5 [''u1''] example_published) ''u1'' = Some 0"
proof -
  have ids: "\<forall>sid. byID example_published sid \<noteq> None \<longrightarrow> sid \<in> set [''u1'']"
    and a: "byID example_published ''u1'' = Some 0" by (auto simp: example_published)
  have ttl: "sessionTTL example_published = defaultSessionTTL"
    by (simp add: sessionTTL_def example_published)
  show ?thesis
    using gc_drops_expired [OF example_published(1) [of length] ids a, of "2 * defaultSessionTTL"]
      gc_drops_expired [OF example_published(1) [of length] ids a, of 5]
    by (simp add: example_published ttl defaultSessionTTL_def)
qed

end
