(* ===== verification/Url_Tree.thy ===== *)
theory Url_Tree
  imports Paths
begin

text \<open>
  The URL tree driver (\<open>drivers/url_tree\<close>): a storage whose folder tree is a text, one line per
  folder or file, with two spaces of indentation per level. The driver parses the text into a tree,
  answers lookups from it, and after every write prints the tree back into its configuration.

  Nodes are values. Where the Go code keeps a pointer to a node of the tree and changes it, the
  model applies the change at the node that the same lookup finds. The request for the size of a
  URL (\<open>getSizeFromUrl\<close>) is the parameter \<open>head\<close>, \<open>None\<close> when it fails; saving the configuration
  has no effect on the driver's state.
\<close>

section \<open>Nodes (types.go)\<close>

datatype Node = Node (Url: string) (Name: string) (Level: int) (Modified: int) (Size: int) (Children: "Node list")

text \<open>\<open>getByPath\<close>: the first match in depth-first order.\<close>

fun first_some :: "('a \<Rightarrow> 'b option) \<Rightarrow> 'a list \<Rightarrow> 'b option" where
  "first_some f [] = None"
| "first_some f (x # xs) = (case f x of Some y \<Rightarrow> Some y | None \<Rightarrow> first_some f xs)"

lemma first_some_cong [fundef_cong]:
  "xs = ys \<Longrightarrow> (\<And>x. x \<in> set ys \<Longrightarrow> f x = g x) \<Longrightarrow> first_some f xs = first_some g ys"
  by (induction ys arbitrary: xs) (auto split: option.splits)

fun getByPath :: "string list \<Rightarrow> Node \<Rightarrow> Node option" where
  "getByPath [] node = None"
| "getByPath (p # ps) node =
     (if Name node \<noteq> p then None
      else if ps = [] then Some node
      else first_some (getByPath ps) (Children node))"

definition isFile :: "Node \<Rightarrow> bool" where
  "isFile node \<longleftrightarrow> Url node \<noteq> []"

text \<open>\<open>calSize\<close> stores the sizes of the folders it visits; the sum wraps around at 64 bits.\<close>

fun calSize :: "Node \<Rightarrow> Node" where
  "calSize (Node u n l m s cs) =
     (if u \<noteq> [] then Node u n l m s cs
      else (let cs' = map calSize cs
            in Node u n l m (foldl (\<lambda>size c. wrap64 (size + Size c)) 0 cs') cs'))"

fun setLevel :: "int \<Rightarrow> Node \<Rightarrow> Node" where
  "setLevel level (Node u n l m s cs) = Node u n level m s (map (setLevel (level + 1)) cs)"

fun deepCopy :: "int \<Rightarrow> Node \<Rightarrow> Node" where
  "deepCopy level (Node u n l m s cs) = Node u n level m s (map (deepCopy (level + 1)) cs)"

section \<open>Parsing (util.go)\<close>

datatype tree_error =
    IndentError string
  | UrlRequired string
  | InfoMustEndWithColon string
  | EmptyFileName string
  | SizeNotInteger string
  | ModifiedNotTimestamp string

definition isFolder :: "string \<Rightarrow> bool" where
  "isFolder line = has_suffix line '':''"

text \<open>The name, size and time before the URL, and whether a size was given.\<close>

definition parse_info :: "string \<Rightarrow> string \<Rightarrow> tree_error + string \<times> int \<times> int \<times> bool" where
  "parse_info line info =
     (if \<not> has_suffix info '':'' then Inl (InfoMustEndWithColon line)
      else (let info = take (length info - 1) info in
        if info = [] then Inl (EmptyFileName line)
        else (let infoParts = split_on (CHR '':'') info; nam = infoParts ! 0 in
          if length infoParts > 1 then
            (case ParseInt (infoParts ! 1) of
               (_, Some _) \<Rightarrow> Inl (SizeNotInteger line)
             | (sz, None) \<Rightarrow>
                 if length infoParts > 2 then
                   (case ParseInt (infoParts ! 2) of
                      (_, Some _) \<Rightarrow> Inl (ModifiedNotTimestamp line)
                    | (modified, None) \<Rightarrow> Inr (nam, sz, modified, True))
                 else Inr (nam, sz, 0, True))
          else Inr (nam, 0, 0, False))))"

definition parseFileLine :: "(string \<Rightarrow> int option) \<Rightarrow> string \<Rightarrow> bool \<Rightarrow> tree_error + Node" where
  "parseFileLine head line headSize =
     (case (case index_str ''http://'' line of
              Some i \<Rightarrow> Some i | None \<Rightarrow> index_str ''https://'' line) of
        None \<Rightarrow> Inl (UrlRequired line)
      | Some index \<Rightarrow>
          (let url = drop index line; info = take index line in
           bind_res (if index > 0 then parse_info line info else Inr (path_base url, 0, 0, False))
             (\<lambda>(nam, sz, modified, haveSize).
                let sz = (if \<not> haveSize \<and> headSize then (case head url of Some n \<Rightarrow> n | None \<Rightarrow> sz) else sz)
                in Inr (Node url nam 0 modified sz []))))"

text \<open>The stack of \<open>BuildTree\<close>, top first: folders whose children are still being collected. A folder
  joins its parent when it is popped, which is before the parent gets its next child.\<close>

definition add_child :: "Node \<Rightarrow> Node \<Rightarrow> Node" where
  "add_child c p = Node (Url p) (Name p) (Level p) (Modified p) (Size p) (Children p @ [c])"

fun pop_stack :: "int \<Rightarrow> Node list \<Rightarrow> Node list" where
  "pop_stack level (t # p # rest) =
     (if level \<le> Level t then pop_stack level (add_child t p # rest) else t # p # rest)"
| "pop_stack level st = st"

definition push_child :: "Node \<Rightarrow> Node list \<Rightarrow> Node list" where
  "push_child c st = (case st of [] \<Rightarrow> [] | t # rest \<Rightarrow> add_child c t # rest)"

definition build_line :: "(string \<Rightarrow> int option) \<Rightarrow> bool \<Rightarrow> Node list \<Rightarrow> string \<Rightarrow> tree_error + Node list" where
  "build_line head headSize stack line =
     (let indent = length (takeWhile (\<lambda>c. c = CHR '' '') line) in
        if indent mod 2 \<noteq> 0 then Inl (IndentError line)
        else (let level = int (indent div 2); line = trim_space (drop indent line) in
          if line = [] then Inr stack
          else (let stack = pop_stack level stack in
            if isFolder line then Inr (Node [] (trim_suffix line '':'') level 0 0 [] # stack)
            else bind_res (parseFileLine head line headSize) (\<lambda>node.
                   Inr (push_child (Node (Url node) (Name node) level (Modified node) (Size node) (Children node)) stack)))))"

fun build_lines :: "(string \<Rightarrow> int option) \<Rightarrow> bool \<Rightarrow> Node list \<Rightarrow> string list \<Rightarrow> tree_error + Node list" where
  "build_lines head headSize stack [] = Inr stack"
| "build_lines head headSize stack (line # lines) =
     bind_res (build_line head headSize stack line) (\<lambda>stack. build_lines head headSize stack lines)"

definition empty_root :: Node where
  "empty_root = Node [] ''root'' (- 1) 0 0 []"

definition BuildTree :: "(string \<Rightarrow> int option) \<Rightarrow> string \<Rightarrow> bool \<Rightarrow> tree_error + Node" where
  "BuildTree head text headSize =
     bind_res (build_lines head headSize [empty_root] (split_on (CHR 0x0A) text))
       (\<lambda>stack. Inr (hd (pop_stack 0 stack)))"

definition splitPath :: "string \<Rightarrow> string list" where
  "splitPath path =
     (if path = ''/'' then [''root'']
      else ''root'' # tl (split_on (CHR ''/'') (trim_suffix path ''/'')))"

definition GetNodeFromRootByPath :: "Node option \<Rightarrow> string \<Rightarrow> Node option" where
  "GetNodeFromRootByPath root path = (case root of None \<Rightarrow> None | Some r \<Rightarrow> getByPath (splitPath path) r)"

record Obj =
  ObjName :: string
  ObjSize :: int
  ObjModified :: int
  ObjIsFolder :: bool
  ObjPath :: string

definition nodeToObj :: "Node \<Rightarrow> string \<Rightarrow> Obj" where
  "nodeToObj node path = \<lparr>ObjName = Name node, ObjSize = Size node, ObjModified = Modified node,
     ObjIsFolder = (\<not> isFile node), ObjPath = path\<rparr>"

section \<open>Printing\<close>

definition file_text :: "Node \<Rightarrow> string" where
  "file_text node =
     (if Size node = 0 \<and> Modified node = 0 then
        (if path_base (Url node) = Name node then Url node else Name node @ '':'' @ Url node)
      else Name node @ '':'' @ format_int (Size node) @ '':'' @
        (if Modified node \<noteq> 0 then format_int (Modified node) @ '':'' else []) @ Url node)"

definition indent :: "int \<Rightarrow> string" where
  "indent level = replicate (2 * nat level) (CHR '' '')"

fun StringifyTree :: "Node \<Rightarrow> string" where
  "StringifyTree (Node u n l m s cs) =
     (if l = - 1 then join_with [CHR 0x0A] (map StringifyTree cs)
      else indent l @
        (if u = [] then n @ '':'' @ concat (map (\<lambda>c. CHR 0x0A # StringifyTree c) cs)
         else file_text (Node u n l m s cs)))"

section \<open>The driver (driver.go)\<close>

record Urls =
  UrlStructure :: string
  HeadSize :: bool
  Writable :: bool
  root :: "Node option"

datatype driver_error =
    PermissionDenied
  | ObjectNotFound
  | NotFolder
  | NotFile
  | CannotMoveIntoChild
  | CannotCopyIntoChild
  | TreeError tree_error

text \<open>A pointer into the tree is the list of child indices that leads to the node.\<close>

fun find_pos :: "string list \<Rightarrow> Node \<Rightarrow> nat list option" where
  "find_pos [] node = None"
| "find_pos (p # ps) node =
     (if Name node \<noteq> p then None
      else if ps = [] then Some []
      else first_some (\<lambda>(i, c). map_option ((#) i) (find_pos ps c)) (enumerate 0 (Children node)))"

definition set_children :: "Node list \<Rightarrow> Node \<Rightarrow> Node" where
  "set_children cs n = Node (Url n) (Name n) (Level n) (Modified n) (Size n) cs"

fun node_at :: "nat list \<Rightarrow> Node \<Rightarrow> Node" where
  "node_at [] node = node"
| "node_at (i # is) node = node_at is (Children node ! i)"

fun update_at :: "nat list \<Rightarrow> (Node \<Rightarrow> Node) \<Rightarrow> Node \<Rightarrow> Node" where
  "update_at [] f node = f node"
| "update_at (i # is) f node = set_children ((Children node)[i := update_at is f (Children node ! i)]) node"

definition find_node :: "Urls \<Rightarrow> string \<Rightarrow> (Node \<times> nat list \<times> Node) option" where
  "find_node d path =
     (case root d of None \<Rightarrow> None | Some r \<Rightarrow>
        map_option (\<lambda>pos. (r, pos, node_at pos r)) (find_pos (splitPath path) r))"

definition updateStorage :: "Node \<Rightarrow> Urls \<Rightarrow> Urls" where
  "updateStorage r d = d\<lparr>root := Some r, UrlStructure := StringifyTree r\<rparr>"

definition Init :: "(string \<Rightarrow> int option) \<Rightarrow> Urls \<Rightarrow> driver_error option \<times> Urls" where
  "Init head d =
     (case BuildTree head (UrlStructure d) (HeadSize d) of
        Inl e \<Rightarrow> (Some (TreeError e), d)
      | Inr node \<Rightarrow> (None, d\<lparr>root := Some (calSize node)\<rparr>))"

definition Get :: "Urls \<Rightarrow> string \<Rightarrow> driver_error + Obj" where
  "Get d path =
     (case GetNodeFromRootByPath (root d) path of
        None \<Rightarrow> Inl ObjectNotFound
      | Some node \<Rightarrow> Inr (nodeToObj node path))"

definition List :: "Urls \<Rightarrow> string \<Rightarrow> driver_error + Obj list" where
  "List d dir =
     (case GetNodeFromRootByPath (root d) dir of
        None \<Rightarrow> Inl ObjectNotFound
      | Some node \<Rightarrow>
          if isFile node then Inl NotFolder
          else Inr (map (\<lambda>c. nodeToObj c (path_join [dir, Name c])) (Children node)))"

definition Link :: "Urls \<Rightarrow> string \<Rightarrow> driver_error + string" where
  "Link d path =
     (case GetNodeFromRootByPath (root d) path of
        None \<Rightarrow> Inl ObjectNotFound
      | Some node \<Rightarrow> if isFile node then Inr (Url node) else Inl NotFile)"

definition MakeDir :: "Urls \<Rightarrow> string \<Rightarrow> string \<Rightarrow> (driver_error + Obj) \<times> Urls" where
  "MakeDir d parentDir dirName =
     (if \<not> Writable d then (Inl PermissionDenied, d)
      else (case find_node d parentDir of
          None \<Rightarrow> (Inl ObjectNotFound, d)
        | Some (r, pos, node) \<Rightarrow>
            if isFile node then (Inl NotFolder, d)
            else (let dir = Node [] dirName (Level node + 1) 0 0 []
                  in (Inr (nodeToObj dir (path_join [parentDir, dirName])),
                      updateStorage (update_at pos (add_child dir) r) d))))"

text \<open>The two changes of \<open>Move\<close> in one pass: the children named \<open>srcName\<close> leave the node at the
  position \<open>src\<close>, and \<open>moved\<close> becomes the last child of the node at \<open>dst\<close>. Positions are those of
  the tree before the change, \<open>None\<close> outside the subtree.\<close>

definition below :: "nat \<Rightarrow> nat list option \<Rightarrow> nat list option" where
  "below i pos = (case pos of Some (j # ps) \<Rightarrow> if i = j then Some ps else None | _ \<Rightarrow> None)"

lemma set_zip_right [termination_simp]: "(i, c) \<in> set (zip is cs) \<Longrightarrow> size (c :: Node) < Suc (size_list size cs)"
  by (metis set_zip_rightD size_list_estimation lessI less_Suc_eq less_not_refl not_less_eq)

fun move_at :: "nat list option \<Rightarrow> nat list option \<Rightarrow> string \<Rightarrow> Node \<Rightarrow> Node \<Rightarrow> Node" where
  "move_at dst src srcName moved (Node u n l m s cs) =
     (let cs1 = map (\<lambda>(i, c). move_at (below i dst) (below i src) srcName moved c) (zip [0..<length cs] cs);
          cs2 = (if src = Some [] then filter (\<lambda>c. Name c \<noteq> srcName) cs1 else cs1);
          cs3 = (if dst = Some [] then cs2 @ [moved] else cs2)
      in Node u n l m s cs3)"

definition Move :: "Urls \<Rightarrow> string \<Rightarrow> string \<Rightarrow> (driver_error + Obj) \<times> Urls" where
  "Move d srcObj dstDir =
     (if \<not> Writable d then (Inl PermissionDenied, d)
      else if has_prefix dstDir srcObj then (Inl CannotMoveIntoChild, d)
      else (case find_node d dstDir of
          None \<Rightarrow> (Inl NotFolder, d)
        | Some (r, dstPos, dstNode) \<Rightarrow>
            if isFile dstNode then (Inl NotFolder, d)
            else (case path_split srcObj of (srcDir, srcName) \<Rightarrow>
              (case find_node d srcDir of
                 None \<Rightarrow> (Inl ObjectNotFound, d)
               | Some (_, srcPos, srcParent) \<Rightarrow>
                   (case find (\<lambda>c. Name c = srcName) (rev (Children srcParent)) of
                      None \<Rightarrow> (Inl ObjectNotFound, d)
                    | Some srcNode \<Rightarrow>
                        (let srcNode = setLevel (Level dstNode + 1) srcNode;
                             r = calSize (move_at (Some dstPos) (Some srcPos) srcName srcNode r)
                         in (Inr (nodeToObj (calSize srcNode) (path_join [dstDir, srcName])), updateStorage r d)))))))"

definition Rename :: "Urls \<Rightarrow> string \<Rightarrow> string \<Rightarrow> (driver_error + Obj) \<times> Urls" where
  "Rename d srcObj newName =
     (if \<not> Writable d then (Inl PermissionDenied, d)
      else (case find_node d srcObj of
          None \<Rightarrow> (Inl ObjectNotFound, d)
        | Some (r, pos, node) \<Rightarrow>
            (let rename = (\<lambda>n. Node (Url n) newName (Level n) (Modified n) (Size n) (Children n))
             in (Inr (nodeToObj (rename node) (path_join [path_dir srcObj, newName])),
                 updateStorage (update_at pos rename r) d))))"

definition Copy :: "Urls \<Rightarrow> string \<Rightarrow> string \<Rightarrow> (driver_error + Obj) \<times> Urls" where
  "Copy d srcObj dstDir =
     (if \<not> Writable d then (Inl PermissionDenied, d)
      else if has_prefix dstDir srcObj then (Inl CannotCopyIntoChild, d)
      else (case find_node d dstDir of
          None \<Rightarrow> (Inl NotFolder, d)
        | Some (r, dstPos, dstNode) \<Rightarrow>
            if isFile dstNode then (Inl NotFolder, d)
            else (case find_node d srcObj of
                 None \<Rightarrow> (Inl ObjectNotFound, d)
               | Some (_, _, srcNode) \<Rightarrow>
                   (let newNode = deepCopy (Level dstNode + 1) srcNode;
                        r = calSize (update_at dstPos (add_child newNode) r)
                    in (Inr (nodeToObj (calSize newNode) (path_join [dstDir, path_base srcObj])), updateStorage r d)))))"

definition Remove :: "Urls \<Rightarrow> string \<Rightarrow> driver_error option \<times> Urls" where
  "Remove d obj =
     (if \<not> Writable d then (Some PermissionDenied, d)
      else (case path_split obj of (objDir, objName) \<Rightarrow>
        (case find_node d objDir of
           None \<Rightarrow> (Some ObjectNotFound, d)
         | Some (r, pos, parent) \<Rightarrow>
             (case find (\<lambda>c. Name c = objName) (rev (Children parent)) of
                None \<Rightarrow> (Some ObjectNotFound, d)
              | Some deleted \<Rightarrow>
                  (let r = update_at pos (\<lambda>n. set_children (filter (\<lambda>c. Name c \<noteq> objName) (Children n)) n) r;
                       r = (if Size deleted > 0 then calSize r else r)
                   in (None, updateStorage r d))))))"

definition PutURL :: "(string \<Rightarrow> int option) \<Rightarrow> Urls \<Rightarrow> string \<Rightarrow> string \<Rightarrow> string \<Rightarrow> (driver_error + Obj) \<times> Urls" where
  "PutURL head d dstDir nam url =
     (if \<not> Writable d then (Inl PermissionDenied, d)
      else (case find_node d dstDir of
          None \<Rightarrow> (Inl NotFolder, d)
        | Some (r, pos, dirNode) \<Rightarrow>
            if isFile dirNode then (Inl NotFolder, d)
            else (let measured = (if HeadSize d then head url else None);
                      newNode = Node url nam (Level dirNode + 1) 0 (case measured of Some sz \<Rightarrow> sz | None \<Rightarrow> 0) [];
                      r = update_at pos (add_child newNode) r;
                      r = (if measured \<noteq> None then calSize r else r)
                  in (Inr (nodeToObj (if measured \<noteq> None then calSize newNode else newNode) (path_join [dstDir, nam])),
                      updateStorage r d))))"

text \<open>\<open>Put\<close> leaves the level of the new node at zero.\<close>

definition Put :: "(string \<Rightarrow> int option) \<Rightarrow> Urls \<Rightarrow> string \<Rightarrow> string \<Rightarrow> driver_error option \<times> Urls" where
  "Put head d dstDir streamName =
     (if \<not> Writable d then (Some PermissionDenied, d)
      else (case find_node d dstDir of
          None \<Rightarrow> (Some ObjectNotFound, d)
        | Some (r, pos, node) \<Rightarrow>
            if isFile node then (Some NotFolder, d)
            else (case parseFileLine head streamName (HeadSize d) of
                Inl e \<Rightarrow> (Some (TreeError e), d)
              | Inr f \<Rightarrow> (None, updateStorage (update_at pos (add_child f) r) d))))"

end
