(* ===== verification/Url_Tree_Text.thy ===== *)
theory Url_Tree_Text
  imports Url_Tree
begin

text \<open>
  The text format of the URL tree driver: printing a tree and parsing the text gives the tree back.
  The trees concerned are those whose levels match their depth and whose names and URLs survive
  the line format; every write operation of the driver relies on it, since the driver stores the
  printed tree and parses it again at the next start.
\<close>

section \<open>Printable trees\<close>

definition unpadded :: "string \<Rightarrow> bool" where
  "unpadded s \<longleftrightarrow> trim_space s = s"

definition url_ok :: "string \<Rightarrow> bool" where
  "url_ok u \<longleftrightarrow> (prefix ''http://'' u \<or> prefix ''https://'' u \<and> \<not> contains u ''http://'') \<and>
     \<not> suffix '':'' u \<and> CHR 0x0A \<notin> set u"

text \<open>A name that is written out must not contain a separator; a name that is the last segment of the
  URL is not written when there is nothing else to write.\<close>

definition file_ok :: "Node \<Rightarrow> bool" where
  "file_ok f \<longleftrightarrow> url_ok (Url f) \<and> int64_range (Size f) \<and> int64_range (Modified f) \<and> Children f = [] \<and>
     unpadded (file_text f) \<and>
     (Size f = 0 \<and> Modified f = 0 \<and> path_base (Url f) = Name f \<or>
      Name f \<noteq> [] \<and> CHR '':'' \<notin> set (Name f) \<and> CHR ''/'' \<notin> set (Name f) \<and> CHR 0x0A \<notin> set (Name f))"

definition folder_ok :: "Node \<Rightarrow> bool" where
  "folder_ok f \<longleftrightarrow> unpadded (Name f @ '':'') \<and> CHR 0x0A \<notin> set (Name f) \<and> Modified f = 0"

fun node_ok :: "int \<Rightarrow> Node \<Rightarrow> bool" where
  "node_ok l (Node u n lv m s cs) \<longleftrightarrow> lv = l \<and>
     (if u = [] then folder_ok (Node u n lv m s cs) \<and> (\<forall>c \<in> set cs. node_ok (l + 1) c)
      else file_ok (Node u n lv m s cs))"

definition tree_ok :: "Node \<Rightarrow> bool" where
  "tree_ok r \<longleftrightarrow> Url r = [] \<and> Name r = ''root'' \<and> Level r = - 1 \<and> Modified r = 0 \<and>
     (\<forall>c \<in> set (Children r). node_ok 0 c)"

text \<open>The text does not carry the sizes of folders.\<close>

fun strip :: "Node \<Rightarrow> Node" where
  "strip (Node u n l m s cs) = (if u = [] then Node u n l m 0 (map strip cs) else Node u n l m s cs)"

lemma calSize_strip: "calSize (strip t) = calSize t"
  by (induction t) (simp add: comp_def cong: map_cong)

section \<open>White space\<close>

lemma trim_left_seqs_length: "length (trim_left_seqs n seqs s) \<le> length s"
proof (induction n arbitrary: s)
  case (Suc n)
  show ?case
  proof (cases "find (\<lambda>q. prefix q s) seqs")
    case (Some q)
    have "length (trim_left_seqs n seqs (drop (length q) s)) \<le> length (drop (length q) s)" by (rule Suc)
    then show ?thesis using Some by simp
  qed simp
qed simp

lemma unpadded_hd:
  assumes "unpadded s" "s \<noteq> []" shows "hd s \<noteq> CHR '' ''"
proof
  assume sp: "hd s = CHR '' ''"
  obtain n where n: "length s = Suc n" using assms(2) by (cases s) auto
  have "prefix [CHR 0x20] s" using sp assms(2) by (cases s) auto
  then have "find (\<lambda>q. prefix q s) space_runes \<noteq> None"
    by (simp add: find_None_iff space_runes_def)
  then obtain q where q: "find (\<lambda>q. prefix q s) space_runes = Some q" by blast
  then have "q \<in> set space_runes" by (metis find_Some_iff nth_mem)
  then have "q \<noteq> []" by (auto simp: space_runes_def)
  have "length (trim_left_seqs (length s) space_runes s) < length s"
    using q n \<open>q \<noteq> []\<close> trim_left_seqs_length [of n space_runes "drop (length q) s"] by (cases q) auto
  moreover have "length (trim_space s) \<le> length (trim_left_seqs (length s) space_runes s)"
    using trim_left_seqs_length [of _ "map rev space_runes"] by (simp add: trim_space_def Let_def) (metis length_rev)
  ultimately show False using assms(1) by (simp add: unpadded_def)
qed

section \<open>File lines\<close>

lemma index_str_skip:
  "(\<And>a b. info = a @ b \<Longrightarrow> b \<noteq> [] \<Longrightarrow> \<not> prefix sub (b @ u)) \<Longrightarrow>
     index_str sub (info @ u) = map_option ((+) (length info)) (index_str sub u)"
proof (induction info)
  case Nil
  then show ?case by (simp add: option.map_ident)
next
  case (Cons c info)
  have "\<not> prefix sub (c # info @ u)" using Cons.prems [of "[]" "c # info"] by simp
  moreover have "index_str sub (info @ u) = map_option ((+) (length info)) (index_str sub u)"
    using Cons.prems by (intro Cons.IH) (metis append_Cons)
  ultimately show ?case by (simp add: option.map_comp comp_def)
qed

lemma no_early_match:
  assumes "CHR ''/'' \<notin> set b" "b \<noteq> []" "\<And>k. k < length h \<Longrightarrow> k < length u \<Longrightarrow> u ! k \<noteq> CHR ''/''"
  shows "\<not> prefix (h @ ''//'') (b @ u)"
proof
  assume "prefix (h @ ''//'') (b @ u)"
  then obtain t where t: "b @ u = h @ CHR ''/'' # CHR ''/'' # t" by (auto simp: prefix_def)
  then have slash: "(b @ u) ! length h = CHR ''/''" by simp
  have len: "length h < length (b @ u)" using t by (metis length_append less_add_same_cancel1 length_greater_0_conv list.distinct(1))
  show False
  proof (cases "length h < length b")
    case True
    then show False using slash assms(1) nth_mem [of "length h" b] by (simp add: nth_append)
  next
    case False
    have "0 < length b" "length h < length b + length u" using assms(2) len by simp_all
    then have "length h - length b < length h" "length h - length b < length u" using False by linarith+
    moreover have "u ! (length h - length b) = CHR ''/''" using False slash by (simp add: nth_append)
    ultimately show False using assms(3) by blast
  qed
qed

lemma url_index:
  assumes "url_ok u" "CHR ''/'' \<notin> set info"
  shows "(case index_str ''http://'' (info @ u) of Some i \<Rightarrow> Some i | None \<Rightarrow> index_str ''https://'' (info @ u)) =
    Some (length info)"
proof -
  have skip: "index_str (h @ ''//'') (info @ u) = map_option ((+) (length info)) (index_str (h @ ''//'') u)"
    if "\<And>k. k < length h \<Longrightarrow> k < length u \<Longrightarrow> u ! k \<noteq> CHR ''/''" for h
    using that assms(2) by (intro index_str_skip no_early_match) auto
  consider (http) t where "u = ''http://'' @ t"
    | (https) t where "u = ''https://'' @ t" "index_str ''http://'' u = None"
    using assms(1) by (auto simp: url_ok_def prefix_def contains_def)
  then show ?thesis
  proof cases
    case http
    have "index_str (''http:'' @ ''//'') (info @ u) = map_option ((+) (length info)) (index_str (''http:'' @ ''//'') u)"
      by (rule skip) (auto simp: http nth_Cons' )
    then show ?thesis by (simp add: http)
  next
    case https
    have "index_str (''http:'' @ ''//'') (info @ u) = map_option ((+) (length info)) (index_str (''http:'' @ ''//'') u)"
      by (rule skip) (auto simp: https(1) nth_Cons')
    moreover have "index_str (''https:'' @ ''//'') (info @ u) = map_option ((+) (length info)) (index_str (''https:'' @ ''//'') u)"
      by (rule skip) (auto simp: https(1) nth_Cons')
    ultimately show ?thesis using https(2) by (simp add: https(1))
  qed
qed

lemma format_int_no_sep: "CHR '':'' \<notin> set (format_int i)" "CHR ''/'' \<notin> set (format_int i)" "CHR 0x0A \<notin> set (format_int i)"
  using format_int_chars by (force simp: is_digit_def)+

text \<open>The fields before the URL, as written.\<close>

definition info_parts :: "Node \<Rightarrow> string list" where
  "info_parts f =
     (if Size f = 0 \<and> Modified f = 0 then [Name f]
      else [Name f, format_int (Size f)] @ (if Modified f \<noteq> 0 then [format_int (Modified f)] else []))"

lemma file_text_parts:
  "\<not> (Size f = 0 \<and> Modified f = 0 \<and> path_base (Url f) = Name f) \<Longrightarrow>
     file_text f = (join_with '':'' (info_parts f) @ '':'') @ Url f"
  by (auto simp: file_text_def info_parts_def)

lemma info_parts_ok:
  assumes "Name f \<noteq> []" "CHR '':'' \<notin> set (Name f)" "CHR ''/'' \<notin> set (Name f)" "CHR 0x0A \<notin> set (Name f)"
  shows "info_parts f \<noteq> []" "\<forall>p \<in> set (info_parts f). CHR '':'' \<notin> set p" "join_with '':'' (info_parts f) \<noteq> []"
    "CHR ''/'' \<notin> set (join_with '':'' (info_parts f) @ '':'')" "CHR 0x0A \<notin> set (join_with '':'' (info_parts f))"
  using assms format_int_no_sep by (auto simp: info_parts_def)

lemma parse_info_parts:
  assumes "Name f \<noteq> []" "CHR '':'' \<notin> set (Name f)" "CHR ''/'' \<notin> set (Name f)" "CHR 0x0A \<notin> set (Name f)"
    and "int64_range (Size f)" "int64_range (Modified f)"
  shows "parse_info line (join_with '':'' (info_parts f) @ '':'') =
    Inr (Name f, Size f, Modified f, \<not> (Size f = 0 \<and> Modified f = 0))"
proof -
  note ok = info_parts_ok [OF assms(1-4)]
  have split: "split_on (CHR '':'') (join_with '':'' (info_parts f)) = info_parts f"
    by (rule split_on_join [OF ok(1,2)])
  have "parse_info line (join_with '':'' (info_parts f) @ '':'') =
      (if length (info_parts f) > 1 then
            (case ParseInt (info_parts f ! 1) of
               (_, Some _) \<Rightarrow> Inl (SizeNotInteger line)
             | (sz, None) \<Rightarrow>
                 if length (info_parts f) > 2 then
                   (case ParseInt (info_parts f ! 2) of
                      (_, Some _) \<Rightarrow> Inl (ModifiedNotTimestamp line)
                    | (modified, None) \<Rightarrow> Inr (info_parts f ! 0, sz, modified, True))
                 else Inr (info_parts f ! 0, sz, 0, True))
          else Inr (info_parts f ! 0, 0, 0, False))"
    using ok(3) split by (simp add: parse_info_def has_suffix_def suffix_def Let_def)
  then show ?thesis using parse_int_format [OF assms(5)] parse_int_format [OF assms(6)]
    by (auto simp: info_parts_def)
qed

text \<open>A link that is stored without a size is measured when the tree is read, if the driver is set so.\<close>

fun measured :: "(string \<Rightarrow> int option) \<Rightarrow> bool \<Rightarrow> Node \<Rightarrow> Node" where
  "measured head headSize (Node u n l m s cs) =
     (if u = [] then Node u n l m s (map (measured head headSize) cs)
      else Node u n l m (case head u of Some k \<Rightarrow> if headSize \<and> s = 0 \<and> m = 0 then k else s | None \<Rightarrow> s) cs)"

lemma measured_False [simp]: "measured head False t = t"
  by (induction t) (simp add: map_idI split: option.split)

lemma measured_size:
  "Url f \<noteq> [] \<Longrightarrow> Size (measured head hs f) =
     (if Size f = 0 \<and> Modified f = 0 \<and> hs then (case head (Url f) of Some k \<Rightarrow> k | None \<Rightarrow> 0) else Size f)"
  by (cases f) (simp split: option.split)

lemma parseFileLine_text:
  assumes "file_ok f"
  shows "parseFileLine head (file_text f) hs = Inr (Node (Url f) (Name f) 0 (Modified f) (Size (measured head hs f)) [])"
proof (cases "Size f = 0 \<and> Modified f = 0 \<and> path_base (Url f) = Name f")
  case True
  then have "file_text f = Url f" by (simp add: file_text_def)
  moreover have "(case index_str ''http://'' (Url f) of Some i \<Rightarrow> Some i | None \<Rightarrow> index_str ''https://'' (Url f)) = Some 0"
    using url_index [of "Url f" "[]", unfolded append_Nil] assms by (simp add: file_ok_def)
  moreover have "Url f \<noteq> []" using assms by (auto simp: file_ok_def url_ok_def)
  ultimately show ?thesis using True by (simp add: parseFileLine_def measured_size Let_def)
next
  case False
  let ?info = "join_with '':'' (info_parts f) @ '':''"
  have nam: "Name f \<noteq> []" "CHR '':'' \<notin> set (Name f)" "CHR ''/'' \<notin> set (Name f)" "CHR 0x0A \<notin> set (Name f)"
    using assms False by (auto simp: file_ok_def)
  have eq: "file_text f = ?info @ Url f" by (rule file_text_parts [OF False])
  have "(case index_str ''http://'' (file_text f) of Some i \<Rightarrow> Some i | None \<Rightarrow> index_str ''https://'' (file_text f)) = Some (length ?info)"
    unfolding eq using assms info_parts_ok(4) [OF nam] by (intro url_index) (simp_all add: file_ok_def)
  moreover have "parse_info (file_text f) ?info = Inr (Name f, Size f, Modified f, \<not> (Size f = 0 \<and> Modified f = 0))"
    using parse_info_parts [OF nam] assms by (simp add: file_ok_def)
  moreover have "Url f \<noteq> []" using assms by (auto simp: file_ok_def url_ok_def)
  ultimately show ?thesis by (simp add: parseFileLine_def measured_size Let_def) (simp add: eq)
qed

lemma file_text_line:
  assumes "file_ok f" shows "file_text f \<noteq> []" "\<not> isFolder (file_text f)" "CHR 0x0A \<notin> set (file_text f)"
proof -
  have u: "Url f \<noteq> []" "\<not> suffix '':'' (Url f)" "CHR 0x0A \<notin> set (Url f)"
    using assms by (auto simp: file_ok_def url_ok_def)
  obtain pre where pre: "file_text f = pre @ Url f" "CHR 0x0A \<notin> set pre"
  proof (cases "Size f = 0 \<and> Modified f = 0 \<and> path_base (Url f) = Name f")
    case True
    then have "file_text f = [] @ Url f" by (simp add: file_text_def)
    then show ?thesis using that by auto
  next
    case False
    then have "CHR 0x0A \<notin> set (join_with '':'' (info_parts f) @ '':'')"
      using assms info_parts_ok(5) [of f] by (auto simp: file_ok_def)
    then show ?thesis using that file_text_parts [OF False] by blast
  qed
  show "file_text f \<noteq> []" "CHR 0x0A \<notin> set (file_text f)" using u pre by auto
  show "\<not> isFolder (file_text f)"
  proof
    assume "isFolder (file_text f)"
    then have "last (file_text f) = CHR '':''" by (auto simp: isFolder_def has_suffix_def suffix_def)
    then have "last (Url f) = CHR '':''" using pre(1) u(1) by simp
    then have "Url f = butlast (Url f) @ '':''" using u(1) by (metis append_butlast_last_id)
    then show False using u(2) unfolding suffix_def by metis
  qed
qed

section \<open>Lines of a tree\<close>

fun tree_lines :: "Node \<Rightarrow> string list" where
  "tree_lines (Node u n l m s cs) =
     (indent l @ (if u = [] then n @ '':'' else file_text (Node u n l m s cs))) #
     (if u = [] then concat (map tree_lines cs) else [])"

lemma tree_lines_not_Nil [simp]: "tree_lines t \<noteq> []"
  by (cases t) simp

lemma join_lines_concat:
  "(\<And>c. c \<in> set cs \<Longrightarrow> f c \<noteq> []) \<Longrightarrow>
     concat (map (\<lambda>c. nl # join_with [nl] (f c)) cs) =
       (if cs = [] then [] else nl # join_with [nl] (concat (map f cs)))"
proof (induction cs)
  case (Cons c cs)
  then show ?case by (cases cs) (simp_all add: join_with_append)
qed simp

lemma StringifyTree_lines: "node_ok l t \<Longrightarrow> 0 \<le> l \<Longrightarrow> StringifyTree t = join_with [CHR 0x0A] (tree_lines t)"
proof (induction t arbitrary: l)
  case (Node u n lv m s cs)
  show ?case
  proof (cases "u = []")
    case True
    have "map (\<lambda>c. CHR 0x0A # StringifyTree c) cs = map (\<lambda>c. CHR 0x0A # join_with [CHR 0x0A] (tree_lines c)) cs"
      using Node True by (intro map_cong [OF refl]) auto
    then have "concat (map (\<lambda>c. CHR 0x0A # StringifyTree c) cs) =
        concat (map (\<lambda>c. CHR 0x0A # join_with [CHR 0x0A] (tree_lines c)) cs)"
      by (rule arg_cong)
    also have "\<dots> = (if cs = [] then [] else CHR 0x0A # join_with [CHR 0x0A] (concat (map tree_lines cs)))"
      by (rule join_lines_concat) simp
    finally have "concat (map (\<lambda>c. CHR 0x0A # StringifyTree c) cs) =
        (if cs = [] then [] else CHR 0x0A # join_with [CHR 0x0A] (concat (map tree_lines cs)))" .
    moreover have "cs \<noteq> [] \<Longrightarrow> concat (map tree_lines cs) \<noteq> []" by (cases cs) auto
    ultimately show ?thesis using Node.prems True by (auto simp: join_with_Cons)
  next
    case False
    then show ?thesis using Node.prems by simp
  qed
qed

lemma tree_lines_no_newline:
  "node_ok l t \<Longrightarrow> line \<in> set (tree_lines t) \<Longrightarrow> CHR 0x0A \<notin> set line"
proof (induction t arbitrary: l)
  case (Node u n lv m s cs)
  have "CHR 0x0A \<notin> set (indent lv)" by (simp add: indent_def)
  then show ?case using Node file_text_line(3) [of "Node u n lv m s cs"]
    by (cases "u = []") (auto simp: folder_ok_def)
qed

section \<open>The stack\<close>

definition stack_ok :: "Node list \<Rightarrow> bool" where
  "stack_ok st \<longleftrightarrow> st \<noteq> [] \<and> Level (last st) < 0"

lemma Level_add_child [simp]: "Level (add_child c p) = Level p"
  by (simp add: add_child_def)

lemma stack_ok_pop: "stack_ok (t # p # rest) \<Longrightarrow> stack_ok (add_child t p # rest)"
  by (cases rest) (simp_all add: stack_ok_def)

lemma pop_stack_ok: "stack_ok st \<Longrightarrow> 0 \<le> l \<Longrightarrow> stack_ok (pop_stack l st) \<and> Level (hd (pop_stack l st)) < l"
proof (induction l st rule: pop_stack.induct)
  case (1 l t p rest)
  then show ?case using stack_ok_pop by auto
qed (simp_all add: stack_ok_def)

lemma pop_stack_id: "Level (hd st) < l \<Longrightarrow> pop_stack l st = st"
  by (cases "(l, st)" rule: pop_stack.cases) auto

lemma pop_stack_pop: "l \<le> l' \<Longrightarrow> pop_stack l (pop_stack l' st) = pop_stack l st"
  by (induction l' st rule: pop_stack.induct) auto

lemma push_child_ok: "stack_ok st \<Longrightarrow> stack_ok (push_child c st)"
  by (auto simp: stack_ok_def push_child_def split: list.splits)

lemma push_child_hd: "st \<noteq> [] \<Longrightarrow> Level (hd (push_child c st)) = Level (hd st)"
  by (auto simp: push_child_def split: list.splits)

lemma build_line_text:
  assumes "unpadded body" "body \<noteq> []" "0 \<le> l"
  shows "build_line head headSize st (indent l @ body) =
    (if isFolder body then Inr (Node [] (trim_suffix body '':'') l 0 0 [] # pop_stack l st)
     else bind_res (parseFileLine head body headSize) (\<lambda>node.
       Inr (push_child (Node (Url node) (Name node) l (Modified node) (Size node) (Children node)) (pop_stack l st))))"
proof -
  have "takeWhile (\<lambda>c. c = CHR '' '') (indent l @ body) = indent l"
    using unpadded_hd [OF assms(1,2)] assms(2) by (cases body) (auto simp: indent_def takeWhile_append)
  then have "length (takeWhile (\<lambda>c. c = CHR '' '') (indent l @ body)) = 2 * nat l" by (simp add: indent_def)
  moreover have "drop (2 * nat l) (indent l @ body) = body" by (simp add: indent_def)
  ultimately show ?thesis using assms by (simp add: build_line_def unpadded_def Let_def)
qed

lemma build_lines_append:
  "build_lines head hs st (xs @ ys) = bind_res (build_lines head hs st xs) (\<lambda>st. build_lines head hs st ys)"
proof (induction xs arbitrary: st)
  case (Cons x xs)
  then show ?case by (cases "build_line head hs st x") simp_all
qed simp

text \<open>The lines of a node are read as: pop to the level of the node, then add the node as a child.\<close>

definition reads_as :: "(string \<Rightarrow> int option) \<Rightarrow> bool \<Rightarrow> int \<Rightarrow> string list \<Rightarrow> Node list \<Rightarrow> bool" where
  "reads_as head hs l ls ts \<longleftrightarrow> (\<forall>st. stack_ok st \<longrightarrow> (\<exists>st'. build_lines head hs st ls = Inr st' \<and> stack_ok st' \<and>
     pop_stack l st' = foldl (\<lambda>st t. push_child t st) (pop_stack l st) ts))"

lemma reads_as_Nil: "reads_as head hs l [] []"
  by (simp add: reads_as_def)

lemma reads_as_append:
  assumes "reads_as head hs l xs ts" "reads_as head hs l ys us" shows "reads_as head hs l (xs @ ys) (ts @ us)"
  unfolding reads_as_def
proof (intro allI impI)
  fix st assume "stack_ok st"
  then obtain st1 where st1: "build_lines head hs st xs = Inr st1" "stack_ok st1"
      "pop_stack l st1 = foldl (\<lambda>st t. push_child t st) (pop_stack l st) ts"
    using assms(1) unfolding reads_as_def by blast
  then obtain st2 where "build_lines head hs st1 ys = Inr st2" "stack_ok st2"
      "pop_stack l st2 = foldl (\<lambda>st t. push_child t st) (pop_stack l st1) us"
    using assms(2) unfolding reads_as_def by blast
  then show "\<exists>st'. build_lines head hs st (xs @ ys) = Inr st' \<and> stack_ok st' \<and>
      pop_stack l st' = foldl (\<lambda>st t. push_child t st) (pop_stack l st) (ts @ us)"
    using st1 by (simp add: build_lines_append)
qed

lemma reads_as_concat:
  "(\<And>t. t \<in> set ts \<Longrightarrow> reads_as head hs l (f t) [g t]) \<Longrightarrow> reads_as head hs l (concat (map f ts)) (map g ts)"
proof (induction ts)
  case (Cons t ts)
  have "reads_as head hs l (f t @ concat (map f ts)) ([g t] @ map g ts)"
    using Cons by (intro reads_as_append) simp_all
  then show ?case by simp
qed (simp add: reads_as_Nil)

lemma foldl_push_child:
  "foldl (\<lambda>st t. push_child t st) (Node u n l m s cs # rest) ts = Node u n l m s (cs @ ts) # rest"
  by (induction ts arbitrary: cs) (simp_all add: push_child_def add_child_def)

lemma reads_as_folder:
  assumes "folder_ok (Node [] n l m s cs)" "0 \<le> l" "reads_as head hs (l + 1) ls ts"
  shows "reads_as head hs l ((indent l @ n @ '':'') # ls) [Node [] n l m 0 ts]"
  unfolding reads_as_def
proof (intro allI impI)
  fix st assume st: "stack_ok st"
  let ?st1 = "Node [] n l 0 0 [] # pop_stack l st"
  have pop: "stack_ok (pop_stack l st)" "Level (hd (pop_stack l st)) < l" using pop_stack_ok [OF st assms(2)] by auto
  have line: "build_line head hs st (indent l @ (n @ '':'')) = Inr ?st1"
    using assms(1,2) by (subst build_line_text) (simp_all add: folder_ok_def isFolder_def has_suffix_def trim_suffix_def)
  have "stack_ok ?st1" using pop(1) by (simp add: stack_ok_def)
  then obtain st' where st': "build_lines head hs ?st1 ls = Inr st'" "stack_ok st'"
      "pop_stack (l + 1) st' = foldl (\<lambda>st t. push_child t st) (pop_stack (l + 1) ?st1) ts"
    using assms(3) unfolding reads_as_def by blast
  have "pop_stack l st' = pop_stack l (pop_stack (l + 1) st')" by (simp add: pop_stack_pop)
  also have "\<dots> = pop_stack l (Node [] n l 0 0 ts # pop_stack l st)"
    by (simp add: st'(3) pop_stack_id foldl_push_child)
  also have "\<dots> = push_child (Node [] n l 0 0 ts) (pop_stack l st)"
  proof (cases "pop_stack l st")
    case Nil
    then show ?thesis using pop(1) by (simp add: stack_ok_def)
  next
    case (Cons p rest)
    then show ?thesis using pop(2) by (simp add: pop_stack_id push_child_def)
  qed
  finally show "\<exists>st'. build_lines head hs st ((indent l @ n @ '':'') # ls) = Inr st' \<and> stack_ok st' \<and>
      pop_stack l st' = foldl (\<lambda>st t. push_child t st) (pop_stack l st) [Node [] n l m 0 ts]"
    using line st'(1,2) assms(1) by (simp add: folder_ok_def)
qed

lemma reads_as_file:
  assumes "file_ok (Node u n l m s cs)" "0 \<le> l"
  shows "reads_as head hs l [indent l @ file_text (Node u n l m s cs)] [measured head hs (Node u n l m s cs)]"
  unfolding reads_as_def
proof (intro allI impI)
  fix st assume st: "stack_ok st"
  let ?f = "Node u n l m s cs"
  have pop: "stack_ok (pop_stack l st)" "Level (hd (pop_stack l st)) < l" using pop_stack_ok [OF st assms(2)] by auto
  let ?g = "measured head hs ?f"
  have "unpadded (file_text ?f)" "cs = []" "u \<noteq> []" using assms(1) by (auto simp: file_ok_def url_ok_def)
  then have "build_line head hs st (indent l @ file_text ?f) = Inr (push_child ?g (pop_stack l st))"
    using file_text_line [OF assms(1)] parseFileLine_text [OF assms(1), of head hs] assms(2)
    by (simp add: build_line_text)
  moreover have "pop_stack l (push_child ?g (pop_stack l st)) = push_child ?g (pop_stack l st)"
    using pop by (intro pop_stack_id) (simp add: push_child_hd stack_ok_def)
  ultimately show "\<exists>st'. build_lines head hs st [indent l @ file_text ?f] = Inr st' \<and> stack_ok st' \<and>
      pop_stack l st' = foldl (\<lambda>st t. push_child t st) (pop_stack l st) [?g]"
    using push_child_ok [OF pop(1)] by simp
qed

lemma reads_as_node: "node_ok l t \<Longrightarrow> 0 \<le> l \<Longrightarrow> reads_as head hs l (tree_lines t) [strip (measured head hs t)]"
proof (induction t arbitrary: l)
  case (Node u n lv m s cs)
  show ?case
  proof (cases "u = []")
    case True
    have "reads_as head hs (l + 1) (concat (map tree_lines cs)) (map (\<lambda>c. strip (measured head hs c)) cs)"
      using Node True by (intro reads_as_concat) auto
    then show ?thesis using True Node.prems reads_as_folder [of n l m s cs head hs "concat (map tree_lines cs)" "map (\<lambda>c. strip (measured head hs c)) cs"]
      by (auto simp: comp_def)
  next
    case False
    then show ?thesis using Node.prems reads_as_file [of u n l m s cs head hs] by auto
  qed
qed

lemma join_with_join:
  "(\<And>c. c \<in> set cs \<Longrightarrow> f c \<noteq> []) \<Longrightarrow>
     join_with sep (map (\<lambda>c. join_with sep (f c)) cs) = join_with sep (concat (map f cs))"
proof (induction cs)
  case (Cons c cs)
  then show ?case by (cases cs) (simp_all add: join_with_append)
qed simp

lemma StringifyTree_root:
  assumes "tree_ok r" shows "StringifyTree r = join_with [CHR 0x0A] (concat (map tree_lines (Children r)))"
proof (cases r)
  case (Node u n l m s cs)
  have "map StringifyTree cs = map (\<lambda>c. join_with [CHR 0x0A] (tree_lines c)) cs"
    using assms Node by (intro map_cong [OF refl]) (auto simp: tree_ok_def intro: StringifyTree_lines)
  then show ?thesis using assms Node join_with_join [of cs tree_lines "[CHR 0x0A]"]
    by (simp add: tree_ok_def del: map_eq_conv)
qed

lemma split_tree_text:
  assumes "tree_ok r" "Children r \<noteq> []"
  shows "split_on (CHR 0x0A) (StringifyTree r) = concat (map tree_lines (Children r))"
  unfolding StringifyTree_root [OF assms(1)]
proof (rule split_on_join)
  show "concat (map tree_lines (Children r)) \<noteq> []" using assms(2) by (cases "Children r") simp_all
  show "\<forall>p \<in> set (concat (map tree_lines (Children r))). CHR 0x0A \<notin> set p"
    using assms(1) tree_lines_no_newline by (fastforce simp: tree_ok_def)
qed

lemma strip_root:
  "tree_ok r \<Longrightarrow> strip (measured head hs r) = Node [] ''root'' (- 1) 0 0 (map (\<lambda>c. strip (measured head hs c)) (Children r))"
  by (cases r) (simp add: tree_ok_def)

lemma BuildTree_StringifyTree:
  assumes "tree_ok r" shows "BuildTree head (StringifyTree r) hs = Inr (strip (measured head hs r))"
proof (cases "Children r = []")
  case True
  then have "StringifyTree r = []" by (simp add: StringifyTree_root [OF assms])
  then show ?thesis using True
    by (simp add: strip_root [OF assms] BuildTree_def build_line_def trim_space_def empty_root_def)
next
  case False
  let ?ts = "map (\<lambda>c. strip (measured head hs c)) (Children r)"
  have "reads_as head hs 0 (concat (map tree_lines (Children r))) ?ts"
    using assms by (intro reads_as_concat reads_as_node) (simp_all add: tree_ok_def)
  moreover have "stack_ok [empty_root]" by (simp add: stack_ok_def empty_root_def)
  ultimately obtain st where st: "build_lines head hs [empty_root] (concat (map tree_lines (Children r))) = Inr st"
      "pop_stack 0 st = foldl (\<lambda>st t. push_child t st) (pop_stack 0 [empty_root]) ?ts"
    unfolding reads_as_def by blast
  then have "pop_stack 0 st = [strip (measured head hs r)]" by (simp add: empty_root_def foldl_push_child strip_root [OF assms])
  then show ?thesis using st(1) by (simp add: BuildTree_def split_tree_text [OF assms False])
qed

end
