(* ===== verification/Url_Tree_Ops.thy ===== *)
theory Url_Tree_Ops
  imports Url_Tree_Text
begin

text \<open>
  The operations of the URL tree driver. Every write that succeeds leaves a tree whose levels match
  its depth and whose text is the printed tree, so that a restart finds the same tree (except after
  \<open>Put\<close>, which forgets the level of the new node); a link that was added is found by its path, and
  what was removed is not.
\<close>

section \<open>Positions\<close>

fun valid_pos :: "nat list \<Rightarrow> Node \<Rightarrow> bool" where
  "valid_pos [] n \<longleftrightarrow> True"
| "valid_pos (i # ks) n \<longleftrightarrow> i < length (Children n) \<and> valid_pos ks (Children n ! i)"

lemma first_some_Some: "first_some f xs = Some y \<Longrightarrow> \<exists>x \<in> set xs. f x = Some y"
  by (induction xs) (auto split: option.splits)

lemma first_some_map: "first_some f (map g xs) = first_some (\<lambda>x. f (g x)) xs"
  by (induction xs) (simp_all split: option.split)

lemma map_option_first_some: "map_option h (first_some f xs) = first_some (\<lambda>x. map_option h (f x)) xs"
  by (induction xs) (auto split: option.split)

lemma first_some_append:
  "first_some f (xs @ ys) = (case first_some f xs of Some y \<Rightarrow> Some y | None \<Rightarrow> first_some f ys)"
  by (induction xs) (simp_all split: option.split)

lemma first_some_enumerate: "first_some (\<lambda>(i, c). f c) (enumerate k xs) = first_some f xs"
  by (induction xs arbitrary: k) (simp_all split: option.split)

lemma find_pos_valid: "find_pos ps n = Some pos \<Longrightarrow> valid_pos pos n"
proof (induction ps arbitrary: n pos)
  case (Cons p ps)
  show ?case
  proof (cases "ps = []")
    case False
    then have "first_some (\<lambda>(i, c). map_option ((#) i) (find_pos ps c)) (enumerate 0 (Children n)) = Some pos"
      using Cons.prems by (simp split: if_splits)
    then obtain i c ks where "(i, c) \<in> set (enumerate 0 (Children n))" "find_pos ps c = Some ks" "pos = i # ks"
      by (auto dest: first_some_Some)
    then show ?thesis using Cons.IH by (auto simp: in_set_enumerate_eq)
  qed (use Cons.prems in \<open>simp split: if_splits\<close>)
qed simp

text \<open>The lookup that returns a node and the one that returns its position agree.\<close>

lemma getByPath_find_pos: "getByPath ps n = map_option (\<lambda>pos. node_at pos n) (find_pos ps n)"
proof (induction ps arbitrary: n)
  case (Cons p ps)
  have "first_some (getByPath ps) (Children n) =
      first_some (\<lambda>(i, c). getByPath ps c) (enumerate 0 (Children n))"
    by (rule first_some_enumerate [symmetric])
  also have "\<dots> = first_some (\<lambda>(i, c). map_option (\<lambda>pos. node_at pos n) (map_option ((#) i) (find_pos ps c))) (enumerate 0 (Children n))"
    by (rule first_some_cong) (auto simp: Cons.IH option.map_comp comp_def in_set_enumerate_eq)
  finally show ?case by (simp add: map_option_first_some case_prod_unfold)
qed simp

lemma find_node_iff:
  "find_node d path = Some (r, pos, n) \<longleftrightarrow>
     root d = Some r \<and> find_pos (splitPath path) r = Some pos \<and> n = node_at pos r"
  by (auto simp: find_node_def split: option.splits)

section \<open>Levels\<close>

lemma node_ok_simps:
  "node_ok l t \<longleftrightarrow> Level t = l \<and>
     (if Url t = [] then folder_ok t \<and> (\<forall>c \<in> set (Children t). node_ok (l + 1) c) else file_ok t)"
  by (cases t) simp

lemma tree_ok_iff: "tree_ok r \<longleftrightarrow> Url r = [] \<and> Name r = ''root'' \<and> node_ok (- 1) r"
proof -
  have "unpadded ''root:''" by code_simp
  then show ?thesis by (auto simp: tree_ok_def node_ok_simps [of "- 1"] folder_ok_def)
qed

lemma node_ok_children: "node_ok l t \<Longrightarrow> c \<in> set (Children t) \<Longrightarrow> node_ok (l + 1) c"
  by (subst (asm) node_ok_simps) (auto simp: file_ok_def split: if_splits)

lemma node_ok_at: "node_ok l t \<Longrightarrow> valid_pos pos t \<Longrightarrow> node_ok (l + int (length pos)) (node_at pos t)"
proof (induction pos arbitrary: l t)
  case (Cons i pos)
  have "node_ok (l + 1) (Children t ! i)" using Cons.prems node_ok_children by auto
  then show ?case using Cons.IH [of "l + 1" "Children t ! i"] Cons.prems by (simp add: add.assoc add.left_commute)
qed simp

lemma node_ok_set_children:
  "node_ok l t \<Longrightarrow> Url t = [] \<Longrightarrow> (\<And>c. c \<in> set cs \<Longrightarrow> node_ok (l + 1) c) \<Longrightarrow> node_ok l (set_children cs t)"
  by (cases t) (auto simp: set_children_def folder_ok_def)

lemma node_ok_filter: "node_ok l t \<Longrightarrow> node_ok l (set_children (filter P (Children t)) t)"
proof (cases "Url t = []")
  case False
  assume "node_ok l t"
  then have "Children t = []" using False by (cases t) (simp add: file_ok_def)
  then have "set_children (filter P (Children t)) t = t" by (cases t) (simp add: set_children_def)
  then show ?thesis using \<open>node_ok l t\<close> by simp
qed (auto intro!: node_ok_set_children dest: node_ok_children)

lemma node_ok_update_at:
  "node_ok l t \<Longrightarrow> valid_pos pos t \<Longrightarrow> node_ok (l + int (length pos)) (f (node_at pos t)) \<Longrightarrow>
     node_ok l (update_at pos f t)"
proof (induction pos arbitrary: l t)
  case (Cons i pos)
  have i: "i < length (Children t)" using Cons.prems by simp
  then have u: "Url t = []"
    using Cons.prems(1) by (subst (asm) node_ok_simps) (auto simp: file_ok_def split: if_splits)
  have "node_ok (l + 1) (update_at pos f (Children t ! i))"
    using Cons.prems i node_ok_children [OF Cons.prems(1)] by (intro Cons.IH) (simp_all add: ac_simps)
  then have "node_ok (l + 1) c" if "c \<in> set ((Children t)[i := update_at pos f (Children t ! i)])" for c
    using that node_ok_children [OF Cons.prems(1)] set_update_subset_insert by fastforce
  then show ?case using node_ok_set_children [OF Cons.prems(1) u] by simp
qed simp

lemma node_ok_calSize: "node_ok l t \<Longrightarrow> node_ok l (calSize t)"
  by (induction t arbitrary: l) (auto simp: Let_def folder_ok_def)

lemma node_ok_setLevel: "node_ok l t \<Longrightarrow> node_ok l' (setLevel l' t)"
proof (induction t arbitrary: l l')
  case (Node u n lv m s cs)
  then show ?case by (auto simp: folder_ok_def file_ok_def file_text_def split: if_splits)
qed

lemma file_ok_level: assumes "file_ok (Node u n l m s cs)" shows "file_ok (Node u n l' m s cs)"
proof -
  have "file_text (Node u n l' m s cs) = file_text (Node u n l m s cs)" by (simp add: file_text_def)
  then show ?thesis using assms by (auto simp: file_ok_def)
qed

lemma deepCopy_setLevel: "deepCopy l t = setLevel l t"
  by (induction t arbitrary: l) simp

lemma calSize_fields [simp]: "Url (calSize t) = Url t" "Name (calSize t) = Name t" "Level (calSize t) = Level t"
  by (cases t; simp add: Let_def)+

lemma update_at_fields:
  "pos \<noteq> [] \<Longrightarrow> Url (update_at pos f t) = Url t" "pos \<noteq> [] \<Longrightarrow> Name (update_at pos f t) = Name t"
  by (cases pos; simp add: set_children_def)+

lemma tree_ok_calSize: "tree_ok r \<Longrightarrow> tree_ok (calSize r)"
  by (simp add: tree_ok_iff node_ok_calSize)

text \<open>A change of one node keeps the tree printable if it keeps that node printable and does not
  change the name or the URL of the root.\<close>

lemma tree_ok_update_at:
  assumes "tree_ok r" "valid_pos pos r" "node_ok (Level (node_at pos r)) (f (node_at pos r))"
    and "pos = [] \<Longrightarrow> Url (f r) = [] \<and> Name (f r) = ''root''"
  shows "tree_ok (update_at pos f r)"
proof -
  have r: "node_ok (- 1) r" "Url r = []" "Name r = ''root''" using assms(1) by (auto simp: tree_ok_iff)
  have "node_ok (- 1 + int (length pos)) (f (node_at pos r))"
    using node_ok_at [OF r(1) assms(2)] assms(3) node_ok_simps by metis
  then have "node_ok (- 1) (update_at pos f r)" by (rule node_ok_update_at [OF r(1) assms(2)])
  moreover have "Url (update_at pos f r) = []" "Name (update_at pos f r) = ''root''"
    using assms(4) r by (cases "pos = []"; simp add: update_at_fields)+
  ultimately show ?thesis by (simp add: tree_ok_iff)
qed

lemma tree_ok_add_child:
  assumes "tree_ok r" "valid_pos pos r" "\<not> isFile (node_at pos r)" "node_ok (Level (node_at pos r) + 1) c"
  shows "tree_ok (update_at pos (add_child c) r)"
proof (rule tree_ok_update_at [OF assms(1,2)])
  let ?n = "node_at pos r"
  have ok: "node_ok (Level ?n) ?n" using node_ok_at [OF _ assms(2)] assms(1) node_ok_simps unfolding tree_ok_iff by metis
  have "node_ok (Level ?n) (set_children (Children ?n @ [c]) ?n)"
    using assms(3,4) ok node_ok_children [OF ok] by (intro node_ok_set_children) (auto simp: isFile_def)
  then show "node_ok (Level ?n) (add_child c ?n)" by (simp add: add_child_def set_children_def)
  show "Url (add_child c r) = [] \<and> Name (add_child c r) = ''root''" if "pos = []"
    using assms(1) by (simp add: add_child_def tree_ok_iff)
qed

lemma node_ok_move_at:
  "node_ok l t \<Longrightarrow>
     (\<And>p. dst = Some p \<Longrightarrow> valid_pos p t \<and> Url (node_at p t) = [] \<and> node_ok (l + int (length p) + 1) moved) \<Longrightarrow>
     node_ok l (move_at dst src srcName moved t)"
proof (induction t arbitrary: l dst src)
  case (Node u n lv m s cs)
  define cs1 where "cs1 = map (\<lambda>(i, c). move_at (below i dst) (below i src) srcName moved c) (zip [0..<length cs] cs)"
  show ?case
  proof (cases "u = []")
    case False
    then have "cs = []" using Node.prems(1) by (auto simp: file_ok_def)
    moreover have "dst \<noteq> Some []" using Node.prems(2) False by fastforce
    ultimately show ?thesis using Node.prems(1) False by auto
  next
    case True
    have "node_ok (l + 1) (move_at (below i dst) (below i src) srcName moved c)"
      if "(i, c) \<in> set (zip [0..<length cs] cs)" for i c
    proof (rule Node.IH)
      show mem: "c \<in> set cs" using that by (rule set_zip_rightD)
      show "node_ok (l + 1) c" using node_ok_children [OF Node.prems(1)] mem by simp
      fix p assume "below i dst = Some p"
      then have "dst = Some (i # p)" by (auto simp: below_def split: option.splits list.splits if_splits)
      moreover have "c = cs ! i" using that by (auto simp: in_set_zip)
      ultimately show "valid_pos p c \<and> Url (node_at p c) = [] \<and> node_ok (l + 1 + int (length p) + 1) moved"
        using Node.prems(2) [of "i # p"] by (simp add: ac_simps)
    qed
    then have "c \<in> set cs1 \<Longrightarrow> node_ok (l + 1) c" for c by (auto simp: cs1_def)
    moreover have "dst = Some [] \<Longrightarrow> node_ok (l + 1) moved" using Node.prems(2) [of "[]"] by simp
    ultimately show ?thesis using Node.prems(1) True
      by (auto simp: cs1_def [symmetric] Let_def folder_ok_def simp del: node_ok.simps simp: node_ok_simps [of l])
  qed
qed

lemma move_at_fields: "Url (move_at dst src srcName moved t) = Url t" "Name (move_at dst src srcName moved t) = Name t"
  by (cases t; simp add: Let_def)+

section \<open>Writes and restarts\<close>

text \<open>What every successful write leaves behind: a printable tree, and its text as the configuration.\<close>

definition synced :: "Urls \<Rightarrow> bool" where
  "synced d \<longleftrightarrow> (case root d of None \<Rightarrow> False | Some r \<Rightarrow> tree_ok r \<and> UrlStructure d = StringifyTree r)"

lemma synced_updateStorage [simp]: "synced (updateStorage r d) \<longleftrightarrow> tree_ok r"
  by (simp add: synced_def updateStorage_def)

lemma synced_find_node:
  assumes "synced d" "find_node d path = Some (r, pos, n)"
  shows "tree_ok r" "valid_pos pos r" "n = node_at pos r" "node_ok (Level n) n" "Level n = int (length pos) - 1"
proof -
  show *: "tree_ok r" "valid_pos pos r" "n = node_at pos r"
    using assms find_pos_valid by (auto simp: synced_def find_node_iff)
  then have ok: "node_ok (- 1 + int (length pos)) n" using node_ok_at [of "- 1" r pos] by (simp only: tree_ok_iff)
  then have lev: "- 1 + int (length pos) = Level n" using node_ok_simps by metis
  show "node_ok (Level n) n" using ok unfolding lev .
  show "Level n = int (length pos) - 1" using lev by simp
qed

datatype request =
    WMakeDir string string
  | WMove string string
  | WRename string string
  | WCopy string string
  | WRemove string
  | WPutURL string string string

fun exec :: "(string \<Rightarrow> int option) \<Rightarrow> request \<Rightarrow> Urls \<Rightarrow> Urls" where
  "exec head (WMakeDir parent nam) d = snd (MakeDir d parent nam)"
| "exec head (WMove src dst) d = snd (Move d src dst)"
| "exec head (WRename src nam) d = snd (Rename d src nam)"
| "exec head (WCopy src dst) d = snd (Copy d src dst)"
| "exec head (WRemove obj) d = snd (Remove d obj)"
| "exec head (WPutURL dst nam url) d = snd (PutURL head d dst nam url)"

text \<open>The names and URLs of a request must survive the line format, and the root keeps its name.\<close>

definition renamed :: "string \<Rightarrow> Node \<Rightarrow> Node" where
  "renamed nam n = Node (Url n) nam (Level n) (Modified n) (Size n) (Children n)"

definition put_size :: "(string \<Rightarrow> int option) \<Rightarrow> Urls \<Rightarrow> string \<Rightarrow> int" where
  "put_size head d url = (if HeadSize d then (case head url of Some n \<Rightarrow> n | None \<Rightarrow> 0) else 0)"

fun write_ok :: "(string \<Rightarrow> int option) \<Rightarrow> Urls \<Rightarrow> request \<Rightarrow> bool" where
  "write_ok head d (WMakeDir parent nam) \<longleftrightarrow> folder_ok (Node [] nam 0 0 0 [])"
| "write_ok head d (WRename src nam) \<longleftrightarrow>
     (case find_node d src of None \<Rightarrow> True | Some (r, pos, n) \<Rightarrow> pos \<noteq> [] \<and> node_ok (Level n) (renamed nam n))"
| "write_ok head d (WPutURL dst nam url) \<longleftrightarrow> file_ok (Node url nam 0 0 (put_size head d url) [])"
| "write_ok head d w \<longleftrightarrow> True"

lemma synced_MakeDir:
  assumes "synced d" "write_ok head d (WMakeDir parent nam)" shows "synced (snd (MakeDir d parent nam))"
proof (cases "find_node d parent")
  case (Some x)
  then obtain r pos n where x: "find_node d parent = Some (r, pos, n)" by (cases x) auto
  note ok = synced_find_node [OF assms(1) x]
  have "tree_ok (update_at pos (add_child (Node [] nam (Level n + 1) 0 0 [])) r)" if "\<not> isFile n"
    using that ok assms(2) by (intro tree_ok_add_child) (simp_all add: folder_ok_def)
  then show ?thesis using assms(1) x by (simp add: MakeDir_def Let_def)
qed (use assms in \<open>simp add: MakeDir_def\<close>)

lemma synced_Rename:
  assumes "synced d" "write_ok head d (WRename src nam)" shows "synced (snd (Rename d src nam))"
proof (cases "find_node d src")
  case (Some x)
  then obtain r pos n where x: "find_node d src = Some (r, pos, n)" by (cases x) auto
  note ok = synced_find_node [OF assms(1) x]
  have "tree_ok (update_at pos (renamed nam) r)"
    using assms(2) x ok(3) by (intro tree_ok_update_at ok(1,2)) simp_all
  then show ?thesis using assms(1) x by (simp add: Rename_def Let_def renamed_def [abs_def])
qed (use assms in \<open>simp add: Rename_def\<close>)

lemma synced_PutURL:
  assumes "synced d" "write_ok head d (WPutURL dst nam url)" shows "synced (snd (PutURL head d dst nam url))"
proof (cases "find_node d dst")
  case (Some x)
  then obtain r pos n where x: "find_node d dst = Some (r, pos, n)" by (cases x) auto
  note ok = synced_find_node [OF assms(1) x]
  let ?new = "Node url nam (Level n + 1) 0 (put_size head d url) []"
  have "url \<noteq> []" using assms(2) by (auto simp: file_ok_def url_ok_def)
  then have "node_ok (Level n + 1) ?new" using assms(2) file_ok_level by simp
  then have "tree_ok (update_at pos (add_child ?new) r)" if "\<not> isFile n"
    using that ok(1-3) by (intro tree_ok_add_child) (simp_all del: node_ok.simps)
  then show ?thesis using assms(1) x tree_ok_calSize
    by (cases "HeadSize d"; cases "head url"; cases "isFile n") (simp_all add: PutURL_def Let_def put_size_def)
qed (use assms in \<open>simp add: PutURL_def\<close>)

lemma synced_Copy: assumes "synced d" shows "synced (snd (Copy d src dst))"
proof (cases "find_node d dst")
  case (Some x)
  then obtain r pos n where x: "find_node d dst = Some (r, pos, n)" by (cases x) auto
  note ok = synced_find_node [OF assms(1) x]
  have "tree_ok (update_at pos (add_child (deepCopy (Level n + 1) t)) r)"
    if "\<not> isFile n" "find_node d src = Some (r', pos', t)" for r' pos' t
    using that ok synced_find_node(4) [OF assms that(2)]
    by (intro tree_ok_add_child) (auto simp: deepCopy_setLevel intro: node_ok_setLevel)
  then show ?thesis using assms(1) x tree_ok_calSize by (auto simp: Copy_def Let_def split: option.splits)
qed (use assms in \<open>simp add: Copy_def\<close>)

lemma find_mem: "find P xs = Some x \<Longrightarrow> x \<in> set xs"
  by (auto simp: find_Some_iff)

lemma synced_Move: assumes "synced d" shows "synced (snd (Move d src dst))"
proof (cases "find_node d dst")
  case (Some x)
  then obtain r pos n where x: "find_node d dst = Some (r, pos, n)" by (cases x) auto
  note ok = synced_find_node [OF assms(1) x]
  have "tree_ok (move_at (Some pos) (Some pos') srcName (setLevel (Level n + 1) t) r)"
    if nofile: "\<not> isFile n" and par: "find_node d srcDir = Some (r', pos', p)" 
      and t: "find (\<lambda>c. Name c = srcName) (rev (Children p)) = Some t" for r' pos' p t srcDir srcName
  proof -
    have "t \<in> set (Children p)" using t find_mem by fastforce
    then have "node_ok (Level p + 1) t" by (rule node_ok_children [OF synced_find_node(4) [OF assms par]])
    then have "node_ok (Level n + 1) (setLevel (Level n + 1) t)" by (rule node_ok_setLevel)
    then have "node_ok (- 1) (move_at (Some pos) (Some pos') srcName (setLevel (Level n + 1) t) r)"
      using ok nofile by (intro node_ok_move_at) (auto simp: tree_ok_iff isFile_def)
    then show ?thesis using ok(1) by (simp add: tree_ok_iff move_at_fields)
  qed
  then show ?thesis using assms(1) x tree_ok_calSize
    by (simp add: Move_def Let_def split: option.splits prod.splits)
qed (use assms in \<open>simp add: Move_def\<close>)

lemma synced_Remove: assumes "synced d" shows "synced (snd (Remove d obj))"
proof -
  have *: "tree_ok (update_at pos (\<lambda>n. set_children (filter P (Children n)) n) r)"
    if x: "find_node d path = Some (r, pos, n)" for path r pos n P
  proof (rule tree_ok_update_at)
    note ok = synced_find_node [OF assms x]
    show "tree_ok r" "valid_pos pos r" using ok by auto
    show "node_ok (Level (node_at pos r)) (set_children (filter P (Children (node_at pos r))) (node_at pos r))"
      using ok(4) node_ok_filter unfolding ok(3) [symmetric] by blast
    show "pos = [] \<Longrightarrow> Url (set_children (filter P (Children r)) r) = [] \<and> Name (set_children (filter P (Children r)) r) = ''root''"
      using ok(1) by (simp add: set_children_def tree_ok_iff)
  qed
  show ?thesis using assms * tree_ok_calSize
    by (auto simp: Remove_def Let_def split: option.splits prod.splits)
qed

lemma synced_exec: "synced d \<Longrightarrow> write_ok head d w \<Longrightarrow> synced (exec head w d)"
  using synced_MakeDir synced_Rename synced_PutURL
  by (cases w) (auto simp: synced_Copy synced_Move synced_Remove)

fun exec_all :: "(string \<Rightarrow> int option) \<Rightarrow> request list \<Rightarrow> Urls \<Rightarrow> Urls" where
  "exec_all head [] d = d"
| "exec_all head (w # ws) d = exec_all head ws (exec head w d)"

fun requests_ok :: "(string \<Rightarrow> int option) \<Rightarrow> Urls \<Rightarrow> request list \<Rightarrow> bool" where
  "requests_ok head d [] \<longleftrightarrow> True"
| "requests_ok head d (w # ws) \<longleftrightarrow> write_ok head d w \<and> requests_ok head (exec head w d) ws"

lemma synced_exec_all: "synced d \<Longrightarrow> requests_ok head d ws \<Longrightarrow> synced (exec_all head ws d)"
  by (induction ws arbitrary: d) (simp_all add: synced_exec)

lemma HeadSize_exec [simp]: "HeadSize (exec head w d) = HeadSize d"
proof -
  have *: "HeadSize (updateStorage r e) = HeadSize e" for r e by (simp add: updateStorage_def)
  show ?thesis
    by (cases w) (auto simp: * MakeDir_def Move_def Rename_def Copy_def Remove_def PutURL_def Let_def
        split: option.splits prod.splits)
qed

lemma HeadSize_exec_all [simp]: "HeadSize (exec_all head ws d) = HeadSize d"
  by (induction ws arbitrary: d) simp_all

lemma Init_synced:
  assumes "synced d"
  shows "Init head d = (None, d\<lparr>root := map_option (\<lambda>r. calSize (measured head (HeadSize d) r)) (root d)\<rparr>)"
  using assms by (auto simp: synced_def Init_def BuildTree_StringifyTree calSize_strip split: option.splits)

text \<open>C12 (round trip over restarts): after any sequence of folder creations, moves, renames, copies, removals and links added by
  \<open>PutURL\<close> (not by \<open>Put\<close>) whose names and URLs survive the line format, the text in the configuration parses, and starting again
  from it gives the same tree with the folder sizes computed again. If the driver is set to measure links, those that were
  stored without size and time get the size that is measured at the start; otherwise every link keeps its size.\<close>

theorem restart_after_writes:
  assumes "synced d" "requests_ok head d ws"
  shows "Init head' (exec_all head ws d) =
    (None, (exec_all head ws d)\<lparr>root := map_option (\<lambda>r. calSize (measured head' (HeadSize d) r)) (root (exec_all head ws d))\<rparr>)"
  using Init_synced [OF synced_exec_all [OF assms]] by simp

text \<open>The driver started on an empty configuration.\<close>

definition fresh :: Urls where
  "fresh = \<lparr>UrlStructure = [], HeadSize = False, Writable = True, root = Some empty_root\<rparr>"

definition sample_requests :: "request list" where
  "sample_requests = [WMakeDir ''/'' ''a'', WPutURL ''/a'' ''x.mp4'' ''http://h/y'', WMakeDir ''/'' ''b'',
     WMove ''/a/x.mp4'' ''/b'', WCopy ''/b'' ''/a'', WRename ''/a/b'' ''c'', WRemove ''/b'']"

theorem restart_after_writes_witness:
  "Init (\<lambda>_. None) (exec_all (\<lambda>_. None) sample_requests fresh) =
     (None, (exec_all (\<lambda>_. None) sample_requests fresh)
        \<lparr>root := map_option calSize (root (exec_all (\<lambda>_. None) sample_requests fresh))\<rparr>)"
proof -
  have "synced fresh" "requests_ok (\<lambda>_. None) fresh sample_requests" "\<not> HeadSize fresh" by code_simp+
  then show ?thesis using restart_after_writes [of fresh "\<lambda>_. None" sample_requests "\<lambda>_. None"] by simp
qed

section \<open>The level of an uploaded link\<close>

text \<open>Put and restarts: \<open>Put\<close> forgets the level of the node it adds. A link put into a folder
  is found there at first, but it is printed without indentation, and after a restart it is in the
  root folder instead.\<close>

theorem Put_moves_to_root:
  "let d0 = snd (MakeDir fresh ''/'' ''a'');
       (result, d1) = Put (\<lambda>_. None) d0 ''/a'' ''x:http://h/y'';
       d2 = snd (Init (\<lambda>_. None) d1)
   in result = None \<and> Link d1 ''/a/x'' = Inr ''http://h/y'' \<and> Link d1 ''/x'' = Inl ObjectNotFound \<and>
      Link d2 ''/a/x'' = Inl ObjectNotFound \<and> Link d2 ''/x'' = Inr ''http://h/y''"
  by code_simp

section \<open>Lookups after writes\<close>

lemma splitPath_abs: "good_comps cs \<Longrightarrow> splitPath (abs_path cs) = ''root'' # cs"
proof (cases "cs = []")
  case False
  assume g: "good_comps cs"
  have "\<not> suffix ''/'' (abs_path cs)" using abs_path_suffix_slash [OF g] False by simp
  moreover have "abs_path cs \<noteq> ''/''" using abs_path_inject [of cs "[]"] g False by (auto simp: abs_path_def)
  ultimately show ?thesis using split_abs_path [OF g] False
    by (simp add: splitPath_def trim_suffix_def has_suffix_def)
qed (simp add: splitPath_def abs_path_def)

lemma Url_getByPath_calSize: "map_option Url (getByPath ps (calSize n)) = map_option Url (getByPath ps n)"
proof (induction ps arbitrary: n)
  case (Cons p ps)
  show ?case
  proof (cases "Url n = []")
    case True
    then have "Children (calSize n) = map calSize (Children n)" by (cases n) (simp add: Let_def)
    then show ?thesis by (simp add: first_some_map map_option_first_some Cons.IH)
  next
    case False
    then have "calSize n = n" by (cases n) simp
    then show ?thesis by simp
  qed
qed simp

lemma Link_Url:
  "Link d path = (case map_option Url (GetNodeFromRootByPath (root d) path) of
     None \<Rightarrow> Inl ObjectNotFound | Some u \<Rightarrow> if u \<noteq> [] then Inr u else Inl NotFile)"
  by (simp add: Link_def isFile_def split: option.split)

lemma first_some_None: "first_some f xs = None \<longleftrightarrow> (\<forall>x \<in> set xs. f x = None)"
  by (induction xs) (auto split: option.splits)

lemma first_some_at:
  "first_some f xs = Some y \<longleftrightarrow> (\<exists>i < length xs. f (xs ! i) = Some y \<and> (\<forall>j < i. f (xs ! j) = None))"
proof (induction xs)
  case (Cons x xs)
  then show ?case by (cases "f x") (simp_all add: Ex_less_Suc2 All_less_Suc2)
qed simp

lemma getByPath_prefix_None: "getByPath ps n = None \<Longrightarrow> ps \<noteq> [] \<Longrightarrow> getByPath (ps @ [x]) n = None"
proof (induction ps arbitrary: n)
  case (Cons p ps)
  then show ?case by (auto simp: first_some_None split: if_splits)
qed simp

text \<open>A node appended to the folder that a path finds is found by the longer path, when no sibling has its
  name: folders of the same name that come later in the tree do not hide it.\<close>

lemma getByPath_add_child:
  "find_pos ps r = Some pos \<Longrightarrow> Name c \<notin> Name ` set (Children (node_at pos r)) \<Longrightarrow>
     getByPath (ps @ [Name c]) (update_at pos (add_child c) r) = Some c"
proof (induction ps arbitrary: r pos)
  case (Cons p ps)
  have p: "Name r = p" using Cons.prems by (simp split: if_splits)
  show ?case
  proof (cases "ps = []")
    case True
    then have "pos = []" using Cons.prems by (simp split: if_splits)
    moreover have "first_some (getByPath [Name c]) (Children r) = None"
      using Cons.prems(2) \<open>pos = []\<close> by (auto simp: first_some_None) (metis imageI)
    ultimately show ?thesis using True p by (simp add: add_child_def first_some_append)
  next
    case False
    let ?f = "\<lambda>(i, c). map_option ((#) i) (find_pos ps c)"
    have "first_some ?f (enumerate 0 (Children r)) = Some pos" using Cons.prems False p by simp
    then obtain i where i: "i < length (Children r)" "?f (i, Children r ! i) = Some pos"
        "\<forall>j < i. find_pos ps (Children r ! j) = None"
      by (auto simp: first_some_at nth_enumerate_eq)
    then obtain ks where ks: "find_pos ps (Children r ! i) = Some ks" "pos = i # ks" by auto
    let ?cs = "(Children r)[i := update_at ks (add_child c) (Children r ! i)]"
    have "getByPath (ps @ [Name c]) (?cs ! i) = Some c"
      using Cons.IH [OF ks(1)] Cons.prems(2) ks(2) i(1) by simp
    moreover have "getByPath (ps @ [Name c]) (?cs ! j) = None" if "j < i" for j
      using that i(3) False getByPath_prefix_None [of ps "Children r ! j"] by (simp add: getByPath_find_pos)
    ultimately have "first_some (getByPath (ps @ [Name c])) ?cs = Some c"
      using i(1) by (auto simp: first_some_at)
    then show ?thesis using p ks(2) by (simp add: set_children_def)
  qed
qed simp

text \<open>Added links are found: a link added to a folder is returned for the folder's path extended by
  its name, whether or not the size was measured, unless the folder already has an entry of that name.\<close>

theorem PutURL_Link:
  assumes "PutURL head d (abs_path cs) nam url = (Inr obj, d')"
    and "good_comps (cs @ [nam])" "url \<noteq> []"
    and "\<And>n. GetNodeFromRootByPath (root d) (abs_path cs) = Some n \<Longrightarrow> nam \<notin> Name ` set (Children n)"
  shows "Link d' (abs_path (cs @ [nam])) = Inr url"
proof -
  obtain r pos n where x: "find_node d (abs_path cs) = Some (r, pos, n)" and w: "Writable d" "\<not> isFile n"
    using assms(1) by (auto simp: PutURL_def split: if_splits option.splits)
  have ps: "splitPath (abs_path cs) = ''root'' # cs" "splitPath (abs_path (cs @ [nam])) = (''root'' # cs) @ [nam]"
    using assms(2) splitPath_abs [of cs] splitPath_abs [of "cs @ [nam]"] by simp_all
  have pos: "find_pos (''root'' # cs) r = Some pos" "root d = Some r" "n = node_at pos r"
    using x ps(1) by (simp_all add: find_node_iff)
  have fresh: "nam \<notin> Name ` set (Children (node_at pos r))"
    using assms(4) pos ps(1) by (simp add: GetNodeFromRootByPath_def getByPath_find_pos)
  define new where "new = Node url nam (Level n + 1) 0 (put_size head d url) []"
  then have new: "Name new = nam" "Url new = url"
      "root d' = Some (update_at pos (add_child new) r) \<or> root d' = Some (calSize (update_at pos (add_child new) r))"
    using assms(1) x w by (auto simp: PutURL_def Let_def updateStorage_def put_size_def split: if_splits option.splits)
  have "getByPath (splitPath (abs_path (cs @ [nam]))) (update_at pos (add_child new) r) = Some new"
    using getByPath_add_child [OF pos(1), of new] fresh unfolding ps(2) new(1) by blast
  then have "map_option Url (GetNodeFromRootByPath (root d') (abs_path (cs @ [nam]))) = Some url"
    using new(2,3) Url_getByPath_calSize [of "splitPath (abs_path (cs @ [nam]))" "update_at pos (add_child new) r"]
    by (elim disjE) (simp_all only: GetNodeFromRootByPath_def option.simps)
  then show ?thesis using assms(3) by (auto simp: Link_Url)
qed

lemma PutURL_Link_witness:
  "Link (snd (PutURL (\<lambda>_. None) fresh (abs_path []) ''x'' ''http://h/y'')) (abs_path ([] @ [''x''])) = Inr ''http://h/y''"
proof (rule PutURL_Link)
  let ?obj = "nodeToObj (Node ''http://h/y'' ''x'' 0 0 0 []) ''/x''"
  show "PutURL (\<lambda>_. None) fresh (abs_path []) ''x'' ''http://h/y'' =
      (Inr ?obj, snd (PutURL (\<lambda>_. None) fresh (abs_path []) ''x'' ''http://h/y''))"
    by code_simp
  show "good_comps ([] @ [''x''])" by (simp add: good_comp_def)
  show "''http://h/y'' \<noteq> []" by simp
  show "''x'' \<notin> Name ` set (Children n)" if "GetNodeFromRootByPath (root fresh) (abs_path []) = Some n" for n
    using that by (auto simp: fresh_def empty_root_def GetNodeFromRootByPath_def splitPath_def abs_path_def)
qed

end
