(* ===== verification/Go_Heap.thy ===== *)
theory Go_Heap
  imports Go_Prelude "HOL-Library.Multiset"
begin

text \<open>
  The package \<open>container/heap\<close> of the Go library, as the lock system uses it: the four loops over
  an interface with \<open>Len\<close>, \<open>Less\<close>, \<open>Swap\<close>, \<open>Push\<close> and \<open>Pop\<close>. The locale states what an implementation
  of the interface promises, and the lemmas that heap order is kept are proved from it.
\<close>

section \<open>The operations\<close>

text \<open>\<open>(j - 1) / 2\<close> is zero for \<open>j = 0\<close> in Go as well.\<close>

fun heap_up :: "('s \<Rightarrow> nat \<Rightarrow> nat \<Rightarrow> bool) \<Rightarrow> (nat \<Rightarrow> nat \<Rightarrow> 's \<Rightarrow> 's) \<Rightarrow> nat \<Rightarrow> 's \<Rightarrow> 's" where
  "heap_up lt swap j s =
     (let i = (j - 1) div 2 in
        if i = j \<or> \<not> lt s j i then s else heap_up lt swap i (swap i j s))"

declare heap_up.simps [simp del]

function heap_down :: "('s \<Rightarrow> nat \<Rightarrow> nat \<Rightarrow> bool) \<Rightarrow> (nat \<Rightarrow> nat \<Rightarrow> 's \<Rightarrow> 's) \<Rightarrow> nat \<Rightarrow> nat \<Rightarrow> 's \<Rightarrow> nat \<times> 's" where
  "heap_down lt swap i n s =
     (let j1 = 2 * i + 1 in
        if j1 \<ge> n then (i, s)
        else (let j = (if j1 + 1 < n \<and> lt s (j1 + 1) j1 then j1 + 1 else j1) in
          if \<not> lt s j i then (i, s) else heap_down lt swap j n (swap i j s)))"
  by pat_completeness auto
termination
  by (relation "measure (\<lambda>(lt, swap, i, n, s). n - i)") auto

declare heap_down.simps [simp del]

definition heap_Push :: "('s \<Rightarrow> nat) \<Rightarrow> ('s \<Rightarrow> nat \<Rightarrow> nat \<Rightarrow> bool) \<Rightarrow> (nat \<Rightarrow> nat \<Rightarrow> 's \<Rightarrow> 's) \<Rightarrow> ('a \<Rightarrow> 's \<Rightarrow> 's) \<Rightarrow> 'a \<Rightarrow> 's \<Rightarrow> 's" where
  "heap_Push len lt swap push x s = (let s = push x s in heap_up lt swap (len s - 1) s)"

definition heap_Remove :: "('s \<Rightarrow> nat) \<Rightarrow> ('s \<Rightarrow> nat \<Rightarrow> nat \<Rightarrow> bool) \<Rightarrow> (nat \<Rightarrow> nat \<Rightarrow> 's \<Rightarrow> 's) \<Rightarrow> ('s \<Rightarrow> 's) \<Rightarrow> nat \<Rightarrow> 's \<Rightarrow> 's" where
  "heap_Remove len lt swap pop i s =
     (let n = len s - 1;
          s = (if n \<noteq> i then
                 (case heap_down lt swap i n (swap i n s) of
                    (i', s) \<Rightarrow> if i' > i then s else heap_up lt swap i s)
               else s)
      in pop s)"

section \<open>Heap order on lists\<close>

definition list_swap :: "nat \<Rightarrow> nat \<Rightarrow> 'a list \<Rightarrow> 'a list" where
  "list_swap i j xs = xs[i := xs ! j, j := xs ! i]"

lemma length_list_swap [simp]: "length (list_swap i j xs) = length xs"
  by (simp add: list_swap_def)

lemma nth_list_swap:
  "i < length xs \<Longrightarrow> j < length xs \<Longrightarrow> list_swap i j xs ! c = (if c = j then xs ! i else if c = i then xs ! j else xs ! c)"
  by (simp add: list_swap_def nth_list_update)

lemma mset_list_swap [simp]: "i < length xs \<Longrightarrow> j < length xs \<Longrightarrow> mset (list_swap i j xs) = mset xs"
  unfolding list_swap_def by (rule mset_swap)

definition parent :: "nat \<Rightarrow> nat" where
  "parent c = (c - 1) div 2"

lemma parent_iff: "0 < c \<Longrightarrow> parent c = i \<longleftrightarrow> c = 2 * i + 1 \<or> c = 2 * i + 2"
  unfolding parent_def by presburger

lemma parent_less: "0 < c \<Longrightarrow> parent c < c"
  by (simp add: parent_def)

text \<open>The order at one position, and everywhere but at some positions.\<close>

definition heap_at :: "('a \<Rightarrow> int) \<Rightarrow> 'a list \<Rightarrow> nat \<Rightarrow> bool" where
  "heap_at k xs c \<longleftrightarrow> k (xs ! parent c) \<le> k (xs ! c)"

definition heap_order :: "('a \<Rightarrow> int) \<Rightarrow> 'a list \<Rightarrow> nat \<Rightarrow> bool" where
  "heap_order k xs n \<longleftrightarrow> (\<forall>c. 0 < c \<longrightarrow> c < n \<longrightarrow> heap_at k xs c)"

definition above_children :: "('a \<Rightarrow> int) \<Rightarrow> 'a list \<Rightarrow> nat \<Rightarrow> nat \<Rightarrow> bool" where
  "above_children k xs n i \<longleftrightarrow> (0 < i \<longrightarrow> (\<forall>c. 0 < c \<longrightarrow> c < n \<longrightarrow> parent c = i \<longrightarrow> k (xs ! parent i) \<le> k (xs ! c)))"

definition order_but :: "('a \<Rightarrow> int) \<Rightarrow> 'a list \<Rightarrow> nat \<Rightarrow> nat \<Rightarrow> bool" where
  "order_but k xs n i \<longleftrightarrow> (\<forall>c. 0 < c \<longrightarrow> c < n \<longrightarrow> c \<noteq> i \<longrightarrow> heap_at k xs c)"

definition order_around :: "('a \<Rightarrow> int) \<Rightarrow> 'a list \<Rightarrow> nat \<Rightarrow> nat \<Rightarrow> bool" where
  "order_around k xs n i \<longleftrightarrow> (\<forall>c. 0 < c \<longrightarrow> c < n \<longrightarrow> c \<noteq> i \<longrightarrow> parent c \<noteq> i \<longrightarrow> heap_at k xs c)"

lemma heap_order_min:
  assumes "heap_order k xs n" "c < n" shows "k (xs ! 0) \<le> k (xs ! c)"
  using assms(2)
proof (induction c rule: less_induct)
  case (less c)
  show ?case
  proof (cases "c = 0")
    case False
    then have "k (xs ! 0) \<le> k (xs ! parent c)" using less parent_less [of c] by simp
    also have "\<dots> \<le> k (xs ! c)" using assms(1) less.prems False by (simp add: heap_order_def heap_at_def)
    finally show ?thesis .
  qed simp
qed

lemma up_step:
  assumes "order_but k xs n j" "above_children k xs n j" "0 < j" "j < n" "n \<le> length xs"
    and "k (xs ! j) < k (xs ! parent j)"
  shows "order_but k (list_swap (parent j) j xs) n (parent j)" "above_children k (list_swap (parent j) j xs) n (parent j)"
proof -
  let ?i = "parent j" and ?ys = "list_swap (parent j) j xs"
  have ij: "?i < j" using assms(3) by (rule parent_less)
  have nth: "?ys ! c = (if c = j then xs ! ?i else if c = ?i then xs ! j else xs ! c)" for c
    using ij assms(4,5) by (simp add: nth_list_swap)
  have ok: "k (xs ! parent c) \<le> k (xs ! c)" if "0 < c" "c < n" "c \<noteq> j" for c
    using assms(1) that by (simp add: order_but_def heap_at_def)
  have child: "k (xs ! ?i) \<le> k (xs ! c)" if "0 < c" "c < n" "parent c = j" for c
    using assms(2,3) that by (simp add: above_children_def)
  show "order_but k ?ys n ?i"
    unfolding order_but_def heap_at_def
  proof (intro allI impI)
    fix c assume c: "0 < c" "c < n" "c \<noteq> ?i"
    consider "c = j" | "c \<noteq> j" "parent c = j" | "c \<noteq> j" "parent c = ?i" | "c \<noteq> j" "parent c \<noteq> j" "parent c \<noteq> ?i" by blast
    then show "k (?ys ! parent c) \<le> k (?ys ! c)"
    proof cases
      case 1
      then show ?thesis using assms(6) ij by (simp add: nth)
    next
      case 2
      then show ?thesis using child c by (simp add: nth)
    next
      case 3
      then show ?thesis using ok [OF c(1,2)] assms(6) c(3) ij by (simp add: nth)
    next
      case 4
      then show ?thesis using ok c by (simp add: nth)
    qed
  qed
  show "above_children k ?ys n ?i"
    unfolding above_children_def
  proof (intro impI allI)
    fix c assume c: "0 < ?i" "0 < c" "c < n" "parent c = ?i"
    have i: "parent ?i < ?i" "k (xs ! parent ?i) \<le> k (xs ! ?i)" using c(1) parent_less ok ij assms(4) by auto
    show "k (?ys ! parent ?i) \<le> k (?ys ! c)"
    proof (cases "c = j")
      case True
      then show ?thesis using i ij by (simp add: nth)
    next
      case False
      have "k (xs ! ?i) \<le> k (xs ! c)" using ok [OF c(2,3) False] c(4) by simp
      moreover have "c \<noteq> ?i" using parent_less [OF c(2)] c(4) by simp
      ultimately show ?thesis using i ij False by (simp add: nth)
    qed
  qed
qed

lemma down_step:
  assumes "order_around k xs n i" "above_children k xs n i" "0 < j" "j < n" "parent j = i" "n \<le> length xs"
    and "k (xs ! j) < k (xs ! i)" "\<And>c. 0 < c \<Longrightarrow> c < n \<Longrightarrow> parent c = i \<Longrightarrow> k (xs ! j) \<le> k (xs ! c)"
  shows "order_around k (list_swap i j xs) n j" "above_children k (list_swap i j xs) n j" "heap_at k (list_swap i j xs) j"
proof -
  let ?ys = "list_swap i j xs"
  have ij: "i < j" using parent_less [OF assms(3)] assms(5) by simp
  have nth: "?ys ! c = (if c = j then xs ! i else if c = i then xs ! j else xs ! c)" for c
    using ij assms(4,6) by (simp add: nth_list_swap)
  have ok: "k (xs ! parent c) \<le> k (xs ! c)" if "0 < c" "c < n" "c \<noteq> i" "parent c \<noteq> i" for c
    using assms(1) that by (simp add: order_around_def heap_at_def)
  show "heap_at k ?ys j" using assms(5,7) ij by (simp add: heap_at_def nth)
  show "above_children k ?ys n j"
    unfolding above_children_def
  proof (intro impI allI)
    fix c assume c: "0 < c" "c < n" "parent c = j"
    have "c \<noteq> i" "c \<noteq> j" using parent_less [OF c(1)] c(3) ij by auto
    then show "k (?ys ! parent j) \<le> k (?ys ! c)" using ok [OF c(1,2)] c(3) assms(5) ij by (simp add: nth)
  qed
  show "order_around k ?ys n j"
    unfolding order_around_def heap_at_def
  proof (intro allI impI)
    fix c assume c: "0 < c" "c < n" "c \<noteq> j" "parent c \<noteq> j"
    consider "c = i" | "c \<noteq> i" "parent c = i" | "c \<noteq> i" "parent c \<noteq> i" by blast
    then show "k (?ys ! parent c) \<le> k (?ys ! c)"
    proof cases
      case 1
      then have "k (xs ! parent i) \<le> k (xs ! j)" using assms(2-5) c(1) by (simp add: above_children_def)
      then show ?thesis using 1 c ij parent_less [OF c(1)] by (simp add: nth)
    next
      case 2
      then show ?thesis using assms(8) [OF c(1,2)] c(3) ij by (simp add: nth)
    next
      case 3
      then show ?thesis using ok c by (simp add: nth)
    qed
  qed
qed

section \<open>The interface\<close>

text \<open>
  What an implementation of \<open>heap.Interface\<close> promises: the elements are a list, \<open>Less\<close> compares
  a key, \<open>Swap\<close>, \<open>Push\<close> and \<open>Pop\<close> change the list as their names say. The rest of the state, which the
  keys depend on, is \<open>core\<close>; \<open>valid\<close> is the representation invariant.
\<close>

locale heap_interface =
  fixes len :: "'s \<Rightarrow> nat" and lt :: "'s \<Rightarrow> nat \<Rightarrow> nat \<Rightarrow> bool" and swap :: "nat \<Rightarrow> nat \<Rightarrow> 's \<Rightarrow> 's"
    and push :: "'a \<Rightarrow> 's \<Rightarrow> 's" and pop :: "'s \<Rightarrow> 's"
    and elems :: "'s \<Rightarrow> 'a list" and core :: "'s \<Rightarrow> 'c" and key :: "'c \<Rightarrow> 'a \<Rightarrow> int"
    and valid :: "'s \<Rightarrow> bool" and member :: "'c \<Rightarrow> 'a \<Rightarrow> bool"
  assumes len_elems: "len s = length (elems s)"
    and lt_key: "valid s \<Longrightarrow> i < length (elems s) \<Longrightarrow> j < length (elems s) \<Longrightarrow>
      lt s i j \<longleftrightarrow> key (core s) (elems s ! i) < key (core s) (elems s ! j)"
    and swap_elems: "elems (swap i j s) = list_swap i j (elems s)"
    and swap_core: "core (swap i j s) = core s"
    and swap_valid: "valid s \<Longrightarrow> i < length (elems s) \<Longrightarrow> j < length (elems s) \<Longrightarrow> valid (swap i j s)"
    and push_elems: "elems (push x s) = elems s @ [x]"
    and push_core: "core (push x s) = core s"
    and push_valid: "valid s \<Longrightarrow> x \<notin> set (elems s) \<Longrightarrow> member (core s) x \<Longrightarrow> valid (push x s)"
    and pop_elems: "elems (pop s) = butlast (elems s)"
    and pop_core: "core (pop s) = core s"
    and pop_valid: "valid s \<Longrightarrow> valid (pop s)"
begin

definition ordered :: "'s \<Rightarrow> bool" where
  "ordered s \<longleftrightarrow> valid s \<and> heap_order (key (core s)) (elems s) (length (elems s))"

text \<open>Two states with the same elements, apart from their order, and the same core.\<close>

definition permuted :: "'s \<Rightarrow> 's \<Rightarrow> bool" where
  "permuted s s' \<longleftrightarrow> valid s' \<and> core s' = core s \<and> mset (elems s') = mset (elems s)"

lemma permuted_length: "permuted s s' \<Longrightarrow> length (elems s') = length (elems s)"
  unfolding permuted_def by (metis size_mset)

lemma permuted_swap:
  "valid s \<Longrightarrow> i < length (elems s) \<Longrightarrow> j < length (elems s) \<Longrightarrow> permuted s (swap i j s)"
  by (simp add: permuted_def swap_valid swap_core swap_elems)

lemma permuted_trans: "permuted s s' \<Longrightarrow> permuted s' s'' \<Longrightarrow> permuted s s''"
  by (simp add: permuted_def)

lemma up_correct:
  assumes "valid s" "n \<le> length (elems s)" "j < n"
    and "order_but (key (core s)) (elems s) n j" "above_children (key (core s)) (elems s) n j"
  shows "permuted s (heap_up lt swap j s) \<and> heap_order (key (core s)) (elems (heap_up lt swap j s)) n \<and>
    (\<forall>c \<ge> n. elems (heap_up lt swap j s) ! c = elems s ! c)"
  using assms
proof (induction j arbitrary: s rule: less_induct)
  case (less j)
  let ?i = "(j - 1) div 2" and ?k = "key (core s)"
  have i: "?i = parent j" "?i < length (elems s)" "j < length (elems s)"
    using less.prems by (auto simp: parent_def)
  show ?case
  proof (cases "?i = j \<or> \<not> lt s j ?i")
    case True
    then have "heap_up lt swap j s = s" by (simp add: heap_up.simps [of lt swap j])
    moreover have "0 < j \<Longrightarrow> heap_at ?k (elems s) j"
      using True lt_key [OF less.prems(1) i(3,2)] i(1) parent_less [of j] by (auto simp: heap_at_def)
    then have "heap_order ?k (elems s) n"
      using less.prems(4) unfolding heap_order_def order_but_def by metis
    ultimately show ?thesis using less.prems by (simp add: permuted_def)
  next
    case False
    then have j: "0 < j" "?k (elems s ! j) < ?k (elems s ! parent j)"
      using lt_key [OF less.prems(1) i(3,2)] i(1) by (auto intro: gr0I)
    let ?s = "swap (parent j) j s"
    have perm: "permuted s ?s" using less.prems(1) i by (intro permuted_swap) simp_all
    have "permuted ?s (heap_up lt swap (parent j) ?s) \<and>
        heap_order (key (core ?s)) (elems (heap_up lt swap (parent j) ?s)) n \<and>
        (\<forall>c \<ge> n. elems (heap_up lt swap (parent j) ?s) ! c = elems ?s ! c)"
    proof (rule less.IH)
      show "parent j < j" using parent_less j(1) by simp
      then show "parent j < n" using less.prems(3) by simp
      show "valid ?s" using perm by (simp add: permuted_def)
      show "n \<le> length (elems ?s)" using less.prems(2) by (simp add: swap_elems)
      show "order_but (key (core ?s)) (elems ?s) n (parent j)" "above_children (key (core ?s)) (elems ?s) n (parent j)"
        using up_step [OF less.prems(4,5) j(1) less.prems(3,2) j(2)] by (simp_all add: swap_elems swap_core)
    qed
    moreover have "heap_up lt swap j s = heap_up lt swap (parent j) ?s"
      using False i(1) by (simp add: heap_up.simps [of lt swap j] Let_def)
    moreover have "elems ?s ! c = elems s ! c" if "c \<ge> n" for c
      using that less.prems(3) parent_less [OF j(1)] i by (simp add: swap_elems nth_list_swap)
    ultimately show ?thesis using permuted_trans [OF perm] by (simp add: swap_core)
  qed
qed

lemma down_correct:
  assumes "valid s" "n \<le> length (elems s)" "i < n"
    and "order_around (key (core s)) (elems s) n i" "above_children (key (core s)) (elems s) n i"
    and "heap_down lt swap i n s = (i', s')"
  shows "permuted s s' \<and> (\<forall>c \<ge> n. elems s' ! c = elems s ! c) \<and>
    (if i' = i then s' = s \<and> order_but (key (core s)) (elems s) n i
     else i < i' \<and> heap_order (key (core s)) (elems s') n)"
  using assms
proof (induction "n - i" arbitrary: i s rule: less_induct)
  case less
  let ?j1 = "2 * i + 1" and ?k = "key (core s)"
  have stay: "permuted s s' \<and> (\<forall>c \<ge> n. elems s' ! c = elems s ! c) \<and>
      (if i' = i then s' = s \<and> order_but ?k (elems s) n i else i < i' \<and> heap_order ?k (elems s') n)"
    if "s' = s" "i' = i" "\<And>c. 0 < c \<Longrightarrow> c < n \<Longrightarrow> parent c = i \<Longrightarrow> ?k (elems s ! i) \<le> ?k (elems s ! c)"
    using that less.prems(1,4) unfolding order_but_def order_around_def heap_at_def permuted_def by auto
  show ?case
  proof (cases "?j1 \<ge> n")
    case True
    then have "i' = i" "s' = s" using less.prems(6) by (simp_all add: heap_down.simps [of lt swap i])
    then show ?thesis using True by (intro stay) (auto simp: parent_iff)
  next
    case False
    define j where "j = (if ?j1 + 1 < n \<and> lt s (?j1 + 1) ?j1 then ?j1 + 1 else ?j1)"
    have unfold: "heap_down lt swap i n s = (if \<not> lt s j i then (i, s) else heap_down lt swap j n (swap i j s))"
      using False unfolding heap_down.simps [of lt swap i n s] j_def Let_def by (simp only: if_False)
    have j: "0 < j" "j < n" "parent j = i" "i < j" "j < length (elems s)" "i < length (elems s)"
      using False less.prems(2,3) by (auto simp: j_def parent_def)
    have least: "?k (elems s ! j) \<le> ?k (elems s ! c)" if "0 < c" "c < n" "parent c = i" for c
      using that False less.prems(2) lt_key [OF less.prems(1), of "?j1 + 1" ?j1] by (auto simp: j_def parent_iff)
    show ?thesis
    proof (cases "lt s j i")
      case stop: False
      then have "?k (elems s ! i) \<le> ?k (elems s ! j)" using lt_key [OF less.prems(1) j(5,6)] by simp
      moreover have "i' = i" "s' = s" using less.prems(6) unfold stop by simp_all
      ultimately show ?thesis using least by (intro stay) (auto intro: order_trans)
    next
      case True
      let ?s = "swap i j s"
      have run: "heap_down lt swap j n ?s = (i', s')"
        using less.prems(6) unfold True by simp
      have "?k (elems s ! j) < ?k (elems s ! i)" using lt_key [OF less.prems(1) j(5,6)] True by simp
      note step = down_step [OF less.prems(4,5) j(1-3) less.prems(2) this least]
      have perm: "permuted s ?s" using less.prems(1) j by (intro permuted_swap) simp_all
      have same: "elems ?s ! c = elems s ! c" if "c \<ge> n" for c
        using that j by (simp add: swap_elems nth_list_swap)
      have "permuted ?s s' \<and> (\<forall>c \<ge> n. elems s' ! c = elems ?s ! c) \<and>
          (if i' = j then s' = ?s \<and> order_but (key (core ?s)) (elems ?s) n j
           else j < i' \<and> heap_order (key (core ?s)) (elems s') n)"
      proof (rule less.hyps)
        show "n - j < n - i" using j(2,4) by simp
        show "valid ?s" using perm by (simp add: permuted_def)
        show "n \<le> length (elems ?s)" using less.prems(2) by (simp add: swap_elems)
        show "j < n" by (rule j(2))
        show "order_around (key (core ?s)) (elems ?s) n j" "above_children (key (core ?s)) (elems ?s) n j"
          using step(1,2) by (simp_all only: swap_elems swap_core)
        show "heap_down lt swap j n ?s = (i', s')" by (rule run)
      qed
      moreover have "heap_order ?k (elems ?s) n" if "order_but (key (core ?s)) (elems ?s) n j"
        using that step(3) unfolding heap_order_def order_but_def swap_elems swap_core by metis
      ultimately show ?thesis using permuted_trans [OF perm] same j(4) by (auto simp: swap_core split: if_splits)
    qed
  qed
qed

theorem Push_correct:
  assumes "ordered s" "x \<notin> set (elems s)" "member (core s) x"
  defines "s' \<equiv> heap_Push len lt swap push x s"
  shows "ordered s'" "core s' = core s" "mset (elems s') = add_mset x (mset (elems s))"
proof -
  let ?s = "push x s" and ?n = "length (elems s)"
  have v: "valid ?s" using assms(1-3) by (simp add: ordered_def push_valid)
  have "heap_at (key (core s)) (elems s @ [x]) c \<longleftrightarrow> heap_at (key (core s)) (elems s) c" if "0 < c" "c < ?n" for c
    using that parent_less [of c] by (simp add: heap_at_def nth_append)
  then have "order_but (key (core ?s)) (elems ?s) (Suc ?n) ?n"
    using assms(1) by (auto simp: ordered_def heap_order_def order_but_def push_elems push_core less_Suc_eq)
  moreover have "above_children (key (core ?s)) (elems ?s) (Suc ?n) ?n"
    by (auto simp: above_children_def parent_iff)
  ultimately have "permuted ?s (heap_up lt swap ?n ?s) \<and> heap_order (key (core ?s)) (elems (heap_up lt swap ?n ?s)) (Suc ?n)"
    using up_correct [OF v, of "Suc ?n" ?n] by (simp add: push_elems)
  moreover have "s' = heap_up lt swap ?n ?s" by (simp add: s'_def heap_Push_def len_elems push_elems)
  ultimately show "ordered s'" "core s' = core s" "mset (elems s') = add_mset x (mset (elems s))"
    using permuted_length [of ?s s'] by (simp_all add: ordered_def permuted_def push_core push_elems)
qed

lemma pop_correct:
  assumes "valid s" "elems s \<noteq> []" "heap_order (key (core s)) (elems s) (length (elems s) - 1)"
  shows "ordered (pop s)" "core (pop s) = core s" "mset (elems (pop s)) = mset (elems s) - {#last (elems s)#}"
proof -
  have "heap_order (key (core s)) (butlast (elems s)) (length (elems s) - 1)"
    unfolding heap_order_def
  proof (intro allI impI)
    fix c assume c: "0 < c" "c < length (elems s) - 1"
    then have "parent c < length (elems s) - 1" using parent_less [OF c(1)] by simp
    then show "heap_at (key (core s)) (butlast (elems s)) c"
      using assms(3) c by (simp add: heap_order_def heap_at_def nth_butlast)
  qed
  then show "ordered (pop s)" using assms(1) by (simp add: ordered_def pop_valid pop_elems pop_core)
  have "mset (elems s) = add_mset (last (elems s)) (mset (butlast (elems s)))"
    using assms(2) by (metis append_butlast_last_id mset.simps mset_append add_mset_add_single)
  then show "mset (elems (pop s)) = mset (elems s) - {#last (elems s)#}" by (simp add: pop_elems)
qed (rule pop_core)

theorem Remove_correct:
  assumes "ordered s" "i < length (elems s)"
  defines "s' \<equiv> heap_Remove len lt swap pop i s"
  shows "ordered s'" "core s' = core s" "mset (elems s') = mset (elems s) - {#elems s ! i#}"
proof -
  define n where "n = length (elems s) - 1"
  then have len: "length (elems s) = Suc n" using assms(2) by simp
  let ?k = "key (core s)"
  have v: "valid s" "elems s \<noteq> []" using assms(1,2) by (auto simp: ordered_def)
  have ord: "heap_at ?k (elems s) c" if "0 < c" "c < length (elems s)" for c
    using assms(1) that by (simp add: ordered_def heap_order_def)
  have "\<exists>t. s' = pop t \<and> permuted s t \<and> heap_order ?k (elems t) n \<and> last (elems t) = elems s ! i"
  proof (cases "n = i")
    case True
    then have "s' = pop s" by (simp add: s'_def heap_Remove_def len_elems len Let_def)
    moreover have "heap_order ?k (elems s) n" using ord len by (simp add: heap_order_def)
    ultimately show ?thesis using v True len by (auto simp: permuted_def last_conv_nth)
  next
    case False
    then have n: "n < length (elems s)" "i < n" using assms(2) len by auto
    let ?s = "swap i n s"
    have perm: "permuted s ?s" using v(1) assms(2) n(1) by (rule permuted_swap)
    have nth: "elems ?s ! c = (if c = n then elems s ! i else if c = i then elems s ! n else elems s ! c)" for c
      using assms(2) n(1) by (simp add: swap_elems nth_list_swap)
    have around: "order_around (key (core ?s)) (elems ?s) n i"
      unfolding order_around_def
    proof (intro allI impI)
      fix c assume c: "0 < c" "c < n" "c \<noteq> i" "parent c \<noteq> i"
      then have "parent c < n" using parent_less [OF c(1)] by simp
      then show "heap_at (key (core ?s)) (elems ?s) c"
        using ord [of c] c len by (simp add: heap_at_def nth swap_core)
    qed
    have above: "above_children (key (core ?s)) (elems ?s) n i"
      unfolding above_children_def
    proof (intro impI allI)
      fix c assume c: "0 < i" "0 < c" "c < n" "parent c = i"
      have "parent i < i" "i < c" using parent_less [OF c(1)] parent_less [OF c(2)] c(4) by auto
      then show "key (core ?s) (elems ?s ! parent i) \<le> key (core ?s) (elems ?s ! c)"
        using ord [of i] ord [of c] c assms(2) n by (simp add: heap_at_def nth swap_core)
    qed
    obtain i' t where down: "heap_down lt swap i n ?s = (i', t)" by fastforce
    have vs: "valid ?s" "n \<le> length (elems ?s)" using perm permuted_length [OF perm] len by (simp_all add: permuted_def)
    note d = down_correct [OF vs n(2) around above down]
    let ?t = "if i' > i then t else heap_up lt swap i t"
    have "permuted ?s ?t \<and> heap_order (key (core ?s)) (elems ?t) n \<and> (\<forall>c \<ge> n. elems ?t ! c = elems ?s ! c)"
    proof (cases "i' = i")
      case True
      then show ?thesis using d up_correct [OF vs n(2) _ above] by simp
    next
      case False
      then show ?thesis using d by simp
    qed
    then have t: "permuted s ?t" "heap_order ?k (elems ?t) n" "elems ?t ! n = elems s ! i"
      using permuted_trans [OF perm] nth by (simp_all add: swap_core)
    have "s' = pop ?t" using down False by (simp add: s'_def heap_Remove_def len_elems len Let_def)
    moreover have "last (elems ?t) = elems s ! i"
      using t(3) permuted_length [OF t(1)] len by (metis diff_Suc_1 last_conv_nth length_0_conv nat.distinct(1))
    ultimately show ?thesis using t by blast
  qed
  then obtain t where t: "s' = pop t" "permuted s t" "heap_order ?k (elems t) n" "last (elems t) = elems s ! i" by blast
  have "valid t" "core t = core s" "mset (elems t) = mset (elems s)" "elems t \<noteq> []" "length (elems t) = length (elems s)"
    using t(2) v(2) permuted_length [OF t(2)] by (auto simp: permuted_def)
  then show "ordered s'" "core s' = core s" "mset (elems s') = mset (elems s) - {#elems s ! i#}"
    using pop_correct [of t] t len by simp_all
qed

lemma ordered_min: "ordered s \<Longrightarrow> x \<in> set (elems s) \<Longrightarrow> key (core s) (elems s ! 0) \<le> key (core s) x"
  by (auto simp: ordered_def in_set_conv_nth intro: heap_order_min)

end

end
