(* ===== verification/Webdav_Lock.thy ===== *)
theory Webdav_Lock
  imports Go_Path Go_Heap
begin

text \<open>
  The in-memory lock system of the WebDAV server (\<open>server/webdav/lock.go\<close>). A node is an object
  that the maps by name and by token and the expiry heap share, so the state has a store of nodes by
  address; \<open>fresh\<close> is the next unused address. Time is in nanoseconds. An operation whose result
  is \<open>None\<close> panics.
\<close>

section \<open>Data\<close>

datatype lock_error = ErrConfirmationFailed | ErrForbidden | ErrLocked | ErrNoSuchLock

record Condition =
  Not :: bool
  Token :: string
  ETag :: string

record LockDetails =
  Root :: string
  Duration :: int
  OwnerXML :: string
  ZeroDepth :: bool

record memLSNode =
  details :: LockDetails
  token :: string
  refCount :: int
  expiry :: int
  byExpiryIndex :: int
  held :: bool

record memLS =
  byName :: "string \<Rightarrow> nat option"
  byToken :: "string \<Rightarrow> nat option"
  gen :: int
  byExpiry :: "nat list"
  store :: "nat \<Rightarrow> memLSNode"
  fresh :: nat

definition empty_node :: "string \<Rightarrow> memLSNode" where
  "empty_node nam = \<lparr>details = \<lparr>Root = nam, Duration = 0, OwnerXML = [], ZeroDepth = False\<rparr>, token = [],
     refCount = 0, expiry = 0, byExpiryIndex = - 1, held = False\<rparr>"

definition NewMemLS :: "int \<Rightarrow> memLS" where
  "NewMemLS unix = \<lparr>byName = Map.empty, byToken = Map.empty, gen = unix mod 2 ^ 64, byExpiry = [],
     store = (\<lambda>_. empty_node []), fresh = 0\<rparr>"

definition upd :: "nat \<Rightarrow> (memLSNode \<Rightarrow> memLSNode) \<Rightarrow> memLS \<Rightarrow> memLS" where
  "upd a f m = m\<lparr>store := (store m)(a := f (store m a))\<rparr>"

section \<open>The expiry heap\<close>

definition byExpiry_Len :: "memLS \<Rightarrow> nat" where
  "byExpiry_Len m = length (byExpiry m)"

definition byExpiry_Less :: "memLS \<Rightarrow> nat \<Rightarrow> nat \<Rightarrow> bool" where
  "byExpiry_Less m i j \<longleftrightarrow> expiry (store m (byExpiry m ! i)) < expiry (store m (byExpiry m ! j))"

definition byExpiry_Swap :: "nat \<Rightarrow> nat \<Rightarrow> memLS \<Rightarrow> memLS" where
  "byExpiry_Swap i j m =
     (let b = list_swap i j (byExpiry m);
          m = m\<lparr>byExpiry := b\<rparr>;
          m = upd (b ! i) (\<lambda>n. n\<lparr>byExpiryIndex := int i\<rparr>) m
      in upd (b ! j) (\<lambda>n. n\<lparr>byExpiryIndex := int j\<rparr>) m)"

definition byExpiry_Push :: "nat \<Rightarrow> memLS \<Rightarrow> memLS" where
  "byExpiry_Push a m =
     (let m = upd a (\<lambda>n. n\<lparr>byExpiryIndex := int (length (byExpiry m))\<rparr>) m
      in m\<lparr>byExpiry := byExpiry m @ [a]\<rparr>)"

definition byExpiry_Pop :: "memLS \<Rightarrow> memLS" where
  "byExpiry_Pop m =
     (let i = length (byExpiry m) - 1; a = byExpiry m ! i;
          m = upd a (\<lambda>n. n\<lparr>byExpiryIndex := - 1\<rparr>) m
      in m\<lparr>byExpiry := take i (byExpiry m)\<rparr>)"

abbreviation push_expiry :: "nat \<Rightarrow> memLS \<Rightarrow> memLS" where
  "push_expiry \<equiv> heap_Push byExpiry_Len byExpiry_Less byExpiry_Swap byExpiry_Push"

abbreviation remove_expiry :: "nat \<Rightarrow> memLS \<Rightarrow> memLS" where
  "remove_expiry \<equiv> heap_Remove byExpiry_Len byExpiry_Less byExpiry_Swap byExpiry_Pop"

section \<open>Operations\<close>

definition nextToken :: "memLS \<Rightarrow> string \<times> memLS" where
  "nextToken m = (let g = (gen m + 1) mod 2 ^ 64 in (format_nat (nat g), m\<lparr>gen := g\<rparr>))"

text \<open>\<open>walkToRoot\<close> with a callback that changes a state; slicing at a missing slash panics.\<close>

lemma walk_shorter:
  assumes "last_index_str ''/'' nam = Some i" "nam \<noteq> ''/''"
  shows "length (if take i nam = [] then ''/'' else take i nam) < length nam"
proof -
  have *: "i + 1 \<le> length nam" "prefix ''/'' (drop i nam)" using last_index_str_Some [OF assms(1)] by auto
  moreover have "length nam \<noteq> 1" if "i = 0" using * that assms(2) by (cases nam) auto
  ultimately show ?thesis by (auto simp: min_def)
qed

function walkToRoot :: "(string \<Rightarrow> bool \<Rightarrow> 's \<Rightarrow> (bool \<times> 's) option) \<Rightarrow> string \<Rightarrow> bool \<Rightarrow> 's \<Rightarrow> (bool \<times> 's) option" where
  "walkToRoot f nam fst_call s =
     (case f nam fst_call s of
        None \<Rightarrow> None
      | Some (False, s) \<Rightarrow> Some (False, s)
      | Some (True, s) \<Rightarrow>
          if nam = ''/'' then Some (True, s)
          else (case last_index_str ''/'' nam of
              None \<Rightarrow> None
            | Some i \<Rightarrow> walkToRoot f (if take i nam = [] then ''/'' else take i nam) False s))"
  by pat_completeness auto
termination
  using walk_shorter by (relation "measure (\<lambda>(f, nam, fst_call, s). length nam)") fastforce+

declare walkToRoot.simps [simp del]

definition canCreate_step :: "memLS \<Rightarrow> bool \<Rightarrow> string \<Rightarrow> bool \<Rightarrow> unit \<Rightarrow> (bool \<times> unit) option" where
  "canCreate_step m zeroDepth nam fst_call u =
     (case byName m nam of
        None \<Rightarrow> Some (True, u)
      | Some a \<Rightarrow>
          if fst_call then Some (token (store m a) = [] \<and> zeroDepth, u)
          else Some (\<not> (token (store m a) \<noteq> [] \<and> \<not> ZeroDepth (details (store m a))), u))"

definition canCreate :: "memLS \<Rightarrow> string \<Rightarrow> bool \<Rightarrow> bool option" where
  "canCreate m nam zeroDepth = map_option fst (walkToRoot (canCreate_step m zeroDepth) nam True ())"

definition create_step :: "string \<Rightarrow> bool \<Rightarrow> memLS \<Rightarrow> (bool \<times> memLS) option" where
  "create_step nam fst_call m =
     (let m = (if byName m nam = None
               then m\<lparr>byName := (byName m)(nam \<mapsto> fresh m), store := (store m)(fresh m := empty_node nam), fresh := fresh m + 1\<rparr>
               else m)
      in Some (True, upd (the (byName m nam)) (\<lambda>n. n\<lparr>refCount := refCount n + 1\<rparr>) m))"

text \<open>\<open>create\<close> returns the node of the first call, that is the one the map holds for the name.\<close>

definition create :: "string \<Rightarrow> memLS \<Rightarrow> (nat \<times> memLS) option" where
  "create nam m = (case walkToRoot create_step nam True m of
     None \<Rightarrow> None | Some (_, m) \<Rightarrow> Some (the (byName m nam), m))"

definition remove_step :: "string \<Rightarrow> bool \<Rightarrow> memLS \<Rightarrow> (bool \<times> memLS) option" where
  "remove_step nam fst_call m =
     (case byName m nam of
        None \<Rightarrow> None
      | Some a \<Rightarrow>
          (let m = upd a (\<lambda>n. n\<lparr>refCount := refCount n - 1\<rparr>) m
           in Some (True, if refCount (store m a) = 0 then m\<lparr>byName := (byName m)(nam := None)\<rparr> else m)))"

definition remove :: "nat \<Rightarrow> memLS \<Rightarrow> memLS option" where
  "remove a m =
     (let m = m\<lparr>byToken := (byToken m)(token (store m a) := None)\<rparr>;
          m = upd a (\<lambda>n. n\<lparr>token := []\<rparr>) m
      in case walkToRoot remove_step (Root (details (store m a))) True m of
           None \<Rightarrow> None
         | Some (_, m) \<Rightarrow>
             Some (if byExpiryIndex (store m a) \<ge> 0 then remove_expiry (nat (byExpiryIndex (store m a))) m else m))"

text \<open>Each round of \<open>collectExpiredNodes\<close> takes one node off the heap, so the length of the heap is
  enough fuel; running out of it would be \<open>None\<close>.\<close>

fun collect_rounds :: "nat \<Rightarrow> int \<Rightarrow> memLS \<Rightarrow> memLS option" where
  "collect_rounds fuel now m =
     (case byExpiry m of
        [] \<Rightarrow> Some m
      | a # _ \<Rightarrow>
          if now < expiry (store m a) then Some m
          else (case fuel of 0 \<Rightarrow> None
            | Suc fuel \<Rightarrow> (case remove a m of None \<Rightarrow> None | Some m \<Rightarrow> collect_rounds fuel now m)))"

declare collect_rounds.simps [simp del]

definition collectExpiredNodes :: "int \<Rightarrow> memLS \<Rightarrow> memLS option" where
  "collectExpiredNodes now m = collect_rounds (length (byExpiry m)) now m"

definition slashClean :: "string \<Rightarrow> string" where
  "slashClean nam = path_clean (if nam = [] \<or> hd nam \<noteq> CHR ''/'' then CHR ''/'' # nam else nam)"

fun lookup :: "memLS \<Rightarrow> string \<Rightarrow> Condition list \<Rightarrow> nat option" where
  "lookup m nam [] = None"
| "lookup m nam (c # conditions) =
     (case byToken m (Token c) of
        None \<Rightarrow> lookup m nam conditions
      | Some a \<Rightarrow>
          (let n = store m a in
             if held n then lookup m nam conditions
             else if nam = Root (details n) then Some a
             else if ZeroDepth (details n) then lookup m nam conditions
             else if Root (details n) = ''/'' \<or> has_prefix nam (Root (details n) @ ''/'') then Some a
             else lookup m nam conditions))"

definition hold :: "nat \<Rightarrow> memLS \<Rightarrow> memLS option" where
  "hold a m =
     (if held (store m a) then None
      else (let m = upd a (\<lambda>n. n\<lparr>held := True\<rparr>) m; n = store m a in
        Some (if Duration (details n) \<ge> 0 \<and> byExpiryIndex n \<ge> 0 then remove_expiry (nat (byExpiryIndex n)) m else m)))"

definition unhold :: "nat \<Rightarrow> memLS \<Rightarrow> memLS option" where
  "unhold a m =
     (if \<not> held (store m a) then None
      else (let m = upd a (\<lambda>n. n\<lparr>held := False\<rparr>) m in
        Some (if Duration (details (store m a)) \<ge> 0 then push_expiry a m else m)))"

definition hold_opt :: "nat option \<Rightarrow> memLS \<Rightarrow> memLS option" where
  "hold_opt x m = (case x of None \<Rightarrow> Some m | Some a \<Rightarrow> hold a m)"

definition unhold_opt :: "nat option \<Rightarrow> memLS \<Rightarrow> memLS option" where
  "unhold_opt x m = (case x of None \<Rightarrow> Some m | Some a \<Rightarrow> unhold a m)"

text \<open>\<open>Confirm\<close> returns the two nodes that its \<open>release\<close> closure captures.\<close>

definition Confirm :: "int \<Rightarrow> string \<Rightarrow> string \<Rightarrow> Condition list \<Rightarrow> memLS \<Rightarrow>
    ((lock_error + nat option \<times> nat option) \<times> memLS) option" where
  "Confirm now name0 name1 conditions m =
     (case collectExpiredNodes now m of None \<Rightarrow> None | Some m \<Rightarrow>
        (let n0 = (if name0 = [] then None else lookup m (slashClean name0) conditions);
             n1 = (if name1 = [] then None else lookup m (slashClean name1) conditions)
         in if name0 \<noteq> [] \<and> n0 = None then Some (Inl ErrConfirmationFailed, m)
            else if name1 \<noteq> [] \<and> n1 = None then Some (Inl ErrConfirmationFailed, m)
            else (let n1 = (if n1 = n0 then None else n1) in
              (case hold_opt n0 m of None \<Rightarrow> None | Some m \<Rightarrow>
                (case hold_opt n1 m of None \<Rightarrow> None | Some m \<Rightarrow> Some (Inr (n0, n1), m))))))"

definition release :: "nat option \<times> nat option \<Rightarrow> memLS \<Rightarrow> memLS option" where
  "release r m = (case unhold_opt (snd r) m of None \<Rightarrow> None | Some m \<Rightarrow> unhold_opt (fst r) m)"

definition Create :: "int \<Rightarrow> LockDetails \<Rightarrow> memLS \<Rightarrow> ((lock_error + string) \<times> memLS) option" where
  "Create now det m =
     (case collectExpiredNodes now m of None \<Rightarrow> None | Some m \<Rightarrow>
        (let det = det\<lparr>Root := slashClean (Root det)\<rparr> in
         case canCreate m (Root det) (ZeroDepth det) of
           None \<Rightarrow> None
         | Some False \<Rightarrow> Some (Inl ErrLocked, m)
         | Some True \<Rightarrow>
             (case create (Root det) m of None \<Rightarrow> None | Some (a, m) \<Rightarrow>
               (case nextToken m of (tok, m) \<Rightarrow>
                 (let m = upd a (\<lambda>n. n\<lparr>token := tok\<rparr>) m;
                      m = m\<lparr>byToken := (byToken m)(tok \<mapsto> a)\<rparr>;
                      m = upd a (\<lambda>n. n\<lparr>details := det\<rparr>) m;
                      m = (if Duration det \<ge> 0
                           then push_expiry a (upd a (\<lambda>n. n\<lparr>expiry := now + Duration det\<rparr>) m) else m)
                  in Some (Inr tok, m))))))"

definition Refresh :: "int \<Rightarrow> string \<Rightarrow> int \<Rightarrow> memLS \<Rightarrow> ((lock_error + LockDetails) \<times> memLS) option" where
  "Refresh now tok duration m =
     (case collectExpiredNodes now m of None \<Rightarrow> None | Some m \<Rightarrow>
        (case byToken m tok of
           None \<Rightarrow> Some (Inl ErrNoSuchLock, m)
         | Some a \<Rightarrow>
             if held (store m a) then Some (Inl ErrLocked, m)
             else (let m = (if byExpiryIndex (store m a) \<ge> 0
                            then remove_expiry (nat (byExpiryIndex (store m a))) m else m);
                       m = upd a (\<lambda>n. n\<lparr>details := (details n)\<lparr>Duration := duration\<rparr>\<rparr>) m;
                       m = (if duration \<ge> 0 then push_expiry a (upd a (\<lambda>n. n\<lparr>expiry := now + duration\<rparr>) m) else m)
                   in Some (Inr (details (store m a)), m))))"

definition Unlock :: "int \<Rightarrow> string \<Rightarrow> memLS \<Rightarrow> (lock_error option \<times> memLS) option" where
  "Unlock now tok m =
     (case collectExpiredNodes now m of None \<Rightarrow> None | Some m \<Rightarrow>
        (case byToken m tok of
           None \<Rightarrow> Some (Some ErrNoSuchLock, m)
         | Some a \<Rightarrow>
             if held (store m a) then Some (Some ErrLocked, m)
             else map_option (\<lambda>m. (None, m)) (remove a m)))"

section \<open>The timeout header\<close>

definition infiniteTimeout :: int where
  "infiniteTimeout = - 1"

text \<open>\<open>None\<close> is \<open>errInvalidTimeout\<close>; the duration is in nanoseconds.\<close>

definition parseTimeout :: "string \<Rightarrow> int option" where
  "parseTimeout s =
     (if s = [] then Some infiniteTimeout
      else (let s = trim_space (takeWhile (\<lambda>c. c \<noteq> CHR '','') s) in
        if s = ''Infinite'' then Some infiniteTimeout
        else if \<not> has_prefix s ''Second-'' then None
        else (let s = drop (length ''Second-'') s in
          if s = [] \<or> \<not> is_digit (hd s) then None
          else (case ParseInt s of
              (n, Some _) \<Rightarrow> None
            | (n, None) \<Rightarrow> if 2 ^ 32 - 1 < n then None else Some (wrap64 (n * 1000000000))))))"

end
