(* ===== verification/If_Header.thy ===== *)
theory If_Header
  imports Webdav_Lock
begin

text \<open>
  The parser of the WebDAV \<open>If\<close> header (\<open>server/webdav/if.go\<close>): a lexer and one function per production, each
  returning the rest of the input; \<open>None\<close> is a failed parse. The loops are recursive functions whose
  input gets shorter.
\<close>

section \<open>Lexer\<close>

datatype token_type =
    errTokenType | eofTokenType | strTokenType | notTokenType | angleTokenType | squareTokenType
  | runeToken char

definition is_blank :: "char \<Rightarrow> bool" where
  "is_blank c \<longleftrightarrow> c = CHR 0x09 \<or> c = CHR '' ''"

definition is_delim :: "char \<Rightarrow> bool" where
  "is_delim c \<longleftrightarrow> c \<in> {CHR 0x09, CHR '' '', CHR ''('', CHR '')'', CHR ''<'', CHR ''>'', CHR ''['', CHR '']''}"

text \<open>A bracketed token of \<open>s\<close>, up to the first \<open>close\<close>.\<close>

definition lex_bracket :: "char \<Rightarrow> token_type \<Rightarrow> string \<Rightarrow> token_type \<times> string \<times> string" where
  "lex_bracket close ty s =
     (case cut_at close s of (b, a, ok) \<Rightarrow> if ok then (ty, tl b, a) else (errTokenType, [], []))"

definition lex_word :: "string \<Rightarrow> token_type \<times> string \<times> string" where
  "lex_word s =
     (let tokenStr = takeWhile (\<lambda>c. \<not> is_delim c) s; remaining = dropWhile (\<lambda>c. \<not> is_delim c) s in
        if tokenStr \<noteq> [] then
          (if tokenStr = ''Not'' then (notTokenType, [], remaining) else (strTokenType, tokenStr, remaining))
        else if hd s = CHR ''<'' then lex_bracket (CHR ''>'') angleTokenType s
        else if hd s = CHR ''['' then lex_bracket (CHR '']'') squareTokenType s
        else (runeToken (hd s), [], tl s))"

definition lex_token :: "string \<Rightarrow> token_type \<times> string \<times> string" where
  "lex_token s = (let s = dropWhile is_blank s in if s = [] then (eofTokenType, [], []) else lex_word s)"

lemma cut_at_length: "cut_at c s = (b, a, True) \<Longrightarrow> length s = Suc (length b + length a)"
  by (induction s arbitrary: b) (auto split: if_splits prod.splits)

lemma lex_word_shorter:
  assumes "lex_word s = (t, tok, r)" "t \<noteq> errTokenType" "s \<noteq> []"
  shows "length r < length s"
proof -
  have "takeWhile (\<lambda>c. \<not> is_delim c) s \<noteq> [] \<Longrightarrow> length (dropWhile (\<lambda>c. \<not> is_delim c) s) < length s"
    by (metis append_is_Nil_conv length_append length_greater_0_conv less_add_same_cancel2 takeWhile_dropWhile_id)
  then show ?thesis
    using assms cut_at_length [of "CHR ''>''" s] cut_at_length [of "CHR '']''" s]
    by (auto simp: lex_word_def lex_bracket_def Let_def split: if_splits prod.splits)
qed

lemma lex_shorter:
  assumes "lex_token s = (t, tok, r)" "t \<noteq> eofTokenType" "t \<noteq> errTokenType"
  shows "length r < length s"
proof -
  have "dropWhile is_blank s \<noteq> []" "lex_word (dropWhile is_blank s) = (t, tok, r)"
    using assms(1,2) by (auto simp: lex_token_def Let_def split: if_splits)
  then have "length r < length (dropWhile is_blank s)" using lex_word_shorter assms(3) by blast
  then show ?thesis using length_dropWhile_le [of is_blank s] by simp
qed

section \<open>Parser\<close>

record ifList =
  resourceTag :: string
  conditions :: "Condition list"

record ifHeader =
  ihlists :: "ifList list"

definition condition_token :: "bool \<Rightarrow> token_type \<times> string \<times> string \<Rightarrow> (Condition \<times> string) option" where
  "condition_token neg tok =
     (case tok of
        (strTokenType, tokenStr, s) \<Rightarrow> Some (\<lparr>Not = neg, Token = tokenStr, ETag = []\<rparr>, s)
      | (angleTokenType, tokenStr, s) \<Rightarrow> Some (\<lparr>Not = neg, Token = tokenStr, ETag = []\<rparr>, s)
      | (squareTokenType, tokenStr, s) \<Rightarrow> Some (\<lparr>Not = neg, Token = [], ETag = tokenStr\<rparr>, s)
      | _ \<Rightarrow> None)"

definition parseCondition :: "string \<Rightarrow> (Condition \<times> string) option" where
  "parseCondition s =
     (case lex_token s of (tokenType, tokenStr, s) \<Rightarrow>
        if tokenType = notTokenType then condition_token True (lex_token s)
        else condition_token False (tokenType, tokenStr, s))"

lemma condition_token_Some:
  "condition_token neg (t, tok, s) = Some (c, r) \<Longrightarrow> r = s \<and> t \<notin> {eofTokenType, errTokenType}"
  by (auto simp: condition_token_def split: token_type.splits)

lemma parseCondition_shorter:
  assumes "parseCondition s = Some (c, r)" shows "length r < length s"
proof -
  obtain t tok s1 where l: "lex_token s = (t, tok, s1)" by (metis prod_cases3)
  obtain t2 tok2 s2 where l2: "lex_token s1 = (t2, tok2, s2)" by (metis prod_cases3)
  show ?thesis
  proof (cases "t = notTokenType")
    case True
    then show ?thesis
      using assms l l2 condition_token_Some [of True t2 tok2 s2 c r] lex_shorter [OF l2] lex_shorter [OF l]
      by (auto simp: parseCondition_def)
  next
    case False
    then show ?thesis
      using assms l condition_token_Some [of False t tok s1 c r] lex_shorter [OF l] by (auto simp: parseCondition_def)
  qed
qed

text \<open>The loop of \<open>parseList\<close>.\<close>

function parse_conditions :: "Condition list \<Rightarrow> string \<Rightarrow> (Condition list \<times> string) option" where
  "parse_conditions cs s =
     (case lex_token s of (tokenType, _, remaining) \<Rightarrow>
        if tokenType = runeToken (CHR '')'') then (if cs = [] then None else Some (cs, remaining))
        else (case parseCondition s of
            None \<Rightarrow> None
          | Some (c, remaining) \<Rightarrow> parse_conditions (cs @ [c]) remaining))"
  by pat_completeness auto
termination
  by (relation "measure (\<lambda>(cs, s). length s)") (auto dest: parseCondition_shorter)

declare parse_conditions.simps [simp del]

definition parseList :: "string \<Rightarrow> (ifList \<times> string) option" where
  "parseList s =
     (case lex_token s of (tokenType, _, s) \<Rightarrow>
        if tokenType \<noteq> runeToken (CHR ''('') then None
        else map_option (\<lambda>(cs, r). (\<lparr>resourceTag = [], conditions = cs\<rparr>, r)) (parse_conditions [] s))"

lemma parse_conditions_shorter: "parse_conditions cs s = Some (cs', r) \<Longrightarrow> length r < length s"
proof (induction cs s rule: parse_conditions.induct)
  case (1 cs s)
  obtain t tok s1 where l: "lex_token s = (t, tok, s1)" by (metis prod_cases3)
  show ?case
    using 1 l lex_shorter [OF l] parseCondition_shorter [of s]
    by (subst (asm) (2) parse_conditions.simps) (auto split: if_splits option.splits; fastforce)
qed

lemma parseList_shorter: assumes "parseList s = Some (l, r)" shows "length r < length s"
proof -
  obtain t tok s1 where l: "lex_token s = (t, tok, s1)" by (metis prod_cases3)
  then show ?thesis
    using assms lex_shorter [OF l] parse_conditions_shorter [of "[]" s1]
    by (auto simp: parseList_def split: if_splits)
qed

function parseNoTagLists :: "ifList list \<Rightarrow> string \<Rightarrow> ifHeader option" where
  "parseNoTagLists ls s =
     (case parseList s of
        None \<Rightarrow> None
      | Some (l, remaining) \<Rightarrow>
          if remaining = [] then Some \<lparr>ihlists = ls @ [l]\<rparr> else parseNoTagLists (ls @ [l]) remaining)"
  by pat_completeness auto
termination
  by (relation "measure (\<lambda>(ls, s). length s)") (auto dest: parseList_shorter)

declare parseNoTagLists.simps [simp del]

text \<open>The loop of \<open>parseTaggedLists\<close> on its variables \<open>first\<close>, \<open>resourceTag\<close>, \<open>n\<close>, \<open>h.lists\<close> and \<open>s\<close>.\<close>

function parseTaggedLists :: "bool \<Rightarrow> string \<Rightarrow> nat \<Rightarrow> ifList list \<Rightarrow> string \<Rightarrow> ifHeader option" where
  "parseTaggedLists first tag n ls s =
     (case lex_token s of (tokenType, tokenStr, remaining) \<Rightarrow>
        if tokenType = angleTokenType then
          (if \<not> first \<and> n = 0 then None else parseTaggedLists False tokenStr 0 ls remaining)
        else if tokenType = runeToken (CHR ''('') then
          (case parseList s of
             None \<Rightarrow> None
           | Some (l, remaining) \<Rightarrow>
               (let ls = ls @ [l\<lparr>resourceTag := tag\<rparr>] in
                  if remaining = [] then Some \<lparr>ihlists = ls\<rparr> else parseTaggedLists False tag (n + 1) ls remaining))
        else None)"
  by pat_completeness auto
termination
  by (relation "measure (\<lambda>(first, tag, n, ls, s). length s)") (auto dest: parseList_shorter lex_shorter [OF sym])

declare parseTaggedLists.simps [simp del]

definition parseIfHeader :: "string \<Rightarrow> ifHeader option" where
  "parseIfHeader httpHeader =
     (let s = trim_space httpHeader in
        case lex_token s of (tokenType, _, _) \<Rightarrow>
          if tokenType = runeToken (CHR ''('') then parseNoTagLists [] s
          else if tokenType = angleTokenType then parseTaggedLists True [] 0 [] s
          else None)"


section \<open>Printing a header\<close>

definition print_condition :: "Condition \<Rightarrow> string" where
  "print_condition c = (if Not c then ''Not '' else []) @
     (if ETag c = [] then ''<'' @ Token c @ ''>'' else ''['' @ ETag c @ '']'')"

definition print_list :: "ifList \<Rightarrow> string" where
  "print_list l = ''('' @ concat (map print_condition (conditions l)) @ '')''"

definition print_tagged :: "ifList \<Rightarrow> string" where
  "print_tagged l = ''<'' @ resourceTag l @ ''>'' @ print_list l"

definition print_header :: "ifHeader \<Rightarrow> string" where
  "print_header h = concat (map (if \<forall>l \<in> set (ihlists h). resourceTag l = [] then print_list else print_tagged) (ihlists h))"

text \<open>The headers that can be written: at least one list, each with a condition, each condition a state
  token or an entity tag that does not contain its closing bracket.\<close>

definition condition_ok :: "Condition \<Rightarrow> bool" where
  "condition_ok c \<longleftrightarrow> (ETag c = [] \<or> Token c = []) \<and> CHR ''>'' \<notin> set (Token c) \<and> CHR '']'' \<notin> set (ETag c)"

definition list_ok :: "ifList \<Rightarrow> bool" where
  "list_ok l \<longleftrightarrow> conditions l \<noteq> [] \<and> (\<forall>c \<in> set (conditions l). condition_ok c) \<and> CHR ''>'' \<notin> set (resourceTag l)"

definition header_ok :: "ifHeader \<Rightarrow> bool" where
  "header_ok h \<longleftrightarrow> ihlists h \<noteq> [] \<and> (\<forall>l \<in> set (ihlists h). list_ok l)"

lemma lex_simps [simp]:
  "lex_token (CHR ''('' # r) = (runeToken (CHR ''(''), [], r)"
  "lex_token (CHR '')'' # r) = (runeToken (CHR '')''), [], r)"
  "lex_token (CHR '' '' # r) = lex_token r"
  "lex_token (CHR ''N'' # CHR ''o'' # CHR ''t'' # CHR '' '' # r) = (notTokenType, [], CHR '' '' # r)"
  by (simp_all add: lex_token_def lex_word_def is_blank_def is_delim_def)

lemma lex_angle [simp]: "CHR ''>'' \<notin> set t \<Longrightarrow> lex_token (CHR ''<'' # t @ CHR ''>'' # r) = (angleTokenType, t, r)"
  using cut_at_found [of "CHR ''>''" "CHR ''<'' # t" r] by (simp add: lex_token_def lex_word_def is_blank_def is_delim_def lex_bracket_def)

lemma lex_square [simp]: "CHR '']'' \<notin> set t \<Longrightarrow> lex_token (CHR ''['' # t @ CHR '']'' # r) = (squareTokenType, t, r)"
  using cut_at_found [of "CHR '']''" "CHR ''['' # t" r] by (simp add: lex_token_def lex_word_def is_blank_def is_delim_def lex_bracket_def)

lemma parseCondition_print:
  assumes "condition_ok c" shows "parseCondition (print_condition c @ r) = Some (c, r)"
proof -
  obtain n t e where "c = \<lparr>Not = n, Token = t, ETag = e\<rparr>" by (cases c) simp
  then show ?thesis
    using assms by (auto simp: print_condition_def parseCondition_def condition_token_def condition_ok_def)
qed

lemma print_condition_start: "condition_ok c \<Longrightarrow> fst (lex_token (print_condition c @ r)) \<noteq> runeToken (CHR '')'')"
  by (cases c) (auto simp: print_condition_def condition_ok_def)

lemma parse_conditions_print:
  "\<forall>c \<in> set ds. condition_ok c \<Longrightarrow> cs @ ds \<noteq> [] \<Longrightarrow>
     parse_conditions cs (concat (map print_condition ds) @ CHR '')'' # r) = Some (cs @ ds, r)"
proof (induction ds arbitrary: cs)
  case Nil
  then show ?case by (simp add: parse_conditions.simps [of cs])
next
  case (Cons d ds)
  let ?r = "concat (map print_condition ds) @ CHR '')'' # r"
  obtain t tok s1 where l: "lex_token (print_condition d @ ?r) = (t, tok, s1)" by (metis prod_cases3)
  then have "t \<noteq> runeToken (CHR '')'')" using print_condition_start [of d ?r] Cons.prems(1) by simp
  then show ?case
    using Cons l parseCondition_print [of d ?r] by (simp add: parse_conditions.simps [of cs])
qed

lemma parseList_print:
  assumes "list_ok l" shows "parseList (print_list l @ r) = Some (l\<lparr>resourceTag := []\<rparr>, r)"
  using assms parse_conditions_print [of "conditions l" "[]" r]
  by (cases l) (simp add: parseList_def print_list_def list_ok_def)

lemma parseNoTagLists_print:
  "ms \<noteq> [] \<Longrightarrow> \<forall>l \<in> set ms. list_ok l \<and> resourceTag l = [] \<Longrightarrow>
     parseNoTagLists ls (concat (map print_list ms)) = Some \<lparr>ihlists = ls @ ms\<rparr>"
proof (induction ms arbitrary: ls)
  case (Cons m ms)
  have "parseList (print_list m @ concat (map print_list ms)) = Some (m, concat (map print_list ms))"
    using parseList_print [of m] Cons.prems(2) by (cases m) simp
  moreover have "concat (map print_list ms) = [] \<longleftrightarrow> ms = []" by (cases ms) (simp_all add: print_list_def)
  ultimately show ?case using Cons by (simp add: parseNoTagLists.simps [of ls])
qed simp

lemma parseTaggedLists_print:
  "ms \<noteq> [] \<Longrightarrow> \<forall>l \<in> set ms. list_ok l \<Longrightarrow> first \<or> n > 0 \<Longrightarrow>
     parseTaggedLists first tag n ls (concat (map print_tagged ms)) = Some \<lparr>ihlists = ls @ ms\<rparr>"
proof (induction ms arbitrary: first tag n ls)
  case (Cons m ms)
  let ?r = "concat (map print_tagged ms)" and ?t = "resourceTag m"
  have m: "list_ok m" using Cons.prems(2) by simp
  then have "CHR ''>'' \<notin> set ?t" by (simp add: list_ok_def)
  then have "parseTaggedLists first tag n ls (print_tagged m @ ?r) = parseTaggedLists False ?t 0 ls (print_list m @ ?r)"
    using Cons.prems(3) by (auto simp: print_tagged_def parseTaggedLists.simps [of first])
  also have "lex_token (print_list m @ ?r) = (runeToken (CHR ''(''), [], tl (print_list m @ ?r))"
    by (simp add: print_list_def)
  then have "parseTaggedLists False ?t 0 ls (print_list m @ ?r) =
      (if ?r = [] then Some \<lparr>ihlists = ls @ [m]\<rparr> else parseTaggedLists False ?t 1 (ls @ [m]) ?r)"
    using parseList_print [OF m, of ?r] by (simp add: parseTaggedLists.simps [of False ?t 0 ls "print_list m @ ?r"] Let_def)
  also have "\<dots> = Some \<lparr>ihlists = ls @ m # ms\<rparr>"
  proof (cases "ms = []")
    case False
    then have "?r \<noteq> []" by (cases ms) (simp_all add: print_tagged_def)
    then show ?thesis unfolding if_not_P [OF \<open>?r \<noteq> []\<close>] using Cons.IH [OF False] Cons.prems(2) by simp
  qed simp
  finally show ?case by simp
qed simp

text \<open>The printed text has no white space at its ends.\<close>

lemma trim_left_seqs_id: "find (\<lambda>q. prefix q s) seqs = None \<Longrightarrow> trim_left_seqs n seqs s = s"
  by (cases n) simp_all

lemma no_space_prefix:
  "c = CHR ''('' \<or> c = CHR '')'' \<or> c = CHR ''<'' \<Longrightarrow> find (\<lambda>q. prefix q (c # s)) space_runes = None"
  "find (\<lambda>q. prefix q (CHR '')'' # s)) (map rev space_runes) = None"
proof -
  assume "c = CHR ''('' \<or> c = CHR '')'' \<or> c = CHR ''<''"
  then show "find (\<lambda>q. prefix q (c # s)) space_runes = None"
    by (elim disjE) (simp_all add: space_runes_def)
qed (simp add: space_runes_def)

lemma trim_space_brackets:
  assumes "s = c # t @ [CHR '')'']" "c = CHR ''('' \<or> c = CHR ''<''"
  shows "trim_space s = s"
proof -
  have "trim_left_seqs (length s) space_runes s = s"
    unfolding assms(1) by (rule trim_left_seqs_id [OF no_space_prefix(1)]) (use assms(2) in blast)
  moreover have "rev s = CHR '')'' # rev (c # t)" by (simp add: assms(1))
  then have "trim_left_seqs (length s) (map rev space_runes) (rev s) = rev s"
    by (simp only: trim_left_seqs_id [OF no_space_prefix(2)])
  ultimately show ?thesis by (simp add: trim_space_def Let_def)
qed

lemma print_list_ends: "\<exists>t. print_list l = CHR ''('' # t @ [CHR '')'']"
  by (simp add: print_list_def)

lemma print_tagged_ends: "\<exists>t. print_tagged l = CHR ''<'' # t @ [CHR '')'']"
  using print_list_ends [of l] by (auto simp: print_tagged_def)

lemma concat_ends:
  assumes "ms \<noteq> []" "\<And>l. \<exists>t. f l = c # t @ [d]"
  shows "\<exists>t. concat (map f ms) = c # t @ [d]"
proof -
  obtain m ms' where ms: "ms = m # ms'" using assms(1) by (cases ms) auto
  obtain t where t: "f m = c # t @ [d]" using assms(2) by blast
  show ?thesis
  proof (cases ms' rule: rev_cases)
    case Nil
    then show ?thesis by (simp add: ms t)
  next
    case (snoc ns n)
    obtain u where "f n = c # u @ [d]" using assms(2) by blast
    then show ?thesis using snoc t by (simp add: ms)
  qed
qed

lemma parseIfHeader_print:
  assumes "header_ok h" shows "parseIfHeader (print_header h) = Some h"
proof (cases "\<forall>l \<in> set (ihlists h). resourceTag l = []")
  case True
  have ne: "ihlists h \<noteq> []" using assms by (simp add: header_ok_def)
  obtain t where t: "concat (map print_list (ihlists h)) = CHR ''('' # t @ [CHR '')'']"
    using concat_ends [OF ne, of print_list] print_list_ends by metis
  have p: "print_header h = concat (map print_list (ihlists h))" using True by (simp add: print_header_def)
  then have "parseIfHeader (print_header h) = parseNoTagLists [] (concat (map print_list (ihlists h)))"
    using trim_space_brackets [OF t] by (simp add: parseIfHeader_def) (simp add: t)
  then show ?thesis using parseNoTagLists_print [OF ne, of "[]"] True assms by (simp add: header_ok_def)
next
  case False
  have ne: "ihlists h \<noteq> []" using assms by (simp add: header_ok_def)
  then obtain l ls where hd: "ihlists h = l # ls" by (cases "ihlists h") auto
  obtain t where t: "concat (map print_tagged (ihlists h)) = CHR ''<'' # t @ [CHR '')'']"
    using concat_ends [OF ne, of print_tagged] print_tagged_ends by metis
  have p: "print_header h = concat (map print_tagged (ihlists h))" unfolding print_header_def if_not_P [OF False] ..
  have "CHR ''>'' \<notin> set (resourceTag l)" using assms hd by (simp add: header_ok_def list_ok_def)
  then obtain tok r where "lex_token (concat (map print_tagged (ihlists h))) = (angleTokenType, tok, r)"
    by (simp add: hd print_tagged_def)
  then have "parseIfHeader (print_header h) = parseTaggedLists True [] 0 [] (concat (map print_tagged (ihlists h)))"
    using trim_space_brackets [OF t] unfolding p by (simp add: parseIfHeader_def Let_def)
  then show ?thesis using parseTaggedLists_print [OF ne, of True 0 "[]" "[]"] assms by (simp add: header_ok_def)
qed


section \<open>What the parser accepts\<close>

lemma lex_token_closed:
  assumes "lex_token s = (t, tok, r)"
  shows "t = strTokenType \<or> t = angleTokenType \<Longrightarrow> CHR ''>'' \<notin> set tok" "t = squareTokenType \<Longrightarrow> CHR '']'' \<notin> set tok"
proof -
  have word: "c \<notin> set (takeWhile (\<lambda>c. \<not> is_delim c) u)" if "is_delim c" for c u
    using that by (auto dest: set_takeWhileD)
  have cut: "c \<notin> set (tl b)" if "cut_at c u = (b, a, True)" for c u a b
    using cut_at_spec [OF that] by (cases b) auto
  show "t = strTokenType \<or> t = angleTokenType \<Longrightarrow> CHR ''>'' \<notin> set tok" "t = squareTokenType \<Longrightarrow> CHR '']'' \<notin> set tok"
    using assms word [of "CHR ''>''"] cut
    by (auto simp: lex_token_def lex_word_def lex_bracket_def is_delim_def Let_def split: if_splits prod.splits)
qed

lemma condition_token_ok: "condition_token neg (lex_token s) = Some (c, r) \<Longrightarrow> condition_ok c"
  using lex_token_closed [of s]
  by (auto simp: condition_token_def condition_ok_def split: prod.splits token_type.splits)

lemma parseCondition_ok: "parseCondition s = Some (c, r) \<Longrightarrow> condition_ok c"
  using condition_token_ok [of False s c r] condition_token_ok [of True _ c r]
  by (auto simp: parseCondition_def split: prod.splits if_splits)

lemma parse_conditions_ok:
  "parse_conditions cs s = Some (ds, r) \<Longrightarrow> \<forall>c \<in> set cs. condition_ok c \<Longrightarrow> ds \<noteq> [] \<and> (\<forall>c \<in> set ds. condition_ok c)"
proof (induction cs s rule: parse_conditions.induct)
  case (1 cs s)
  obtain t tok s1 where l: "lex_token s = (t, tok, s1)" by (metis prod_cases3)
  show ?case
  proof (cases "t = runeToken (CHR '')'')")
    case True
    then show ?thesis using 1(2,3) l by (auto simp: parse_conditions.simps [of cs s] split: if_splits)
  next
    case False
    then obtain c r1 where c: "parseCondition s = Some (c, r1)" "parse_conditions (cs @ [c]) r1 = Some (ds, r)"
      using 1(2) l by (auto simp: parse_conditions.simps [of cs s] split: option.splits)
    show ?thesis using 1(1) [OF l [symmetric] refl False c(1) refl c(2)] 1(3) parseCondition_ok [OF c(1)] by auto
  qed
qed

lemma parseList_ok: "parseList s = Some (l, r) \<Longrightarrow> list_ok l"
  using parse_conditions_ok [of "[]"]
  by (auto simp: parseList_def list_ok_def split: prod.splits if_splits)

lemma parseNoTagLists_ok:
  "parseNoTagLists ls s = Some h \<Longrightarrow> \<forall>l \<in> set ls. list_ok l \<Longrightarrow> header_ok h"
proof (induction ls s rule: parseNoTagLists.induct)
  case (1 ls s)
  obtain l r where l: "parseList s = Some (l, r)"
    and h: "if r = [] then h = \<lparr>ihlists = ls @ [l]\<rparr> else parseNoTagLists (ls @ [l]) r = Some h"
    using 1(2) by (auto simp: parseNoTagLists.simps [of ls s] split: option.splits if_splits)
  show ?case using 1(1) [OF l refl] h 1(3) parseList_ok [OF l] by (auto simp: header_ok_def split: if_splits)
qed

lemma parseTaggedLists_ok:
  "parseTaggedLists first tag n ls s = Some h \<Longrightarrow> \<forall>l \<in> set ls. list_ok l \<Longrightarrow> CHR ''>'' \<notin> set tag \<Longrightarrow> header_ok h"
proof (induction first tag n ls s rule: parseTaggedLists.induct)
  case (1 first tag n ls s)
  obtain t tok s1 where lex: "lex_token s = (t, tok, s1)" by (metis prod_cases3)
  consider "t = angleTokenType" "parseTaggedLists False tok 0 ls s1 = Some h" "\<not> (\<not> first \<and> n = 0)"
    | l r where "t = runeToken (CHR ''('')" "parseList s = Some (l, r)"
        "if r = [] then h = \<lparr>ihlists = ls @ [l\<lparr>resourceTag := tag\<rparr>]\<rparr>
         else parseTaggedLists False tag (n + 1) (ls @ [l\<lparr>resourceTag := tag\<rparr>]) r = Some h"
    using 1(3) lex by (auto simp: parseTaggedLists.simps [of first] Let_def split: if_splits option.splits)
  then show ?case
  proof cases
    case angle: 1
    then show ?thesis using 1(1) [OF lex [symmetric] refl angle(1,3,2)] 1(4) lex_token_closed(1) [OF lex] by simp
  next
    case 2
    have "list_ok (l\<lparr>resourceTag := tag\<rparr>)" using parseList_ok [OF 2(2)] 1(5) by (simp add: list_ok_def)
    then show ?thesis using 1(2) [OF lex [symmetric] refl _ 2(1,2) refl refl] 2 1(4,5)
      by (auto simp: header_ok_def split: if_splits)
  qed
qed

lemma parseIfHeader_ok: "parseIfHeader s = Some h \<Longrightarrow> header_ok h"
  using parseNoTagLists_ok [of "[]"] parseTaggedLists_ok [of True "[]" 0 "[]"]
  by (auto simp: parseIfHeader_def Let_def split: prod.splits if_splits)

end
