(* ===== verification/If_Grammar.thy ===== *)
theory If_Grammar
  imports If_Header
begin

text \<open>
  The language of the \<open>If\<close> header as a grammar: what the tokens look like, which sequences of tokens make a header, and that the
  parser of \<open>If_Header\<close> accepts exactly these texts and returns the header they spell.
\<close>

section \<open>Tokens\<close>

datatype tok = Word string | Angle string | Square string | Open | Close

fun tok_text :: "tok \<Rightarrow> string" where
  "tok_text (Word w) = w"
| "tok_text (Angle t) = ''<'' @ t @ ''>''"
| "tok_text (Square t) = ''['' @ t @ '']''"
| "tok_text Open = ''(''"
| "tok_text Close = '')''"

fun tok_ok :: "tok \<Rightarrow> bool" where
  "tok_ok (Word w) \<longleftrightarrow> w \<noteq> [] \<and> (\<forall>c \<in> set w. \<not> is_delim c)"
| "tok_ok (Angle t) \<longleftrightarrow> CHR ''>'' \<notin> set t"
| "tok_ok (Square t) \<longleftrightarrow> CHR '']'' \<notin> set t"
| "tok_ok _ \<longleftrightarrow> True"

text \<open>A word goes on until a delimiter or the end.\<close>

fun ends_before :: "tok \<Rightarrow> string \<Rightarrow> bool" where
  "ends_before (Word w) s \<longleftrightarrow> s = [] \<or> is_delim (hd s)"
| "ends_before _ s \<longleftrightarrow> True"

text \<open>The text \<open>s\<close> starts with these tokens, each after any blanks, and \<open>r\<close> is left.\<close>

inductive spells :: "tok list \<Rightarrow> string \<Rightarrow> string \<Rightarrow> bool" where
  spells_Nil: "spells [] s s"
| spells_Cons: "\<forall>c \<in> set w. is_blank c \<Longrightarrow> tok_ok t \<Longrightarrow> ends_before t s \<Longrightarrow> spells ts s r \<Longrightarrow> spells (t # ts) (w @ tok_text t @ s) r"

inductive_cases spells_NilE: "spells [] s r"
inductive_cases spells_ConsE: "spells (t # ts) s r"

lemma spells_Nil_iff [simp]: "spells [] s r \<longleftrightarrow> r = s"
  by (auto intro: spells_Nil elim: spells_NilE)

lemma spells_append: "spells (ts @ us) s r \<longleftrightarrow> (\<exists>m. spells ts s m \<and> spells us m r)"
proof
  show "\<exists>m. spells ts s m \<and> spells us m r" if "spells (ts @ us) s r"
    using that by (induction ts arbitrary: s) (auto elim!: spells_ConsE intro: spells_Cons, blast intro: spells_Cons)
  show "spells (ts @ us) s r" if "\<exists>m. spells ts s m \<and> spells us m r"
  proof -
    from that obtain m where "spells ts s m" "spells us m r" by blast
    then show ?thesis by (induction rule: spells.induct) (auto intro: spells_Cons)
  qed
qed

section \<open>Headers\<close>

text \<open>The tokens of a condition: a word or bracketed text, after at most one word \<open>Not\<close>.\<close>

inductive condition_toks :: "Condition \<Rightarrow> tok list \<Rightarrow> bool" where
  condition_word: "w \<noteq> ''Not'' \<Longrightarrow> condition_toks \<lparr>Not = False, Token = w, ETag = []\<rparr> [Word w]"
| condition_angle: "condition_toks \<lparr>Not = False, Token = t, ETag = []\<rparr> [Angle t]"
| condition_square: "condition_toks \<lparr>Not = False, Token = [], ETag = t\<rparr> [Square t]"
| condition_not: "condition_toks c ts \<Longrightarrow> \<not> Not c \<Longrightarrow> condition_toks (c\<lparr>Not := True\<rparr>) (Word ''Not'' # ts)"

text \<open>A list is a bracket around at least one condition.\<close>

definition list_toks :: "ifList \<Rightarrow> tok list \<Rightarrow> bool" where
  "list_toks l ts \<longleftrightarrow> conditions l \<noteq> [] \<and>
     (\<exists>tss. list_all2 condition_toks (conditions l) tss \<and> ts = Open # concat tss @ [Close])"

text \<open>A header is at least one list without tags, or groups of at least one list after a tag for each group.\<close>

definition untagged_toks :: "ifHeader \<Rightarrow> tok list \<Rightarrow> bool" where
  "untagged_toks h ts \<longleftrightarrow> ihlists h \<noteq> [] \<and>
     (\<exists>tss. list_all2 (\<lambda>l ts. resourceTag l = [] \<and> list_toks l ts) (ihlists h) tss \<and> ts = concat tss)"

definition group_toks :: "string \<times> ifList list \<Rightarrow> tok list \<Rightarrow> bool" where
  "group_toks g ts \<longleftrightarrow> snd g \<noteq> [] \<and>
     (\<exists>tss. list_all2 (\<lambda>l ts. resourceTag l = fst g \<and> list_toks l ts) (snd g) tss \<and> ts = Angle (fst g) # concat tss)"

definition tagged_toks :: "ifHeader \<Rightarrow> tok list \<Rightarrow> bool" where
  "tagged_toks h ts \<longleftrightarrow>
     (\<exists>gs tss. gs \<noteq> [] \<and> ihlists h = concat (map snd gs) \<and> list_all2 group_toks gs tss \<and> ts = concat tss)"

section \<open>The lexer reads tokens\<close>

fun tok_type :: "tok \<Rightarrow> token_type \<times> string" where
  "tok_type (Word w) = (if w = ''Not'' then (notTokenType, []) else (strTokenType, w))"
| "tok_type (Angle t) = (angleTokenType, t)"
| "tok_type (Square t) = (squareTokenType, t)"
| "tok_type Open = (runeToken (CHR ''(''), [])"
| "tok_type Close = (runeToken (CHR '')''), [])"

lemma lex_blanks: "\<forall>c \<in> set w. is_blank c \<Longrightarrow> lex_token (w @ s) = lex_token s"
  by (simp add: lex_token_def dropWhile_append2)

lemma lex_word_tok:
  assumes "tok_ok (Word w)" "s = [] \<or> is_delim (hd s)"
  shows "lex_token (w @ s) = (fst (tok_type (Word w)), snd (tok_type (Word w)), s)"
proof -
  obtain c w' where w: "w = c # w'" "\<not> is_delim c" using assms(1) by (cases w) auto
  have "\<not> is_blank c" using w(2) by (auto simp: is_blank_def is_delim_def)
  then have "dropWhile is_blank (w @ s) = w @ s" by (simp add: w)
  moreover have "takeWhile (\<lambda>c. \<not> is_delim c) (w @ s) = w" "dropWhile (\<lambda>c. \<not> is_delim c) (w @ s) = s"
    using assms by (cases s; simp add: takeWhile_append2 dropWhile_append2)+
  ultimately show ?thesis using w(1) by (simp add: lex_token_def lex_word_def Let_def)
qed

lemma lex_spelled:
  assumes "\<forall>c \<in> set w. is_blank c" "tok_ok t" "ends_before t s"
  shows "lex_token (w @ tok_text t @ s) = (fst (tok_type t), snd (tok_type t), s)"
  unfolding lex_blanks [OF assms(1)] using assms(2,3) lex_word_tok by (cases t) simp_all

lemma spells_lex:
  "spells (t # ts) s r \<Longrightarrow> \<exists>m. lex_token s = (fst (tok_type t), snd (tok_type t), m) \<and> spells ts m r"
  by (auto elim!: spells_ConsE simp: lex_spelled)

text \<open>Conversely, what the lexer returns, except the end, an unclosed bracket or a stray delimiter, is a token.\<close>

lemma lex_bracket_text:
  assumes "lex_bracket close ty u = (ty, str, m)" "ty \<noteq> errTokenType" "u = open # v" "open \<noteq> close"
  shows "u = open # str @ close # m \<and> close \<notin> set str"
proof -
  obtain b where b: "cut_at close u = (b, m, True)" "str = tl b"
    using assms(1,2) by (auto simp: lex_bracket_def split: prod.splits if_splits)
  then have "u = b @ close # m" "close \<notin> set b" using cut_at_spec by auto
  then show ?thesis using b(2) assms(3,4) by (cases b) auto
qed

lemma lex_word_text:
  assumes "lex_word u = (fst (tok_type t), snd (tok_type t), m)" "u \<noteq> []"
  shows "u = tok_text t @ m \<and> tok_ok t \<and> ends_before t m"
proof -
  let ?w = "takeWhile (\<lambda>c. \<not> is_delim c) u" and ?d = "dropWhile (\<lambda>c. \<not> is_delim c) u"
  obtain c v where u: "u = c # v" using assms(2) by (cases u) auto
  show ?thesis
  proof (cases "?w = []")
    case True
    then have "\<not> (\<exists>w. t = Word w)" "c = CHR ''<'' \<or> c = CHR ''['' \<or> t \<in> {Open, Close}"
      using assms u by (cases t; auto simp: lex_word_def lex_bracket_def Let_def split: if_splits prod.splits)+
    then show ?thesis
      using assms True u lex_bracket_text [of "CHR ''>''" angleTokenType u "snd (tok_type t)" m "CHR ''<''" v]
        lex_bracket_text [of "CHR '']''" squareTokenType u "snd (tok_type t)" m "CHR ''[''" v]
      by (cases t) (auto simp: lex_word_def Let_def lex_bracket_def split: if_splits prod.splits)
  next
    case False
    then have "t = Word ?w" "m = ?d"
      using assms(1) by (cases t; auto simp: lex_word_def Let_def split: if_splits)+
    moreover have "?d = [] \<or> is_delim (hd ?d)" using hd_dropWhile [of "\<lambda>c. \<not> is_delim c" u] by blast
    ultimately show ?thesis using False by (auto dest: set_takeWhileD)
  qed
qed

lemma spells_Cons_iff:
  "spells (t # ts) s r \<longleftrightarrow> (\<exists>m. lex_token s = (fst (tok_type t), snd (tok_type t), m) \<and> spells ts m r)"
proof
  show "spells (t # ts) s r" if *: "\<exists>m. lex_token s = (fst (tok_type t), snd (tok_type t), m) \<and> spells ts m r"
  proof -
    obtain m where m: "lex_token s = (fst (tok_type t), snd (tok_type t), m)" "spells ts m r" using * by blast
    define w where "w = takeWhile is_blank s"
    define u where "u = dropWhile is_blank s"
    have s: "s = w @ u" "\<forall>c \<in> set w. is_blank c" by (auto simp: w_def u_def dest: set_takeWhileD)
    have "fst (tok_type t) \<noteq> eofTokenType" by (cases t) auto
    then have "u \<noteq> []" "lex_word u = (fst (tok_type t), snd (tok_type t), m)"
      using m(1) by (auto simp: lex_token_def u_def Let_def split: if_splits)
    then have "u = tok_text t @ m \<and> tok_ok t \<and> ends_before t m" by (rule lex_word_text [rotated])
    then show ?thesis using m(2) s spells_Cons [of w t m ts r] by simp
  qed
qed (rule spells_lex)

section \<open>The parser follows the grammar\<close>

inductive_simps condition_toks_Nil [simp]: "condition_toks c []"
inductive_simps condition_toks_Cons: "condition_toks c (t # ts)"

lemma condition_toks_single:
  "condition_toks \<lparr>Not = neg, Token = a, ETag = b\<rparr> [t] \<longleftrightarrow>
     \<not> neg \<and> (t = Word a \<and> a \<noteq> ''Not'' \<and> b = [] \<or> t = Angle a \<and> b = [] \<or> t = Square b \<and> a = [])"
  by (auto simp: condition_toks_Cons)

lemma lex_word_Not:
  assumes "lex_token s = (ty, str, m)"
  shows "ty = strTokenType \<Longrightarrow> str \<noteq> ''Not''" "ty = notTokenType \<Longrightarrow> str = []"
    "ty = runeToken d \<Longrightarrow> str = []"
  using assms by (auto simp: lex_token_def lex_word_def lex_bracket_def Let_def split: if_splits prod.splits)

lemma condition_token_iff:
  "condition_token neg (lex_token s) = Some (c, r) \<longleftrightarrow>
     (\<exists>t. Not c = neg \<and> condition_toks (c\<lparr>Not := False\<rparr>) [t] \<and> spells [t] s r)"
proof -
  obtain ty str m where l: "lex_token s = (ty, str, m)" by (metis prod_cases3)
  obtain n a b where c: "c = \<lparr>Not = n, Token = a, ETag = b\<rparr>" by (cases c) simp
  have one: "spells [t] s r \<longleftrightarrow> tok_type t = (ty, str) \<and> m = r" for t
    using l by (auto simp: spells_Cons_iff)
  have "(\<exists>t. Not c = neg \<and> condition_toks (c\<lparr>Not := False\<rparr>) [t] \<and> spells [t] s r) \<longleftrightarrow>
      n = neg \<and> m = r \<and> (ty = strTokenType \<and> str = a \<and> a \<noteq> ''Not'' \<and> b = [] \<or>
        ty = angleTokenType \<and> str = a \<and> b = [] \<or> ty = squareTokenType \<and> str = b \<and> a = [])"
    unfolding c one by (simp add: condition_toks_single) fastforce
  then show ?thesis
    using lex_word_Not(1) [OF l] by (cases ty) (auto simp: condition_token_def l c)
qed

lemma condition_toks_cases:
  "condition_toks c ts \<longleftrightarrow>
     (\<exists>t. condition_toks (c\<lparr>Not := False\<rparr>) [t] \<and> ts = (if Not c then [Word ''Not'', t] else [t]))"
proof
  show "condition_toks c ts \<Longrightarrow> \<exists>t. condition_toks (c\<lparr>Not := False\<rparr>) [t] \<and> ts = (if Not c then [Word ''Not'', t] else [t])"
    by (induction rule: condition_toks.induct) (auto simp: condition_toks_single)
  have "condition_toks c [t]" if "condition_toks (c\<lparr>Not := False\<rparr>) [t]" "\<not> Not c" for t
    using that by (cases c) simp
  moreover have "condition_toks c [Word ''Not'', t]" if "condition_toks (c\<lparr>Not := False\<rparr>) [t]" "Not c" for t
    using condition_not [OF that(1)] that(2) by (cases c) simp
  ultimately show "\<exists>t. condition_toks (c\<lparr>Not := False\<rparr>) [t] \<and> ts = (if Not c then [Word ''Not'', t] else [t]) \<Longrightarrow>
      condition_toks c ts"
    by (auto split: if_splits)
qed

lemma parseCondition_iff: "parseCondition s = Some (c, r) \<longleftrightarrow> (\<exists>ts. condition_toks c ts \<and> spells ts s r)"
proof -
  obtain ty str m where l: "lex_token s = (ty, str, m)" by (metis prod_cases3)
  show ?thesis
  proof (cases "ty = notTokenType")
    case True
    then have "parseCondition s = condition_token True (lex_token m)" using l by (simp add: parseCondition_def)
    moreover have "spells (Word ''Not'' # ts) s r \<longleftrightarrow> spells ts m r" for ts
      using l True lex_word_Not(2) [OF l] by (auto simp: spells_Cons_iff)
    moreover have "\<not> (condition_toks (c\<lparr>Not := False\<rparr>) [t] \<and> spells [t] s r)" for t
      using l True by (cases c) (auto simp: spells_Cons_iff condition_toks_single)
    ultimately show ?thesis by (auto simp: condition_token_iff condition_toks_cases [of c])
  next
    case False
    then have "parseCondition s = condition_token False (lex_token s)" using l by (simp add: parseCondition_def)
    moreover have "\<not> spells (Word ''Not'' # ts) s r" for ts
      using l False by (auto simp: spells_Cons_iff)
    ultimately show ?thesis by (auto simp: condition_token_iff condition_toks_cases [of c])
  qed
qed

lemma condition_starts:
  assumes "condition_toks c ts" "spells (ts @ us) s r"
  shows "fst (lex_token s) \<noteq> runeToken d" "ts \<noteq> []"
proof -
  obtain t where t: "condition_toks (c\<lparr>Not := False\<rparr>) [t]" "ts = (if Not c then [Word ''Not'', t] else [t])"
    using assms(1) condition_toks_cases by blast
  then show "fst (lex_token s) \<noteq> runeToken d" "ts \<noteq> []"
    using assms(2) by (cases c; auto simp: spells_Cons_iff condition_toks_single split: if_splits)+
qed

lemma parse_conditions_iff:
  "parse_conditions cs s = Some (ds, r) \<longleftrightarrow>
     (\<exists>es tss. ds = cs @ es \<and> ds \<noteq> [] \<and> list_all2 condition_toks es tss \<and> spells (concat tss @ [Close]) s r)"
  (is "_ \<longleftrightarrow> (\<exists>es tss. ?P cs s es tss)")
proof (induction cs s rule: parse_conditions.induct)
  case (1 cs s)
  obtain ty str m where l: "lex_token s = (ty, str, m)" by (metis prod_cases3)
  show ?case
  proof (cases "ty = runeToken (CHR '')'')")
    case True
    have "?P cs s es tss \<Longrightarrow> es = []" for es tss
      using condition_starts(1) [of "hd es" "hd tss" "concat (tl tss) @ [Close]" s r "CHR '')''"] l True
      by (cases es; cases tss) auto
    then have "(\<exists>es tss. ?P cs s es tss) \<longleftrightarrow> ?P cs s [] []" by fastforce
    also have "\<dots> \<longleftrightarrow> ds = cs \<and> ds \<noteq> [] \<and> r = m" using l True lex_word_Not(3) [OF l] by (auto simp: spells_Cons_iff)
    finally have "(\<exists>es tss. ?P cs s es tss) \<longleftrightarrow> ds = cs \<and> ds \<noteq> [] \<and> r = m" .
    then show ?thesis using l True by (auto simp: parse_conditions.simps [of cs s])
  next
    case False
    have "(\<exists>es tss. ?P cs s es tss) \<longleftrightarrow>
      (\<exists>c u. parseCondition s = Some (c, u) \<and> (\<exists>es tss. ?P (cs @ [c]) u es tss))" (is "?L \<longleftrightarrow> ?R")
    proof
      assume ?L
      then obtain es tss where p: "?P cs s es tss" by blast
      moreover have "es \<noteq> []" using p l False by (cases es) (auto simp: spells_Cons_iff)
      ultimately obtain c es' ts tss' u where es: "es = c # es'" "tss = ts # tss'" "condition_toks c ts" "spells ts s u"
          "spells (concat tss' @ [Close]) u r"
        by (cases es; cases tss) (auto simp: spells_append [of "hd tss"] spells_append)
      then have "parseCondition s = Some (c, u)" "?P (cs @ [c]) u es' tss'" using p by (auto simp: parseCondition_iff)
      then show ?R by blast
    next
      assume ?R
      then obtain c u es tss ts where "condition_toks c ts" "spells ts s u" "?P (cs @ [c]) u es tss"
        unfolding parseCondition_iff by blast
      then have "?P cs s (c # es) (ts # tss)" by (auto simp: spells_append)
      then show ?L by blast
    qed
    then show ?thesis using l False 1 by (auto simp: parse_conditions.simps [of cs s] split: option.splits)
  qed
qed

lemma parseList_iff: "parseList s = Some (l, r) \<longleftrightarrow> resourceTag l = [] \<and> (\<exists>ts. list_toks l ts \<and> spells ts s r)"
proof -
  obtain ty str m where l: "lex_token s = (ty, str, m)" by (metis prod_cases3)
  have "(\<exists>ts. list_toks l ts \<and> spells ts s r) \<longleftrightarrow>
      ty = runeToken (CHR ''('') \<and> parse_conditions [] m = Some (conditions l, r)"
    using lex_word_Not(3) [OF l] unfolding list_toks_def parse_conditions_iff
    by (simp add: spells_Cons_iff l ex_simps [symmetric] del: ex_simps) blast
  then show ?thesis using l by (cases l) (auto simp: parseList_def split: if_splits)
qed

text \<open>The tokens of the lists that remain of a group with the tag \<open>tag\<close> and of the groups after it.\<close>

definition tail_toks :: "string \<Rightarrow> ifList list \<Rightarrow> (string \<times> ifList list) list \<Rightarrow> tok list \<Rightarrow> bool" where
  "tail_toks tag ms gs ts \<longleftrightarrow>
     (\<exists>mss gss. list_all2 (\<lambda>l ts. resourceTag l = tag \<and> list_toks l ts) ms mss \<and> list_all2 group_toks gs gss \<and>
        ts = concat mss @ concat gss)"

lemma tail_Nil: "tail_toks tag [] [] ts \<longleftrightarrow> ts = []"
  by (simp add: tail_toks_def)

lemma tail_list:
  "tail_toks tag (l # ms) gs ts \<longleftrightarrow>
     resourceTag l = tag \<and> (\<exists>us vs. ts = us @ vs \<and> list_toks l us \<and> tail_toks tag ms gs vs)"
  by (fastforce simp: tail_toks_def list_all2_Cons1)

lemma tail_group:
  "tail_toks tag [] (g # gs) ts \<longleftrightarrow> snd g \<noteq> [] \<and> (\<exists>vs. ts = Angle (fst g) # vs \<and> tail_toks (fst g) (snd g) gs vs)"
  by (fastforce simp: tail_toks_def group_toks_def list_all2_Cons1)

lemma tail_starts:
  assumes "tail_toks tag ms gs ts" "spells ts s r"
  shows "ms \<noteq> [] \<Longrightarrow> fst (lex_token s) = runeToken (CHR ''('')"
    "ms = [] \<Longrightarrow> gs \<noteq> [] \<Longrightarrow> fst (lex_token s) = angleTokenType"
    "ts = [] \<longleftrightarrow> ms = [] \<and> gs = []"
proof -
  consider "ms = []" "gs = []" | g gs' where "ms = []" "gs = g # gs'" | l ms' where "ms = l # ms'"
    by (cases ms; cases gs) auto
  then have "(ms \<noteq> [] \<longrightarrow> fst (lex_token s) = runeToken (CHR ''('')) \<and>
      (ms = [] \<longrightarrow> gs \<noteq> [] \<longrightarrow> fst (lex_token s) = angleTokenType) \<and> (ts = [] \<longleftrightarrow> ms = [] \<and> gs = [])"
    using assms by cases (auto simp: tail_Nil tail_group tail_list list_toks_def spells_Cons_iff)
  then show "ms \<noteq> [] \<Longrightarrow> fst (lex_token s) = runeToken (CHR ''('')"
    "ms = [] \<Longrightarrow> gs \<noteq> [] \<Longrightarrow> fst (lex_token s) = angleTokenType"
    "ts = [] \<longleftrightarrow> ms = [] \<and> gs = []" by blast+
qed

lemma untagged_tail: "untagged_toks h ts \<longleftrightarrow> ihlists h \<noteq> [] \<and> tail_toks [] (ihlists h) [] ts"
  by (simp add: untagged_toks_def tail_toks_def)

lemma tagged_tail:
  "tagged_toks h ts \<longleftrightarrow> (\<exists>gs. gs \<noteq> [] \<and> ihlists h = concat (map snd gs) \<and> tail_toks tag [] gs ts)"
  by (auto simp: tagged_toks_def tail_toks_def)

text \<open>Nothing is spelled by the empty text, and something by every other one.\<close>

lemma spells_empty: "spells ts [] r \<longleftrightarrow> ts = [] \<and> r = []"
proof (cases ts)
  case (Cons t us)
  have "fst (tok_type t) \<noteq> eofTokenType" by (cases t) auto
  then show ?thesis using Cons by (auto simp: spells_Cons_iff lex_token_def)
qed auto

text \<open>The whole text spells such a tail.\<close>

definition tail_spelled :: "string \<Rightarrow> ifList list \<Rightarrow> (string \<times> ifList list) list \<Rightarrow> string \<Rightarrow> bool" where
  "tail_spelled tag ms gs s \<longleftrightarrow> (\<exists>ts. tail_toks tag ms gs ts \<and> spells ts s [])"

lemma spelled_empty: "tail_spelled tag ms gs [] \<longleftrightarrow> ms = [] \<and> gs = []"
  using tail_starts(3) [of tag ms gs "[]" "[]" "[]"] by (auto simp: tail_spelled_def spells_empty tail_Nil)

lemma spelled_Nil: "tail_spelled tag [] [] s \<longleftrightarrow> s = []"
  by (auto simp: tail_spelled_def tail_Nil)

lemma spelled_list:
  "tail_spelled tag (l # ms) gs s \<longleftrightarrow>
     resourceTag l = tag \<and> (\<exists>u. parseList s = Some (l\<lparr>resourceTag := []\<rparr>, u) \<and> tail_spelled tag ms gs u)"
proof -
  have "list_toks (l\<lparr>resourceTag := []\<rparr>) = list_toks l" by (auto simp: list_toks_def fun_eq_iff)
  moreover have "(\<exists>ts. (\<exists>us vs. ts = us @ vs \<and> A us \<and> B vs) \<and> spells ts s []) \<longleftrightarrow>
      (\<exists>u. (\<exists>us. A us \<and> spells us s u) \<and> (\<exists>vs. B vs \<and> spells vs u []))" for A B
    using spells_append by blast
  ultimately show ?thesis unfolding tail_spelled_def tail_list parseList_iff by auto
qed

lemma spelled_group:
  "tail_spelled tag [] (g # gs) s \<longleftrightarrow>
     snd g \<noteq> [] \<and> (\<exists>m. lex_token s = (angleTokenType, fst g, m) \<and> tail_spelled (fst g) (snd g) gs m)"
proof -
  have "spells (Angle a # vs) s [] \<longleftrightarrow> (\<exists>m. lex_token s = (angleTokenType, a, m) \<and> spells vs m [])" for a vs
    by (simp add: spells_Cons_iff)
  then show ?thesis unfolding tail_spelled_def tail_group by blast
qed

lemma spelled_starts:
  assumes "tail_spelled tag ms gs s"
  shows "fst (lex_token s) = runeToken (CHR ''('') \<Longrightarrow> ms \<noteq> []"
    "fst (lex_token s) = angleTokenType \<Longrightarrow> ms = [] \<and> gs \<noteq> []"
    "fst (lex_token s) \<notin> {runeToken (CHR ''(''), angleTokenType} \<Longrightarrow> s = []"
  using assms tail_starts [of tag ms gs _ s "[]"] unfolding tail_spelled_def
  by (cases ms; cases gs; fastforce simp: tail_Nil lex_token_def)+

text \<open>The step both loops share: a list, and then the end or more.\<close>

lemma spelled_step:
  assumes "parseList s = Some (l, u)"
  shows "ms \<noteq> [] \<and> tail_spelled tag ms gs s \<longleftrightarrow> (\<exists>ms'. ms = l\<lparr>resourceTag := tag\<rparr> # ms' \<and> tail_spelled tag ms' gs u)"
proof (cases ms)
  case (Cons m ms')
  have "m\<lparr>resourceTag := []\<rparr> = l \<and> resourceTag m = tag \<longleftrightarrow> m = l\<lparr>resourceTag := tag\<rparr>"
    using assms by (cases m; cases l) (auto simp: parseList_iff)
  then show ?thesis using assms by (auto simp: Cons spelled_list)
qed simp

lemma spelled_no_list: "parseList s = None \<Longrightarrow> ms \<noteq> [] \<Longrightarrow> \<not> tail_spelled tag ms gs s"
  by (cases ms) (auto simp: spelled_list)

lemma parseNoTagLists_iff:
  "parseNoTagLists ls s = Some h \<longleftrightarrow> (\<exists>ms. ihlists h = ls @ ms \<and> ms \<noteq> [] \<and> tail_spelled [] ms [] s)"
proof (induction ls s rule: parseNoTagLists.induct)
  case (1 ls s)
  show ?case
  proof (cases "parseList s")
    case None
    then show ?thesis using spelled_no_list [OF None] by (auto simp: parseNoTagLists.simps [of ls s])
  next
    case (Some p)
    obtain l u where p: "p = (l, u)" by (cases p)
    have l: "l\<lparr>resourceTag := []\<rparr> = l" using Some by (cases l) (simp add: p parseList_iff)
    have "(\<exists>ms. ihlists h = ls @ ms \<and> ms \<noteq> [] \<and> tail_spelled [] ms [] s) \<longleftrightarrow>
        (\<exists>ms. ihlists h = ls @ l # ms \<and> tail_spelled [] ms [] u)"
      unfolding spelled_step [OF Some [unfolded p]] l by blast
    also have "\<dots> \<longleftrightarrow> parseNoTagLists ls s = Some h"
    proof (cases "u = []")
      case True
      then show ?thesis by (cases h) (auto simp: parseNoTagLists.simps [of ls s] Some p spelled_empty)
    next
      case False
      have "parseNoTagLists ls s = parseNoTagLists (ls @ [l]) u" using False by (simp add: parseNoTagLists.simps [of ls s] Some p)
      moreover have "tail_spelled [] ms [] u \<Longrightarrow> ms \<noteq> []" for ms using False by (auto simp: spelled_Nil)
      ultimately show ?thesis using 1 [OF Some p [symmetric] False] by auto
    qed
    finally show ?thesis ..
  qed
qed

lemma parseTaggedLists_iff:
  "parseTaggedLists first tag n ls s = Some h \<longleftrightarrow>
     (\<exists>ms gs. ihlists h = ls @ ms @ concat (map snd gs) \<and> (ms \<noteq> [] \<or> gs \<noteq> [] \<and> (first \<or> n > 0)) \<and>
        tail_spelled tag ms gs s)"
  (is "_ \<longleftrightarrow> (\<exists>ms gs. ?Q first tag n ls s ms gs)")
proof (induction first tag n ls s rule: parseTaggedLists.induct)
  case (1 first tag n ls s)
  obtain ty str m where lex: "lex_token s = (ty, str, m)" by (metis prod_cases3)
  consider "ty = angleTokenType" "\<not> first" "n = 0" | "ty = angleTokenType" "\<not> (\<not> first \<and> n = 0)"
    | "ty = runeToken (CHR ''('')" "parseList s = None" | l u where "ty = runeToken (CHR ''('')" "parseList s = Some (l, u)"
    | "ty \<notin> {runeToken (CHR ''(''), angleTokenType}"
    by (cases "parseList s") auto
  then show ?case
  proof cases
    case 1
    then have "\<not> ?Q first tag n ls s ms gs" for ms gs using spelled_starts(2) [of tag ms gs s] lex by auto
    moreover have "parseTaggedLists first tag n ls s = None" using 1 lex by (subst parseTaggedLists.simps) simp
    ultimately show ?thesis by simp
  next
    case angle: 2
    have "(\<exists>ms gs. ?Q first tag n ls s ms gs) \<longleftrightarrow> (\<exists>g gs. ?Q first tag n ls s [] (g # gs))"
      using spelled_starts(2) lex angle(1) by (metis fst_conv neq_Nil_conv)
    also have "\<dots> \<longleftrightarrow> (\<exists>ms gs. ?Q False str 0 ls m ms gs)"
      using angle lex by (auto simp: spelled_group)
    also have "\<dots> \<longleftrightarrow> parseTaggedLists False str 0 ls m = Some h" using 1(1) [OF lex [symmetric] refl angle] ..
    also have "\<dots> \<longleftrightarrow> parseTaggedLists first tag n ls s = Some h" using angle lex by (auto simp: parseTaggedLists.simps [of first tag])
    finally show ?thesis ..
  next
    case 3
    then have "\<not> ?Q first tag n ls s ms gs" for ms gs
      using spelled_starts(1) [of tag ms gs s] spelled_no_list [OF 3(2), of ms tag gs] lex by auto
    moreover have "parseTaggedLists first tag n ls s = None" using 3 lex by (subst parseTaggedLists.simps) simp
    ultimately show ?thesis by simp
  next
    case (4 l u)
    let ?l = "l\<lparr>resourceTag := tag\<rparr>"
    have "?Q first tag n ls s ms gs \<longleftrightarrow> ihlists h = ls @ ms @ concat (map snd gs) \<and> ms \<noteq> [] \<and> tail_spelled tag ms gs s" for ms gs
      using spelled_starts(1) [of tag ms gs s] lex 4(1) by auto
    then have "(\<exists>ms gs. ?Q first tag n ls s ms gs) \<longleftrightarrow>
        (\<exists>ms gs. ihlists h = ls @ ms @ concat (map snd gs) \<and> ms \<noteq> [] \<and> tail_spelled tag ms gs s)" by simp
    also have "\<dots> \<longleftrightarrow> (\<exists>ms gs. ihlists h = ls @ (?l # ms) @ concat (map snd gs) \<and> tail_spelled tag ms gs u)"
      unfolding spelled_step [OF 4(2)] by blast
    also have "\<dots> \<longleftrightarrow> parseTaggedLists first tag n ls s = Some h"
    proof (cases "u = []")
      case True
      then show ?thesis using lex 4 by (cases h) (auto simp: parseTaggedLists.simps [of first] spelled_empty)
    next
      case False
      have "parseTaggedLists first tag n ls s = parseTaggedLists False tag (n + 1) (ls @ [?l]) u"
        using False lex 4 by (simp add: parseTaggedLists.simps [of first])
      moreover have "tail_spelled tag ms gs u \<Longrightarrow> ms \<noteq> [] \<or> gs \<noteq> []" for ms gs using False by (auto simp: spelled_Nil)
      ultimately show ?thesis using 1(2) [OF lex [symmetric] refl _ 4(1,2) refl refl False] 4(1) by auto
    qed
    finally show ?thesis ..
  next
    case 5
    have "\<not> ?Q first tag n ls s ms gs" for ms gs
      using 5 spelled_starts(3) [of tag ms gs s] lex spelled_empty [of tag ms gs] by auto
    moreover have "parseTaggedLists first tag n ls s = None" using 5 lex by (subst parseTaggedLists.simps) simp
    ultimately show ?thesis by simp
  qed
qed

lemma parseIfHeader_iff:
  "parseIfHeader s = Some h \<longleftrightarrow>
     ihlists h \<noteq> [] \<and> tail_spelled [] (ihlists h) [] (trim_space s) \<or>
     (\<exists>gs. gs \<noteq> [] \<and> ihlists h = concat (map snd gs) \<and> tail_spelled [] [] gs (trim_space s))"
proof -
  let ?s = "trim_space s"
  obtain ty str m where lex: "lex_token ?s = (ty, str, m)" by (metis prod_cases3)
  consider "ty = runeToken (CHR ''('')" | "ty = angleTokenType" | "ty \<notin> {runeToken (CHR ''(''), angleTokenType}" by blast
  then show ?thesis
  proof cases
    case 1
    then have "parseIfHeader s = Some h \<longleftrightarrow> ihlists h \<noteq> [] \<and> tail_spelled [] (ihlists h) [] ?s"
      using lex by (simp add: parseIfHeader_def Let_def parseNoTagLists_iff)
    moreover have "\<not> tail_spelled [] [] gs ?s" for gs using spelled_starts(1) [of "[]" "[]" gs ?s] lex 1 by auto
    ultimately show ?thesis by blast
  next
    case 2
    then have "parseIfHeader s = Some h \<longleftrightarrow> parseTaggedLists True [] 0 [] ?s = Some h"
      using lex by (simp add: parseIfHeader_def Let_def)
    moreover have no: "tail_spelled [] ms gs ?s \<Longrightarrow> ms = []" for ms gs
      using spelled_starts(2) [of "[]" ms gs ?s] lex 2 by auto
    then have "parseTaggedLists True [] 0 [] ?s = Some h \<longleftrightarrow>
        (\<exists>gs. gs \<noteq> [] \<and> ihlists h = concat (map snd gs) \<and> tail_spelled [] [] gs ?s)"
      unfolding parseTaggedLists_iff by (metis append_Nil)
    ultimately show ?thesis using no by blast
  next
    case 3
    then have "\<not> tail_spelled [] ms gs ?s" if "ms \<noteq> [] \<or> gs \<noteq> []" for ms gs
      using spelled_starts(3) [of "[]" ms gs ?s] lex spelled_empty [of "[]" ms gs] that by auto
    moreover have "parseIfHeader s = None" using 3 lex by (simp add: parseIfHeader_def Let_def)
    ultimately show ?thesis by auto
  qed
qed

text \<open>C19 (If header): The parser accepts exactly the texts of the grammar of the \<open>If\<close> header, and returns the header such a text spells:
  after trimming, the text is either at least one list without tags, or a sequence of groups, each a resource tag in angle brackets
  followed by at least one list with that tag; a list is a bracket around at least one condition, and a condition is a word or a
  text in angle or square brackets, with at most one \<open>Not\<close> before it. A printed header is read back to the same header exactly when each of its lists has a condition, each
  condition is a state token or an entity tag, and no text contains its closing bracket.\<close>

theorem parseIfHeader_round_trip:
  "(parseIfHeader s = Some h \<longleftrightarrow> (\<exists>ts. spells ts (trim_space s) [] \<and> (untagged_toks h ts \<or> tagged_toks h ts))) \<and>
   (parseIfHeader (print_header h) = Some h \<longleftrightarrow> header_ok h)"
proof
  show "parseIfHeader s = Some h \<longleftrightarrow> (\<exists>ts. spells ts (trim_space s) [] \<and> (untagged_toks h ts \<or> tagged_toks h ts))"
    unfolding parseIfHeader_iff tail_spelled_def untagged_tail tagged_tail [of h _ "[]"] by blast
  show "parseIfHeader (print_header h) = Some h \<longleftrightarrow> header_ok h"
    using parseIfHeader_print parseIfHeader_ok by blast
qed

end
