(* ===== verification/Webdav_Lock_Proofs.thy ===== *)
theory Webdav_Lock_Proofs
  imports Webdav_Lock
begin

text \<open>
  Two tools for the lock system: its expiry heap is an implementation of the heap interface, and
  \<open>walkToRoot\<close> on a cleaned name visits the name and its ancestors in order.
\<close>

section \<open>The heap of the lock system\<close>

text \<open>The state without the heap and the positions in it.\<close>

definition lock_core :: "memLS \<Rightarrow> memLS" where
  "lock_core m = m\<lparr>byExpiry := [], store := (\<lambda>a. (store m a)\<lparr>byExpiryIndex := 0\<rparr>)\<rparr>"

definition indexed :: "memLS \<Rightarrow> bool" where
  "indexed m \<longleftrightarrow> distinct (byExpiry m) \<and>
     (\<forall>i < length (byExpiry m). byExpiryIndex (store m (byExpiry m ! i)) = int i) \<and>
     (\<forall>a. a \<notin> set (byExpiry m) \<longrightarrow> byExpiryIndex (store m a) = - 1)"

lemma lock_core_expiry: "expiry (store (lock_core m) a) = expiry (store m a)"
  by (simp add: lock_core_def)

lemma upd_index_core [simp]: "lock_core (upd a (\<lambda>n. n\<lparr>byExpiryIndex := i\<rparr>) m) = lock_core m"
  by (simp add: lock_core_def upd_def fun_eq_iff)

lemma byExpiry_core [simp]: "lock_core (m\<lparr>byExpiry := b\<rparr>) = lock_core m"
  by (simp add: lock_core_def)

lemma byExpiry_upd [simp]: "byExpiry (upd a f m) = byExpiry m"
  by (simp add: upd_def)

lemma distinct_list_swap [simp]: "i < length xs \<Longrightarrow> j < length xs \<Longrightarrow> distinct (list_swap i j xs) = distinct xs"
  by (simp add: list_swap_def)

lemma set_list_swap [simp]: "i < length xs \<Longrightarrow> j < length xs \<Longrightarrow> set (list_swap i j xs) = set xs"
  by (simp add: list_swap_def)

lemma indexed_Swap:
  assumes "indexed m" "i < length (byExpiry m)" "j < length (byExpiry m)"
  shows "indexed (byExpiry_Swap i j m)"
proof -
  let ?b = "list_swap i j (byExpiry m)"
  have d: "distinct ?b" using assms by (simp add: indexed_def)
  have k: "byExpiryIndex (store (byExpiry_Swap i j m) (?b ! k)) = int k" if "k < length ?b" for k
  proof -
    have "byExpiryIndex (store (byExpiry_Swap i j m) (?b ! k)) =
        (if k = j then int j else if k = i then int i else byExpiryIndex (store m (?b ! k)))"
      using that assms(2,3) nth_eq_iff_index_eq [OF d, of k i] nth_eq_iff_index_eq [OF d, of k j]
      by (simp add: byExpiry_Swap_def Let_def upd_def)
    moreover have "k \<noteq> i \<Longrightarrow> k \<noteq> j \<Longrightarrow> ?b ! k = byExpiry m ! k" using assms(2,3) by (simp add: nth_list_swap)
    ultimately show ?thesis using that assms(1) by (simp add: indexed_def)
  qed
  moreover have "byExpiryIndex (store (byExpiry_Swap i j m) a) = - 1" if "a \<notin> set ?b" for a
  proof -
    have "a \<noteq> ?b ! i" "a \<noteq> ?b ! j" using that assms(2,3) nth_mem [of _ ?b] by fastforce+
    then show ?thesis using that assms by (simp add: byExpiry_Swap_def Let_def upd_def indexed_def)
  qed
  moreover have "byExpiry (byExpiry_Swap i j m) = ?b" by (simp add: byExpiry_Swap_def Let_def)
  ultimately show ?thesis using d by (simp add: indexed_def)
qed

lemma indexed_Push: "indexed m \<Longrightarrow> a \<notin> set (byExpiry m) \<Longrightarrow> indexed (byExpiry_Push a m)"
  by (auto simp: indexed_def byExpiry_Push_def Let_def upd_def nth_append less_Suc_eq dest: nth_mem)

lemma indexed_Pop:
  assumes "indexed m" shows "indexed (byExpiry_Pop m)"
proof (cases "byExpiry m" rule: rev_cases)
  case Nil
  then have "byExpiry_Pop m = upd ([] ! 0) (\<lambda>n. n\<lparr>byExpiryIndex := - 1\<rparr>) m"
    by (simp add: byExpiry_Pop_def Let_def upd_def)
  then show ?thesis using assms Nil by (simp add: indexed_def) (simp add: upd_def)
next
  case (snoc b a)
  then have "byExpiry_Pop m = (upd a (\<lambda>n. n\<lparr>byExpiryIndex := - 1\<rparr>) m)\<lparr>byExpiry := b\<rparr>"
    by (simp add: byExpiry_Pop_def Let_def)
  then show ?thesis using assms snoc by (auto simp: indexed_def upd_def nth_append less_Suc_eq)
qed

interpretation expiry_heap: heap_interface byExpiry_Len byExpiry_Less byExpiry_Swap byExpiry_Push byExpiry_Pop
  byExpiry lock_core "\<lambda>c a. expiry (store c a)" indexed "\<lambda>_ _. True"
proof unfold_locales
  show "byExpiry_Len s = length (byExpiry s)" for s by (simp add: byExpiry_Len_def)
  show "byExpiry_Less s i j \<longleftrightarrow> expiry (store (lock_core s) (byExpiry s ! i)) < expiry (store (lock_core s) (byExpiry s ! j))" for s i j
    by (simp add: byExpiry_Less_def lock_core_expiry)
  show "byExpiry (byExpiry_Swap i j s) = list_swap i j (byExpiry s)" "lock_core (byExpiry_Swap i j s) = lock_core s" for i j s
    by (simp_all add: byExpiry_Swap_def Let_def)
  show "byExpiry (byExpiry_Push x s) = byExpiry s @ [x]" "lock_core (byExpiry_Push x s) = lock_core s" for x s
    by (simp_all add: byExpiry_Push_def Let_def)
  show "byExpiry (byExpiry_Pop s) = butlast (byExpiry s)" "lock_core (byExpiry_Pop s) = lock_core s" for s
    by (simp_all add: byExpiry_Pop_def Let_def butlast_conv_take)
qed (simp_all add: indexed_Swap indexed_Push indexed_Pop)

lemma core_eqD:
  assumes "lock_core m' = lock_core m"
  shows "byName m' = byName m" "byToken m' = byToken m" "gen m' = gen m" "fresh m' = fresh m"
    "\<And>a. (store m' a)\<lparr>byExpiryIndex := 0\<rparr> = (store m a)\<lparr>byExpiryIndex := 0\<rparr>"
  using arg_cong [OF assms, of byName] arg_cong [OF assms, of byToken] arg_cong [OF assms, of gen]
    arg_cong [OF assms, of fresh] fun_cong [OF arg_cong [OF assms, of store]]
  by (simp_all add: lock_core_def)

lemma index_eqD:
  assumes "n\<lparr>byExpiryIndex := 0\<rparr> = n'\<lparr>byExpiryIndex := 0\<rparr>"
  shows "details n = details n'" "token n = token n'" "refCount n = refCount n'" "expiry n = expiry n'" "held n = held n'"
  using arg_cong [OF assms, of details] arg_cong [OF assms, of token] arg_cong [OF assms, of refCount]
    arg_cong [OF assms, of expiry] arg_cong [OF assms, of held] by simp_all

lemmas core_store = core_eqD(5) [THEN index_eqD(1)] core_eqD(5) [THEN index_eqD(2)] core_eqD(5) [THEN index_eqD(3)]
  core_eqD(5) [THEN index_eqD(4)] core_eqD(5) [THEN index_eqD(5)]

lemma push_expiry_correct:
  assumes "expiry_heap.ordered m" "a \<notin> set (byExpiry m)"
  shows "expiry_heap.ordered (push_expiry a m)" "lock_core (push_expiry a m) = lock_core m"
    "set (byExpiry (push_expiry a m)) = insert a (set (byExpiry m))"
proof -
  note * = expiry_heap.Push_correct [OF assms TrueI]
  show "expiry_heap.ordered (push_expiry a m)" "lock_core (push_expiry a m) = lock_core m" by (rule *)+
  show "set (byExpiry (push_expiry a m)) = insert a (set (byExpiry m))"
    using arg_cong [OF *(3), of set_mset] by simp
qed

lemma index_nonneg: "indexed m \<Longrightarrow> 0 \<le> byExpiryIndex (store m a) \<longleftrightarrow> a \<in> set (byExpiry m)"
  by (auto simp: indexed_def in_set_conv_nth)

lemma remove_expiry_correct:
  assumes "expiry_heap.ordered m" "a \<in> set (byExpiry m)"
  defines "m' \<equiv> remove_expiry (nat (byExpiryIndex (store m a))) m"
  shows "expiry_heap.ordered m'" "lock_core m' = lock_core m" "set (byExpiry m') = set (byExpiry m) - {a}"
proof -
  have idx: "indexed m" using assms(1) by (simp add: expiry_heap.ordered_def)
  obtain i where i: "i < length (byExpiry m)" "byExpiry m ! i = a" using assms(2) by (auto simp: in_set_conv_nth)
  then have at: "nat (byExpiryIndex (store m a)) = i" using idx by (auto simp: indexed_def)
  note * = expiry_heap.Remove_correct [OF assms(1) i(1)]
  show "expiry_heap.ordered m'" "lock_core m' = lock_core m" unfolding m'_def at by (rule *)+
  have "mset (byExpiry m') = mset (byExpiry m) - {#a#}" using *(3) i(2) at by (simp add: m'_def)
  then have "mset (byExpiry m') = mset (remove1 a (byExpiry m))" by simp
  then show "set (byExpiry m') = set (byExpiry m) - {a}"
    using idx by (metis indexed_def mset_eq_setD set_remove1_eq)
qed

section \<open>Walking to the root\<close>

definition clean :: "string \<Rightarrow> bool" where
  "clean x \<longleftrightarrow> (\<exists>cs. good_comps cs \<and> x = abs_path cs)"

definition comps :: "string \<Rightarrow> string list" where
  "comps x = norm_comps True (split_on (CHR ''/'') x)"

lemma comps_abs [simp]: "good_comps cs \<Longrightarrow> comps (abs_path cs) = cs"
  by (simp add: comps_def norm_split_abs_path)

lemma abs_comps [simp]: "clean x \<Longrightarrow> abs_path (comps x) = x"
  by (auto simp: clean_def)

lemma clean_slashClean [simp]: "clean (slashClean nam)"
proof -
  obtain s where "slashClean nam = path_clean (CHR ''/'' # s)"
    by (cases "nam = [] \<or> hd nam \<noteq> CHR ''/''") (cases nam, auto simp: slashClean_def)+
  then show ?thesis unfolding clean_def path_clean_abs using norm_split_good by blast
qed

text \<open>The names that \<open>walkToRoot\<close> visits.\<close>

definition chain :: "string \<Rightarrow> string list" where
  "chain x = map abs_path (rev (prefixes (comps x)))"

lemma good_prefix: "good_comps cs \<Longrightarrow> prefix ds cs \<Longrightarrow> good_comps ds"
  by (auto simp: prefix_def)

lemma chain_iff: "clean x \<Longrightarrow> r \<in> set (chain x) \<longleftrightarrow> clean r \<and> prefix (comps r) (comps x)"
proof
  assume x: "clean x" and r: "r \<in> set (chain x)"
  then obtain ds where "prefix ds (comps x)" "r = abs_path ds" by (auto simp: chain_def in_set_prefixes)
  moreover have "good_comps ds" using x calculation(1) good_prefix by (auto simp: clean_def)
  ultimately show "clean r \<and> prefix (comps r) (comps x)" by (auto simp: clean_def)
next
  assume "clean x" and r: "clean r \<and> prefix (comps r) (comps x)"
  then show "r \<in> set (chain x)" by (auto simp: chain_def in_set_prefixes intro!: image_eqI [of r abs_path "comps r"])
qed

lemma chain_self: "clean x \<Longrightarrow> x \<in> set (chain x)"
  by (simp add: chain_iff)

lemma chain_clean: "clean x \<Longrightarrow> r \<in> set (chain x) \<Longrightarrow> clean r"
  by (simp add: chain_iff)

lemma chain_trans: "clean x \<Longrightarrow> r \<in> set (chain x) \<Longrightarrow> q \<in> set (chain r) \<Longrightarrow> q \<in> set (chain x)"
  using chain_iff prefix_order.order_trans by metis

lemma chain_antisym: "clean x \<Longrightarrow> clean y \<Longrightarrow> x \<in> set (chain y) \<Longrightarrow> y \<in> set (chain x) \<Longrightarrow> x = y"
  by (metis abs_comps chain_iff prefix_order.antisym)

lemma distinct_chain: "clean x \<Longrightarrow> distinct (chain x)"
proof -
  assume x: "clean x"
  have "inj_on abs_path (set (prefixes (comps x)))"
  proof (rule inj_onI)
    fix a b assume "a \<in> set (prefixes (comps x))" "b \<in> set (prefixes (comps x))" "abs_path a = abs_path b"
    moreover have "good_comps (comps x)" using x by (auto simp: clean_def)
    ultimately show "a = b" using abs_path_inject good_prefix by (simp add: in_set_prefixes)
  qed
  then show ?thesis by (simp add: chain_def distinct_map distinct_prefixes)
qed

text \<open>The test of \<open>lookup\<close> for a resource below the root of a lock.\<close>

lemma chain_prefix:
  assumes "clean x" "clean r"
  shows "r \<in> set (chain x) \<longleftrightarrow> x = r \<or> r = ''/'' \<or> has_prefix x (r @ ''/'')"
proof -
  obtain cs ds where cs: "good_comps cs" "x = abs_path cs" and ds: "good_comps ds" "r = abs_path ds"
    using assms by (auto simp: clean_def)
  have "r \<in> set (chain x) \<longleftrightarrow> prefix ds cs" using assms cs ds by (simp add: chain_iff)
  moreover have "x = r \<longleftrightarrow> cs = ds" using abs_path_inject [OF cs(1) ds(1)] cs ds by auto
  moreover have "r = ''/'' \<longleftrightarrow> ds = []" using abs_path_inject [OF ds(1), of "[]"] ds by (auto simp: abs_path_def)
  moreover have "ds \<noteq> [] \<Longrightarrow> has_prefix x (r @ ''/'') \<longleftrightarrow> strict_prefix ds cs"
    using prefix_abs_path [OF ds(1) cs(1)] cs ds by (simp add: has_prefix_def)
  ultimately show ?thesis by (cases "ds = []") (auto simp: strict_prefix_def)
qed

fun walk_fold :: "(string \<Rightarrow> bool \<Rightarrow> 's \<Rightarrow> (bool \<times> 's) option) \<Rightarrow> string list \<Rightarrow> bool \<Rightarrow> 's \<Rightarrow> (bool \<times> 's) option" where
  "walk_fold f [] b s = Some (True, s)"
| "walk_fold f (x # xs) b s = (case f x b s of
     None \<Rightarrow> None | Some (False, s) \<Rightarrow> Some (False, s) | Some (True, s) \<Rightarrow> walk_fold f xs False s)"

lemma walkToRoot_comps:
  "good_comps cs \<Longrightarrow> walkToRoot f (abs_path cs) b s = walk_fold f (map abs_path (rev (prefixes cs))) b s"
proof (induction cs arbitrary: b s rule: rev_induct)
  case Nil
  show ?case by (simp add: walkToRoot.simps [of f "abs_path []"]) (simp add: abs_path_def split: option.split bool.split prod.split)
next
  case (snoc c cs)
  let ?x = "abs_path (cs @ [c])"
  have c: "c \<noteq> []" "CHR ''/'' \<notin> set c" using snoc.prems by (simp_all add: good_comp_def)
  have ne: "?x \<noteq> ''/''" using abs_path_suffix_slash [OF snoc.prems] by auto
  obtain i where i: "last_index_str ''/'' ?x = Some i" "(if take i ?x = [] then ''/'' else take i ?x) = abs_path cs"
  proof (cases "cs = []")
    case True
    then have "last_index_str ''/'' ?x = Some 0" using last_index_slash_append [OF c(2), of "[]"] by (simp add: abs_path_def)
    then show ?thesis using that True by (simp add: abs_path_def)
  next
    case False
    then have "?x = abs_path cs @ CHR ''/'' # c" by (simp add: abs_path_append) (simp add: abs_path_def)
    then show ?thesis using that last_index_slash_append [OF c(2), of "abs_path cs"] by (simp add: abs_path_def)
  qed
  have "walkToRoot f ?x b s = (case f ?x b s of
      None \<Rightarrow> None | Some (False, s) \<Rightarrow> Some (False, s) | Some (True, s) \<Rightarrow> walkToRoot f (abs_path cs) False s)"
    using ne by (simp only: walkToRoot.simps [of f ?x] i if_False option.case)
  then show ?case using snoc by (simp add: prefixes_snoc split: option.split bool.split prod.split)
qed

lemma walkToRoot_chain: "clean x \<Longrightarrow> walkToRoot f x b s = walk_fold f (chain x) b s"
  by (auto simp: clean_def chain_def walkToRoot_comps)

lemma chain_Cons: assumes "clean x" shows "\<exists>ys. chain x = x # ys"
proof -
  obtain cs where "good_comps cs" "x = abs_path cs" using assms by (auto simp: clean_def)
  then show ?thesis by (cases cs rule: rev_cases) (simp_all add: chain_def prefixes_snoc)
qed

end
