(* ===== verification/Lock_Table.thy ===== *)
theory Lock_Table
  imports Webdav_Lock_Proofs
begin

text \<open>
  The representation invariant of the lock system and the changes of the table of nodes: a node
  exists for a name exactly when the name or something below it is locked, its reference count is the
  number of such locks, and the heap holds the locks that can expire.
\<close>

section \<open>Nodes by name\<close>

definition node :: "memLS \<Rightarrow> string \<Rightarrow> memLSNode option" where
  "node m x = map_option (store m) (byName m x)"

definition names_ok :: "memLS \<Rightarrow> bool" where
  "names_ok m \<longleftrightarrow> (\<forall>x a. byName m x = Some a \<longrightarrow> a < fresh m \<and> Root (details (store m a)) = x)"

lemma names_inj: "names_ok m \<Longrightarrow> byName m x = Some a \<Longrightarrow> byName m y = Some a \<Longrightarrow> x = y"
  by (auto simp: names_ok_def)

lemma node_Some: "node m x = Some n \<longleftrightarrow> (\<exists>a. byName m x = Some a \<and> store m a = n)"
  by (auto simp: node_def)

lemma node_None: "node m x = None \<longleftrightarrow> byName m x = None"
  by (simp add: node_def)

lemma upd_simps [simp]: "byName (upd a f m) = byName m" "byToken (upd a f m) = byToken m" "gen (upd a f m) = gen m"
    "fresh (upd a f m) = fresh m" "store (upd a f m) b = (if b = a then f (store m a) else store m b)"
  by (simp_all add: upd_def)

lemma node_upd:
  "names_ok m \<Longrightarrow> byName m x = Some a \<Longrightarrow> node (upd a f m) = (node m)(x \<mapsto> f (store m a))"
  subgoal premises prems
  proof
    fix z
    show "node (upd a f m) z = ((node m)(x \<mapsto> f (store m a))) z"
      using prems names_inj [OF prems, of z] by (cases "byName m z") (auto simp: node_def)
  qed
  done

lemma names_ok_upd:
  "names_ok m \<Longrightarrow> (\<And>n. Root (details (f n)) = Root (details n)) \<Longrightarrow> names_ok (upd a f m)"
  by (auto simp: names_ok_def)

text \<open>The locks that can expire.\<close>

definition live :: "memLSNode \<Rightarrow> bool" where
  "live n \<longleftrightarrow> token n \<noteq> [] \<and> \<not> held n \<and> 0 \<le> Duration (details n)"

definition timed :: "memLS \<Rightarrow> nat set" where
  "timed m = {a. \<exists>x. byName m x = Some a \<and> live (store m a)}"

definition heap_ok :: "memLS \<Rightarrow> bool" where
  "heap_ok m \<longleftrightarrow> expiry_heap.ordered m \<and> set (byExpiry m) = timed m"

lemma timed_allocated: "names_ok m \<Longrightarrow> a \<in> timed m \<Longrightarrow> a < fresh m"
  by (auto simp: names_ok_def timed_def)

lemma ordered_cong:
  assumes "expiry_heap.ordered m" "byExpiry m' = byExpiry m"
    and "\<And>a. byExpiryIndex (store m' a) = byExpiryIndex (store m a)"
    and "\<And>a. a \<in> set (byExpiry m) \<Longrightarrow> expiry (store m' a) = expiry (store m a)"
  shows "expiry_heap.ordered m'"
proof -
  have "parent c < length (byExpiry m)" if "0 < c" "c < length (byExpiry m)" for c
    using that parent_less [of c] by simp
  then show ?thesis using assms
    by (simp add: expiry_heap.ordered_def indexed_def heap_order_def heap_at_def lock_core_expiry)
qed

section \<open>Creating nodes\<close>

definition bump :: "memLSNode \<Rightarrow> memLSNode" where
  "bump n = n\<lparr>refCount := refCount n + 1\<rparr>"

definition node_or_empty :: "memLS \<Rightarrow> string \<Rightarrow> memLSNode" where
  "node_or_empty m x = (case node m x of None \<Rightarrow> empty_node x | Some n \<Rightarrow> n)"

lemma bump_simps [simp]: "details (bump n) = details n" "token (bump n) = token n" "expiry (bump n) = expiry n"
    "held (bump n) = held n" "byExpiryIndex (bump n) = byExpiryIndex n" "refCount (bump n) = refCount n + 1"
    "live (bump n) = live n"
  by (simp_all add: bump_def live_def)

lemma empty_node_simps [simp]: "\<not> live (empty_node x)" "token (empty_node x) = []" "held (empty_node x) = False"
    "Root (details (empty_node x)) = x" "refCount (empty_node x) = 0" "byExpiryIndex (empty_node x) = - 1"
  by (simp_all add: empty_node_def live_def)

lemma create_step_correct:
  assumes "names_ok m" "heap_ok m"
  shows "\<exists>m'. create_step y b m = Some (True, m') \<and> names_ok m' \<and> heap_ok m' \<and>
    node m' = (node m)(y \<mapsto> bump (node_or_empty m y)) \<and> byToken m' = byToken m \<and> gen m' = gen m \<and>
    byName m \<subseteq>\<^sub>m byName m'"
proof (cases "byName m y")
  case None
  let ?m = "m\<lparr>byName := (byName m)(y \<mapsto> fresh m), store := (store m)(fresh m := empty_node y), fresh := fresh m + 1\<rparr>"
  let ?m' = "upd (fresh m) bump ?m"
  have new: "fresh m \<notin> set (byExpiry m)" "\<And>x. byName m x \<noteq> Some (fresh m)"
    using assms timed_allocated [OF assms(1)] by (fastforce simp: heap_ok_def names_ok_def)+
  have names: "names_ok ?m" using assms(1) by (auto simp: names_ok_def less_Suc_eq)
  then have "names_ok ?m'" by (intro names_ok_upd) simp_all
  moreover have "expiry_heap.ordered ?m'"
  proof (rule ordered_cong [of m])
    show "expiry_heap.ordered m" using assms(2) by (simp add: heap_ok_def)
    then have "byExpiryIndex (store m (fresh m)) = - 1" using new(1) by (simp add: expiry_heap.ordered_def indexed_def)
    then show "byExpiryIndex (store ?m' a) = byExpiryIndex (store m a)" for a by simp
    show "expiry (store ?m' a) = expiry (store m a)" if "a \<in> set (byExpiry m)" for a using that new(1) by auto
  qed simp
  moreover have "timed ?m' = timed m" using new(2) None by (auto simp: timed_def split: if_splits) (metis option.distinct(1))
  moreover have "node ?m' = (node m)(y \<mapsto> bump (node_or_empty m y))"
  proof
    fix z
    show "node ?m' z = ((node m)(y \<mapsto> bump (node_or_empty m y))) z"
      using None new(2) [of z] by (cases "byName m z") (auto simp: node_def node_or_empty_def)
  qed
  ultimately show ?thesis using None assms(2)
    by (intro exI [of _ ?m']) (auto simp: create_step_def bump_def [abs_def] heap_ok_def map_le_def)
next
  case (Some a)
  let ?m' = "upd a bump m"
  have "timed ?m' = timed m" by (auto simp: timed_def)
  moreover have "expiry_heap.ordered m" using assms(2) by (simp add: heap_ok_def)
  then have "expiry_heap.ordered ?m'" by (rule ordered_cong) simp_all
  moreover have "names_ok ?m'" using assms(1) by (intro names_ok_upd) simp_all
  moreover have "node ?m' = (node m)(y \<mapsto> bump (node_or_empty m y))"
    using node_upd [OF assms(1) Some] Some by (simp add: node_or_empty_def node_def)
  ultimately show ?thesis using Some assms(2)
    by (intro exI [of _ ?m']) (auto simp: create_step_def bump_def [abs_def] heap_ok_def)
qed

lemma create_fold_correct:
  assumes "names_ok m" "heap_ok m" "distinct ys"
  shows "\<exists>m'. walk_fold create_step ys b m = Some (True, m') \<and> names_ok m' \<and> heap_ok m' \<and>
    (\<forall>x. node m' x = (if x \<in> set ys then Some (bump (node_or_empty m x)) else node m x)) \<and>
    byToken m' = byToken m \<and> gen m' = gen m \<and> byName m \<subseteq>\<^sub>m byName m'"
  using assms
proof (induction ys arbitrary: b m)
  case (Cons y ys)
  obtain m1 where m1: "create_step y b m = Some (True, m1)" "names_ok m1" "heap_ok m1"
      "node m1 = (node m)(y \<mapsto> bump (node_or_empty m y))" "byToken m1 = byToken m" "gen m1 = gen m"
      "byName m \<subseteq>\<^sub>m byName m1"
    using create_step_correct [OF Cons.prems(1,2)] by blast
  obtain m2 where m2: "walk_fold create_step ys False m1 = Some (True, m2)" "names_ok m2" "heap_ok m2"
      "\<forall>x. node m2 x = (if x \<in> set ys then Some (bump (node_or_empty m1 x)) else node m1 x)"
      "byToken m2 = byToken m1" "gen m2 = gen m1" "byName m1 \<subseteq>\<^sub>m byName m2"
    using Cons.IH [OF m1(2,3)] Cons.prems(3) by auto
  have "node_or_empty m1 x = node_or_empty m x" if "x \<in> set ys" for x
    using that Cons.prems(3) m1(4) by (auto simp: node_or_empty_def)
  then show ?case using m1 m2 Cons.prems(3) by (auto intro: map_le_trans)
qed auto

section \<open>Removing nodes\<close>

definition same_but_count :: "memLS \<Rightarrow> memLS \<Rightarrow> bool" where
  "same_but_count m m' \<longleftrightarrow> (\<forall>a. (store m' a)\<lparr>refCount := 0\<rparr> = (store m a)\<lparr>refCount := 0\<rparr>)"

lemma same_but_countD:
  assumes "same_but_count m m'"
  shows "details (store m' a) = details (store m a)" "token (store m' a) = token (store m a)"
    "held (store m' a) = held (store m a)" "expiry (store m' a) = expiry (store m a)"
    "byExpiryIndex (store m' a) = byExpiryIndex (store m a)"
proof -
  have *: "(store m' a)\<lparr>refCount := 0\<rparr> = (store m a)\<lparr>refCount := 0\<rparr>" using assms by (simp add: same_but_count_def)
  show "details (store m' a) = details (store m a)" "token (store m' a) = token (store m a)"
    "held (store m' a) = held (store m a)" "expiry (store m' a) = expiry (store m a)"
    "byExpiryIndex (store m' a) = byExpiryIndex (store m a)"
    using arg_cong [OF *, of details] arg_cong [OF *, of token] arg_cong [OF *, of held]
      arg_cong [OF *, of expiry] arg_cong [OF *, of byExpiryIndex] by simp_all
qed

definition drop1 :: "memLSNode \<Rightarrow> memLSNode option" where
  "drop1 n = (if refCount n = 1 then None else Some (n\<lparr>refCount := refCount n - 1\<rparr>))"

lemma remove_fold_correct:
  assumes "names_ok m" "distinct ys" "\<forall>y \<in> set ys. node m y \<noteq> None"
  shows "\<exists>m'. walk_fold remove_step ys b m = Some (True, m') \<and> names_ok m' \<and> same_but_count m m' \<and>
    (\<forall>x. node m' x = (if x \<in> set ys then Option.bind (node m x) drop1 else node m x)) \<and>
    byToken m' = byToken m \<and> gen m' = gen m \<and> byExpiry m' = byExpiry m \<and> byName m' \<subseteq>\<^sub>m byName m"
  using assms
proof (induction ys arbitrary: b m)
  case Nil
  then show ?case by (auto simp: same_but_count_def)
next
  case (Cons y ys)
  obtain a where a: "byName m y = Some a" using Cons.prems(3) by (auto simp: node_None)
  let ?m = "upd a (\<lambda>n. n\<lparr>refCount := refCount n - 1\<rparr>) m"
  define m1 where "m1 = (if refCount (store ?m a) = 0 then ?m\<lparr>byName := (byName ?m)(y := None)\<rparr> else ?m)"
  have step: "remove_step y b m = Some (True, m1)" using a by (simp add: remove_step_def m1_def Let_def)
  have names: "names_ok m1" using Cons.prems(1) by (auto simp: names_ok_def m1_def)
  have nodes: "node m1 x = (if x = y then Option.bind (node m y) drop1 else node m x)" for x
  proof (cases "byName m x")
    case (Some c)
    then have "x \<noteq> y \<Longrightarrow> c \<noteq> a" using a names_inj [OF Cons.prems(1)] by blast
    then show ?thesis using a Some by (simp add: m1_def node_def drop1_def)
  qed (use a in \<open>auto simp: m1_def node_def\<close>)
  have same: "same_but_count m m1" by (simp add: same_but_count_def m1_def)
  have le: "byName m1 \<subseteq>\<^sub>m byName m" by (auto simp: m1_def map_le_def split: if_splits)
  have "\<forall>z \<in> set ys. node m1 z \<noteq> None" using Cons.prems(2,3) nodes by (auto split: if_splits)
  then obtain m2 where m2: "walk_fold remove_step ys False m1 = Some (True, m2)" "names_ok m2" "same_but_count m1 m2"
      "\<forall>x. node m2 x = (if x \<in> set ys then Option.bind (node m1 x) drop1 else node m1 x)"
      "byToken m2 = byToken m1" "gen m2 = gen m1" "byExpiry m2 = byExpiry m1" "byName m2 \<subseteq>\<^sub>m byName m1"
    using Cons.IH [OF names, of False] Cons.prems(2) by auto
  have "same_but_count m m2" using same m2(3) by (simp add: same_but_count_def)
  moreover have "byToken m1 = byToken m" "gen m1 = gen m" "byExpiry m1 = byExpiry m" by (simp_all add: m1_def)
  moreover have "byName m2 \<subseteq>\<^sub>m byName m" using le m2(8) by (blast intro: map_le_trans)
  ultimately show ?case using step m2 nodes Cons.prems(2) by auto
qed

section \<open>The invariant of the nodes\<close>

type_synonym nodes = "string \<Rightarrow> memLSNode option"

definition locked :: "nodes \<Rightarrow> string set" where
  "locked N = {y. \<exists>n. N y = Some n \<and> token n \<noteq> []}"

text \<open>The locks at or below a name.\<close>

definition users :: "nodes \<Rightarrow> string \<Rightarrow> string set" where
  "users N x = {y \<in> locked N. x \<in> set (chain y)}"

definition nodes_ok :: "nodes \<Rightarrow> bool" where
  "nodes_ok N \<longleftrightarrow> finite (locked N) \<and>
     (\<forall>x n. N x = Some n \<longrightarrow> clean x \<and> refCount n = int (card (users N x)) \<and> users N x \<noteq> {} \<and> (held n \<longrightarrow> token n \<noteq> [])) \<and>
     (\<forall>x. users N x \<noteq> {} \<longrightarrow> N x \<noteq> None) \<and>
     (\<forall>x n y. N x = Some n \<longrightarrow> token n \<noteq> [] \<longrightarrow> \<not> ZeroDepth (details n) \<longrightarrow> y \<in> users N x \<longrightarrow> y = x)"

lemma nodes_okD:
  assumes "nodes_ok N"
  shows "finite (locked N)" "N x = Some n \<Longrightarrow> clean x" "N x = Some n \<Longrightarrow> refCount n = int (card (users N x))"
    "N x = Some n \<Longrightarrow> users N x \<noteq> {}" "N x = Some n \<Longrightarrow> held n \<Longrightarrow> token n \<noteq> []"
    "y \<in> users N x \<Longrightarrow> \<exists>n. N x = Some n"
    "N x = Some n \<Longrightarrow> token n \<noteq> [] \<Longrightarrow> \<not> ZeroDepth (details n) \<Longrightarrow> y \<in> users N x \<Longrightarrow> y = x"
    "y \<in> locked N \<Longrightarrow> clean y"
  using assms unfolding nodes_ok_def locked_def by (blast | fastforce)+

lemma nodes_ok_finite_users: "nodes_ok N \<Longrightarrow> finite (users N x)"
  by (auto simp: nodes_ok_def users_def)

lemma users_self: "nodes_ok N \<Longrightarrow> x \<in> locked N \<Longrightarrow> x \<in> users N x"
  using nodes_okD(8) by (auto simp: users_def intro: chain_self)

text \<open>Two nodes that agree but for the reference count and the position in the heap.\<close>

definition alike :: "memLSNode \<Rightarrow> memLSNode \<Rightarrow> bool" where
  "alike n n' \<longleftrightarrow> details n' = details n \<and> token n' = token n \<and> held n' = held n \<and> expiry n' = expiry n"

text \<open>The last lock on a name goes away.\<close>

definition without :: "nodes \<Rightarrow> string \<Rightarrow> nodes" where
  "without N x y =
     (let N2 = N(x := map_option (\<lambda>n. n\<lparr>token := []\<rparr>) (N x))
      in if y \<in> set (chain x) then Option.bind (N2 y) drop1 else N2 y)"

lemma without_Some:
  assumes "nodes_ok N" "x \<in> locked N" "y \<noteq> x"
  shows "without N x y = (if users N y - {x} = {} then None
    else map_option (\<lambda>n. n\<lparr>refCount := int (card (users N y - {x}))\<rparr>) (N y))"
proof (cases "N y")
  case None
  then have "users N y = {}" using nodes_okD(6) [OF assms(1)] by (metis ex_in_conv option.distinct(1))
  then show ?thesis using None assms(3) by (simp add: without_def Let_def)
next
  case (Some n)
  have rc: "refCount n = int (card (users N y))" using nodes_okD(3) [OF assms(1) Some] .
  have fin: "finite (users N y)" by (rule nodes_ok_finite_users [OF assms(1)])
  show ?thesis
  proof (cases "y \<in> set (chain x)")
    case True
    then have "x \<in> users N y" using assms(2) by (simp add: users_def)
    then have "card (users N y) = Suc (card (users N y - {x}))" using fin by (metis card_Suc_Diff1)
    moreover have "card (users N y - {x}) = 0 \<longleftrightarrow> users N y - {x} = {}" using fin by simp
    ultimately show ?thesis using True Some assms(3) rc by (simp add: without_def drop1_def)
  next
    case False
    then have "users N y - {x} = users N y" by (auto simp: users_def)
    then show ?thesis using False Some assms(3) rc nodes_okD(4) [OF assms(1) Some] by (simp add: without_def)
  qed
qed

lemma without_self:
  assumes "nodes_ok N" "N x = Some n" "token n \<noteq> []"
  shows "without N x x = (if users N x - {x} = {} then None
    else Some (n\<lparr>token := [], refCount := int (card (users N x - {x}))\<rparr>))"
proof -
  have x: "x \<in> locked N" using assms by (auto simp: locked_def)
  then have "x \<in> users N x" by (rule users_self [OF assms(1)])
  moreover have fin: "finite (users N x)" by (rule nodes_ok_finite_users [OF assms(1)])
  ultimately have "card (users N x) = Suc (card (users N x - {x}))" by (metis card_Suc_Diff1)
  moreover have "card (users N x - {x}) = 0 \<longleftrightarrow> users N x - {x} = {}" using fin by simp
  moreover have "x \<in> set (chain x)" using nodes_okD(8) [OF assms(1) x] by (rule chain_self)
  ultimately show ?thesis using assms(2) nodes_okD(3) [OF assms(1,2)] by (simp add: without_def drop1_def)
qed

lemma without_ok:
  assumes "nodes_ok N" "N x = Some n" "token n \<noteq> []" "\<not> held n"
  shows "nodes_ok (without N x)" "locked (without N x) = locked N - {x}"
    "\<And>y. y \<in> locked N - {x} \<Longrightarrow> \<exists>n n'. N y = Some n \<and> without N x y = Some n' \<and> alike n n'"
proof -
  have x: "x \<in> locked N" using assms by (auto simp: locked_def)
  have Some: "\<exists>n. N y = Some n \<and> without N x y = Some (n\<lparr>refCount := int (card (users N y - {x}))\<rparr>)"
    if "users N y - {x} \<noteq> {}" "y \<noteq> x" for y
    using that without_Some [OF assms(1) x that(2)] nodes_okD(6) [OF assms(1)] by fastforce
  show l: "locked (without N x) = locked N - {x}"
  proof (intro equalityI subsetI)
    fix y assume "y \<in> locked N - {x}"
    then have "users N y - {x} \<noteq> {}" "y \<noteq> x" using users_self [OF assms(1)] by auto
    then show "y \<in> locked (without N x)" using Some \<open>y \<in> locked N - {x}\<close> by (fastforce simp: locked_def)
  next
    fix y assume "y \<in> locked (without N x)"
    then show "y \<in> locked N - {x}"
      using without_Some [OF assms(1) x, of y] without_self [OF assms(1-3)]
      by (cases "y = x") (auto simp: locked_def split: if_splits)
  qed
  then have u: "users (without N x) y = users N y - {x}" for y by (auto simp: users_def)
  show "\<exists>n n'. N y = Some n \<and> without N x y = Some n' \<and> alike n n'" if "y \<in> locked N - {x}" for y
    using that Some [of y] users_self [OF assms(1)] by (fastforce simp: alike_def)
  have eq: "\<exists>n0. N y = Some n0 \<and> users N y - {x} \<noteq> {} \<and> refCount n1 = int (card (users N y - {x})) \<and>
      details n1 = details n0 \<and> held n1 = held n0 \<and> (y \<noteq> x \<longrightarrow> token n1 = token n0) \<and> (y = x \<longrightarrow> token n1 = [])"
    if "without N x y = Some n1" for y n1
    using that without_Some [OF assms(1) x, of y] without_self [OF assms(1-3)] assms(2)
    by (cases "y = x") (auto split: if_splits)
  show "nodes_ok (without N x)"
    unfolding nodes_ok_def u l
  proof (intro conjI allI impI)
    show "finite (locked N - {x})" using nodes_okD(1) [OF assms(1)] by simp
    fix y
    show "without N x y \<noteq> None" if "users N y - {x} \<noteq> {}"
      using that Some [OF that] without_self [OF assms(1-3)] by (cases "y = x") auto
    fix n1 assume n1: "without N x y = Some n1"
    note e = eq [OF n1]
    show "clean y" using e nodes_okD(2) [OF assms(1)] by blast
    show "refCount n1 = int (card (users N y - {x}))" "users N y - {x} \<noteq> {}" using e by blast+
    show "token n1 \<noteq> []" if h: "held n1"
    proof -
      obtain n0 where n0: "N y = Some n0" "held n0" "y \<noteq> x \<longrightarrow> token n1 = token n0" using e h by auto
      then have "y \<noteq> x" using assms(2,4) by auto
      then show ?thesis using nodes_okD(5) [OF assms(1) n0(1,2)] n0(3) by simp
    qed
    fix z assume "token n1 \<noteq> []" "\<not> ZeroDepth (details n1)" "z \<in> users N y - {x}"
    then show "z = y" using e nodes_okD(7) [OF assms(1)] by (metis DiffD1)
  qed
qed

text \<open>A new lock.\<close>

definition with_lock :: "nodes \<Rightarrow> string \<Rightarrow> memLSNode \<Rightarrow> nodes" where
  "with_lock N x n y =
     (if y = x then Some (n\<lparr>refCount := (case N x of None \<Rightarrow> 0 | Some n \<Rightarrow> refCount n) + 1\<rparr>)
      else if y \<in> set (chain x) then Some (bump (case N y of None \<Rightarrow> empty_node y | Some n \<Rightarrow> n))
      else N y)"

definition can_lock :: "nodes \<Rightarrow> string \<Rightarrow> bool \<Rightarrow> bool" where
  "can_lock N x zeroDepth \<longleftrightarrow> x \<notin> locked N \<and> (zeroDepth \<or> users N x = {}) \<and>
     (\<forall>y n. y \<in> set (chain x) \<longrightarrow> y \<noteq> x \<longrightarrow> N y = Some n \<longrightarrow> token n \<noteq> [] \<longrightarrow> ZeroDepth (details n))"

lemma refCount_users:
  assumes "nodes_ok N" shows "(case N x of None \<Rightarrow> 0 | Some n \<Rightarrow> refCount n) = int (card (users N x))"
proof (cases "N x")
  case None
  then have "users N x = {}" using nodes_okD(6) [OF assms] by fastforce
  then show ?thesis using None by simp
qed (use nodes_okD(3) [OF assms] in simp)

lemma with_lock_ok:
  assumes "nodes_ok N" "clean x" "can_lock N x (ZeroDepth (details n))" "token n \<noteq> []"
  shows "nodes_ok (with_lock N x n)" "locked (with_lock N x n) = insert x (locked N)"
    "\<And>y. y \<in> locked N \<Longrightarrow> \<exists>n0 n1. N y = Some n0 \<and> with_lock N x n y = Some n1 \<and> alike n0 n1"
proof -
  let ?W = "with_lock N x n"
  have x: "x \<notin> locked N" using assms(3) by (simp add: can_lock_def)
  have old: "\<exists>n0 n1. N y = Some n0 \<and> ?W y = Some n1 \<and> alike n0 n1" if "y \<in> locked N" for y
    using that x by (auto simp: locked_def with_lock_def alike_def)
  then show "\<exists>n0 n1. N y = Some n0 \<and> ?W y = Some n1 \<and> alike n0 n1" if "y \<in> locked N" for y using that .
  show l: "locked ?W = insert x (locked N)"
    using assms(4) old by (force simp: locked_def with_lock_def alike_def split: option.splits if_splits)
  have u: "users ?W y = (if y \<in> set (chain x) then insert x (users N y) else users N y)" for y
    unfolding users_def l by auto
  have card: "y \<in> set (chain x) \<Longrightarrow> card (users ?W y) = Suc (card (users N y))" for y
    using x nodes_ok_finite_users [OF assms(1), of y] card_insert_disjoint [of "users N y" x] u [of y]
    by (auto simp: users_def [of N])
  have eq: "clean y \<and> refCount n1 = int (card (users ?W y)) \<and> users ?W y \<noteq> {} \<and>
      (y \<noteq> x \<longrightarrow> token n1 \<noteq> [] \<longrightarrow> (\<exists>n0. N y = Some n0 \<and> alike n0 n1)) \<and> (y \<noteq> x \<longrightarrow> held n1 \<longrightarrow> token n1 \<noteq> [])"
    if "?W y = Some n1" for y n1
  proof (cases "y \<in> set (chain x)")
    case True
    have "refCount n1 = int (Suc (card (users N y)))"
      using that True refCount_users [OF assms(1), of y] by (auto simp: with_lock_def split: option.splits if_splits)
    then show ?thesis using that True card [OF True] chain_clean [OF assms(2) True] nodes_okD(5) [OF assms(1), of y]
      by (auto simp: with_lock_def u alike_def split: if_splits option.splits)
  next
    case False
    then have "N y = Some n1" "y \<noteq> x" using that chain_self [OF assms(2)] by (auto simp: with_lock_def split: if_splits)
    then show ?thesis using False nodes_okD(2-5) [OF assms(1)] by (simp add: u alike_def)
  qed
  show "nodes_ok ?W"
    unfolding nodes_ok_def
  proof (intro conjI allI impI)
    show "finite (locked ?W)" using nodes_okD(1) [OF assms(1)] by (simp add: l)
    fix y
    show "?W y \<noteq> None" if "users ?W y \<noteq> {}"
      using that nodes_okD(6) [OF assms(1)] by (fastforce simp: u with_lock_def split: if_splits)
    fix n1 assume n1: "?W y = Some n1"
    show "clean y" "refCount n1 = int (card (users ?W y))" "users ?W y \<noteq> {}" using eq [OF n1] by blast+
    show "token n1 \<noteq> []" if "held n1" using eq [OF n1] that n1 assms(4) by (cases "y = x") (auto simp: with_lock_def)
    fix z assume t: "token n1 \<noteq> []" and d: "\<not> ZeroDepth (details n1)" and z: "z \<in> users ?W y"
    show "z = y"
    proof (cases "y = x")
      case True
      then have "users N x = {}" using assms(3) d n1 by (auto simp: can_lock_def with_lock_def)
      then show ?thesis using z True by (simp add: u split: if_splits)
    next
      case False
      then obtain n0 where n0: "N y = Some n0" "alike n0 n1" using eq [OF n1] t by blast
      then have "y \<notin> set (chain x)" using False assms(3) t d by (auto simp: can_lock_def alike_def)
      then show ?thesis using z n0 t d nodes_okD(7) [OF assms(1) n0(1)] by (simp add: u alike_def)
    qed
  qed
qed

lemma walk_fold_all:
  "(\<And>y. f y False () = Some (P y, ())) \<Longrightarrow> walk_fold f ys False () = Some (\<forall>y \<in> set ys. P y, ())"
  by (induction ys) (auto split: bool.split)

lemma canCreate_correct:
  assumes "nodes_ok (node m)" "clean x" shows "canCreate m x zd = Some (can_lock (node m) x zd)"
proof -
  obtain ys where ys: "chain x = x # ys" using chain_Cons [OF assms(2)] by blast
  then have dist: "x \<notin> set ys" using distinct_chain [OF assms(2)] by simp
  let ?P = "\<lambda>y. case node m y of None \<Rightarrow> True | Some n \<Rightarrow> \<not> (token n \<noteq> [] \<and> \<not> ZeroDepth (details n))"
  have rest: "walk_fold (canCreate_step m zd) ys False () = Some (\<forall>y \<in> set ys. ?P y, ())"
    by (rule walk_fold_all) (simp add: canCreate_step_def node_def split: option.split)
  have fst_step: "canCreate_step m zd x True () = Some (x \<notin> locked (node m) \<and> (zd \<or> users (node m) x = {}), ())"
  proof (cases "node m x")
    case None
    then have "users (node m) x = {}" using nodes_okD(6) [OF assms(1)] by fastforce
    then show ?thesis using None by (simp add: canCreate_step_def locked_def) (simp add: node_None)
  next
    case (Some n)
    then have "users (node m) x \<noteq> {}" by (rule nodes_okD(4) [OF assms(1)])
    then show ?thesis using Some by (auto simp: canCreate_step_def node_Some locked_def)
  qed
  have "(\<forall>y \<in> set ys. ?P y) \<longleftrightarrow>
      (\<forall>y n. y \<in> set (chain x) \<longrightarrow> y \<noteq> x \<longrightarrow> node m y = Some n \<longrightarrow> token n \<noteq> [] \<longrightarrow> ZeroDepth (details n))"
    using dist by (auto simp: ys split: option.splits)
  then show ?thesis using rest
    by (simp add: canCreate_def walkToRoot_chain [OF assms(2)] ys can_lock_def fst_step split: bool.split)
qed

end
