(* ===== verification/Lock_System.thy ===== *)
theory Lock_System
  imports Lock_Table
begin

text \<open>
  The operations of the WebDAV lock system against an abstract table of locks by resource name:
  none of them panics, each keeps the representation invariant and changes the table as the
  interface \<open>LockSystem\<close> says, and a lock that is held gives exclusive access until it is released.
\<close>

section \<open>The table of locks\<close>

record lock =
  ltoken :: string
  ldetails :: LockDetails
  lexpiry :: "int option"
  lheld :: bool

definition lock_of :: "memLSNode \<Rightarrow> lock" where
  "lock_of n = \<lparr>ltoken = token n, ldetails = details n,
     lexpiry = (if 0 \<le> Duration (details n) then Some (expiry n) else None), lheld = held n\<rparr>"

definition locks :: "memLS \<Rightarrow> string \<Rightarrow> lock option" where
  "locks m x = (case node m x of Some n \<Rightarrow> if token n \<noteq> [] then Some (lock_of n) else None | None \<Rightarrow> None)"

lemma lock_of_simps [simp]: "ltoken (lock_of n) = token n" "ldetails (lock_of n) = details n" "lheld (lock_of n) = held n"
  by (simp_all add: lock_of_def)

lemma lock_of_alike: "alike n n' \<Longrightarrow> lock_of n' = lock_of n"
  by (simp add: alike_def lock_of_def)

lemma locks_Some: "locks m x = Some l \<longleftrightarrow> (\<exists>a. byName m x = Some a \<and> token (store m a) \<noteq> [] \<and> l = lock_of (store m a))"
  by (auto simp: locks_def node_def split: option.splits if_splits)

lemma dom_locks: "dom (locks m) = locked (node m)"
  by (auto simp: locks_def locked_def split: option.splits if_splits)

section \<open>The invariant\<close>

definition tokens_ok :: "memLS \<Rightarrow> bool" where
  "tokens_ok m \<longleftrightarrow> (\<forall>t a. byToken m t = Some a \<longleftrightarrow> t \<noteq> [] \<and> (\<exists>x. byName m x = Some a \<and> token (store m a) = t))"

definition gen_ok :: "memLS \<Rightarrow> bool" where
  "gen_ok m \<longleftrightarrow> 0 \<le> gen m \<and> gen m < 2 ^ 64 \<and>
     (\<forall>x n. node m x = Some n \<longrightarrow> token n \<noteq> [] \<longrightarrow> (\<exists>k. int k \<le> gen m \<and> token n = format_nat k))"

definition base_ok :: "memLS \<Rightarrow> bool" where
  "base_ok m \<longleftrightarrow> names_ok m \<and> nodes_ok (node m) \<and> tokens_ok m \<and> gen_ok m"

definition lock_ok :: "memLS \<Rightarrow> bool" where
  "lock_ok m \<longleftrightarrow> base_ok m \<and> heap_ok m"

lemma lock_okD:
  assumes "lock_ok m"
  shows "base_ok m" "heap_ok m" "names_ok m" "nodes_ok (node m)" "tokens_ok m" "gen_ok m"
    "expiry_heap.ordered m" "set (byExpiry m) = timed m" "indexed m"
  using assms by (auto simp: lock_ok_def base_ok_def heap_ok_def expiry_heap.ordered_def)

lemma gen_ok_iff:
  "gen_ok m \<longleftrightarrow> 0 \<le> gen m \<and> gen m < 2 ^ 64 \<and>
     (\<forall>x a. byName m x = Some a \<longrightarrow> token (store m a) \<noteq> [] \<longrightarrow> (\<exists>k. int k \<le> gen m \<and> token (store m a) = format_nat k))"
  by (auto simp: gen_ok_def node_Some)

text \<open>The positions in the heap do not matter.\<close>

lemma nodes_ok_cong:
  assumes "nodes_ok N" "\<And>x. rel_option (\<lambda>n n'. alike n n' \<and> refCount n' = refCount n) (N x) (N' x)"
  shows "nodes_ok N'"
proof -
  have get: "\<exists>n. N x = Some n \<and> alike n n' \<and> refCount n' = refCount n" if "N' x = Some n'" for x n'
    using assms(2) [of x] that by (cases "N x") auto
  have none: "N' x = None \<longleftrightarrow> N x = None" for x using assms(2) [of x] by (cases "N x"; cases "N' x") auto
  have l: "locked N' = locked N"
  proof (rule set_eqI)
    fix x show "x \<in> locked N' \<longleftrightarrow> x \<in> locked N"
      using assms(2) [of x] by (cases "N x"; cases "N' x") (auto simp: locked_def alike_def)
  qed
  then have u: "users N' = users N" by (simp add: users_def fun_eq_iff)
  show ?thesis
    unfolding nodes_ok_def l u none
  proof (intro conjI allI impI)
    show "finite (locked N)" by (rule nodes_okD(1) [OF assms(1)])
    fix x
    show "N x \<noteq> None" if "users N x \<noteq> {}" using that nodes_okD(6) [OF assms(1)] by fastforce
    fix n' assume "N' x = Some n'"
    then obtain n where n: "N x = Some n" "details n' = details n" "token n' = token n" "held n' = held n" "refCount n' = refCount n"
      using get by (fastforce simp: alike_def)
    show "clean x" "refCount n' = int (card (users N x))" "users N x \<noteq> {}" "held n' \<Longrightarrow> token n' \<noteq> []"
      "\<And>y. token n' \<noteq> [] \<Longrightarrow> \<not> ZeroDepth (details n') \<Longrightarrow> y \<in> users N x \<Longrightarrow> y = x"
      unfolding n(2-5) using nodes_okD(2-5,7) [OF assms(1) n(1)] by blast+
  qed
qed

lemma core_cong:
  assumes "lock_core m' = lock_core m"
  shows "base_ok m \<Longrightarrow> base_ok m'" "locks m' = locks m" "timed m' = timed m"
proof -
  note eqs = core_eqD(1-4) [OF assms] core_store [OF assms]
  show "timed m' = timed m" by (simp add: timed_def live_def eqs)
  show "locks m' = locks m"
    by (rule ext) (auto simp: locks_def node_def lock_of_def eqs split: option.split)
  assume ok: "base_ok m"
  then have "nodes_ok (node m)" by (simp add: base_ok_def)
  then have "nodes_ok (node m')"
  proof (rule nodes_ok_cong)
    fix x show "rel_option (\<lambda>n n'. alike n n' \<and> refCount n' = refCount n) (node m x) (node m' x)"
      by (cases "byName m x") (simp_all add: node_def alike_def eqs)
  qed
  then show "base_ok m'"
    using ok by (simp add: base_ok_def names_ok_def tokens_ok_def gen_ok_iff eqs)
qed

section \<open>Changing one lock\<close>

lemma timed_upd:
  "names_ok m \<Longrightarrow> byName m x = Some a \<Longrightarrow>
     timed (upd a f m) = (timed m - {a}) \<union> (if live (f (store m a)) then {a} else {})"
  by (auto simp: timed_def)

lemma base_ok_upd:
  assumes "base_ok m" "byName m x = Some a" "token (store m a) \<noteq> []"
    and "\<And>n. token (f n) = token n" "\<And>n. refCount (f n) = refCount n" "\<And>n. Root (details (f n)) = Root (details n)"
    and "\<And>n. ZeroDepth (details (f n)) = ZeroDepth (details n)"
  shows "base_ok (upd a f m)" "locks (upd a f m) = (locks m)(x \<mapsto> lock_of (f (store m a)))"
proof -
  let ?n = "store m a" and ?N = "node m"
  have n: "?N x = Some ?n" using assms(2) by (simp add: node_def)
  have names: "names_ok m" and nodes: "nodes_ok ?N" and toks: "tokens_ok m" and gens: "gen_ok m"
    using assms(1) by (simp_all add: base_ok_def)
  have N: "node (upd a f m) = ?N(x \<mapsto> f ?n)" by (rule node_upd [OF names assms(2)])
  have l: "locked (?N(x \<mapsto> f ?n)) = locked ?N" using n assms(3) by (auto simp: locked_def assms(4))
  then have u: "users (?N(x \<mapsto> f ?n)) = users ?N" by (simp add: users_def fun_eq_iff)
  have "nodes_ok (?N(x \<mapsto> f ?n))"
    unfolding nodes_ok_def l u
  proof (intro conjI allI impI)
    show "finite (locked ?N)" by (rule nodes_okD(1) [OF nodes])
    fix y
    show "(?N(x \<mapsto> f ?n)) y \<noteq> None" if u: "users ?N y \<noteq> {}"
    proof -
      obtain z where "z \<in> users ?N y" using u by blast
      then show ?thesis using nodes_okD(6) [OF nodes] by (cases "y = x") auto
    qed
    fix n1 assume n1: "(?N(x \<mapsto> f ?n)) y = Some n1"
    then obtain n0 where n0: "?N y = Some n0" "token n1 = token n0" "refCount n1 = refCount n0"
        "ZeroDepth (details n1) = ZeroDepth (details n0)" "held n1 \<Longrightarrow> held n0 \<or> token n1 \<noteq> []"
      using n assms(3-7) by (cases "y = x") auto
    show "clean y" "refCount n1 = int (card (users ?N y))" "users ?N y \<noteq> {}" "held n1 \<Longrightarrow> token n1 \<noteq> []"
      "\<And>z. token n1 \<noteq> [] \<Longrightarrow> \<not> ZeroDepth (details n1) \<Longrightarrow> z \<in> users ?N y \<Longrightarrow> z = y"
      using nodes_okD(2-5,7) [OF nodes n0(1)] n0(2-5) by auto
  qed
  moreover have "tokens_ok (upd a f m)" using toks assms(4) by (simp add: tokens_ok_def)
  moreover have "gen_ok (upd a f m)" using gens n assms(4) by (auto simp: gen_ok_def N)
  ultimately show "base_ok (upd a f m)" using names_ok_upd [OF names assms(6)] by (simp add: base_ok_def N)
  show "locks (upd a f m) = (locks m)(x \<mapsto> lock_of (f (store m a)))"
    using assms(3,4) by (auto simp: locks_def N fun_eq_iff)
qed

lemma in_heap_iff:
  assumes "lock_ok m" "byName m x = Some a" shows "0 \<le> byExpiryIndex (store m a) \<longleftrightarrow> live (store m a)"
  using assms lock_okD [OF assms(1)] index_nonneg [of m a] by (auto simp: timed_def)

lemma hold_correct:
  assumes "lock_ok m" "byName m x = Some a" "token (store m a) \<noteq> []" "\<not> held (store m a)"
  shows "\<exists>m'. hold a m = Some m' \<and> lock_ok m' \<and> locks m' = (locks m)(x \<mapsto> (lock_of (store m a))\<lparr>lheld := True\<rparr>) \<and>
    gen m' = gen m \<and> byName m' = byName m"
proof -
  note ok = lock_okD [OF assms(1)]
  let ?m = "upd a (\<lambda>n. n\<lparr>held := True\<rparr>) m"
  let ?m' = "if 0 \<le> Duration (details (store ?m a)) \<and> 0 \<le> byExpiryIndex (store ?m a)
    then remove_expiry (nat (byExpiryIndex (store ?m a))) ?m else ?m"
  have base: "base_ok ?m" "locks ?m = (locks m)(x \<mapsto> (lock_of (store m a))\<lparr>lheld := True\<rparr>)"
    using base_ok_upd [OF ok(1) assms(2,3), of "\<lambda>n. n\<lparr>held := True\<rparr>"] by (simp_all add: lock_of_def)
  have ord: "expiry_heap.ordered ?m" using ok(7) by (rule ordered_cong) simp_all
  have timed: "timed ?m = timed m - {a}" using timed_upd [OF ok(3) assms(2)] by (simp add: live_def)
  have "lock_core ?m' = lock_core ?m \<and> expiry_heap.ordered ?m' \<and> set (byExpiry ?m') = timed m - {a}"
  proof (cases "a \<in> timed m")
    case True
    then have "0 \<le> Duration (details (store m a))" "0 \<le> byExpiryIndex (store m a)" "a \<in> set (byExpiry ?m)"
      using in_heap_iff [OF assms(1,2)] ok(8) by (auto simp: timed_def live_def)
    then show ?thesis using remove_expiry_correct [OF ord, of a] ok(8) by simp
  next
    case False
    then have "\<not> 0 \<le> byExpiryIndex (store m a)" using in_heap_iff [OF assms(1,2)] assms(2) by (auto simp: timed_def)
    then show ?thesis using ord ok(8) False by simp
  qed
  moreover have "hold a m = Some ?m'" using assms(4) by (simp add: hold_def Let_def)
  ultimately show ?thesis using base core_cong [of ?m' ?m] core_eqD(1,3) [of ?m' ?m] timed
    by (intro exI [of _ ?m']) (simp add: lock_ok_def heap_ok_def)
qed

lemma unhold_correct:
  assumes "lock_ok m" "byName m x = Some a" "held (store m a)"
  shows "\<exists>m'. unhold a m = Some m' \<and> lock_ok m' \<and> locks m' = (locks m)(x \<mapsto> (lock_of (store m a))\<lparr>lheld := False\<rparr>) \<and>
    gen m' = gen m \<and> byName m' = byName m"
proof -
  note ok = lock_okD [OF assms(1)]
  have tok: "token (store m a) \<noteq> []" using nodes_okD(5) [OF ok(4), of x] assms(2,3) by (simp add: node_def)
  let ?m = "upd a (\<lambda>n. n\<lparr>held := False\<rparr>) m"
  let ?m' = "if 0 \<le> Duration (details (store ?m a)) then push_expiry a ?m else ?m"
  have base: "base_ok ?m" "locks ?m = (locks m)(x \<mapsto> (lock_of (store m a))\<lparr>lheld := False\<rparr>)"
    using base_ok_upd [OF ok(1) assms(2) tok, of "\<lambda>n. n\<lparr>held := False\<rparr>"] by (simp_all add: lock_of_def)
  have ord: "expiry_heap.ordered ?m" using ok(7) by (rule ordered_cong) simp_all
  have a: "a \<notin> set (byExpiry ?m)" using assms(3) ok(8) by (auto simp: timed_def live_def)
  have timed: "timed ?m = timed m \<union> (if 0 \<le> Duration (details (store m a)) then {a} else {})"
    using timed_upd [OF ok(3) assms(2), of "\<lambda>n. n\<lparr>held := False\<rparr>"] a tok ok(8) by (auto simp: live_def)
  have "lock_core ?m' = lock_core ?m \<and> expiry_heap.ordered ?m' \<and> set (byExpiry ?m') = timed ?m"
    using push_expiry_correct [OF ord a] ord ok(8) timed by auto
  moreover have "unhold a m = Some ?m'" using assms(3) by (simp add: unhold_def Let_def)
  ultimately show ?thesis using base core_cong [of ?m' ?m] core_eqD(1,3) [of ?m' ?m]
    by (intro exI [of _ ?m']) (simp add: lock_ok_def heap_ok_def)
qed

section \<open>Removing locks\<close>

lemma map_le_None: "f \<subseteq>\<^sub>m g \<Longrightarrow> f x \<noteq> None \<Longrightarrow> f x = g x"
  by (auto simp: map_le_def)

lemma remove_walk:
  assumes "lock_ok m" "byName m x = Some a" "token (store m a) \<noteq> []" "\<not> held (store m a)"
  defines "m1 \<equiv> upd a (\<lambda>n. n\<lparr>token := []\<rparr>) (m\<lparr>byToken := (byToken m)(token (store m a) := None)\<rparr>)"
  shows "\<exists>m2. walkToRoot remove_step x True m1 = Some (True, m2) \<and> base_ok m2 \<and> expiry_heap.ordered m2 \<and>
    timed m2 = timed m - {a} \<and> byExpiry m2 = byExpiry m \<and> byExpiryIndex (store m2 a) = byExpiryIndex (store m a) \<and>
    locks m2 = (locks m)(x := None) \<and> gen m2 = gen m \<and> byName m2 \<subseteq>\<^sub>m byName m"
proof -
  note ok = lock_okD [OF assms(1)]
  let ?n = "store m a" and ?N = "node m"
  have n: "?N x = Some ?n" using assms(2) by (simp add: node_def)
  have x: "x \<in> locked ?N" "clean x" using n assms(3) nodes_okD(2) [OF ok(4)] by (auto simp: locked_def)
  have names: "names_ok m1" unfolding m1_def using ok(3) by (intro names_ok_upd) (simp_all add: names_ok_def)
  have n1: "node m1 = ?N(x \<mapsto> ?n\<lparr>token := []\<rparr>)"
    unfolding m1_def using node_upd [of "m\<lparr>byToken := (byToken m)(token ?n := None)\<rparr>" x a] ok(3) assms(2)
    by (simp add: names_ok_def) (simp add: node_def fun_eq_iff)
  have "\<forall>y \<in> set (chain x). node m1 y \<noteq> None"
    using nodes_okD(6) [OF ok(4)] x(1) unfolding n1 users_def by fastforce
  then obtain m2 where m2: "walk_fold remove_step (chain x) True m1 = Some (True, m2)" "names_ok m2" "same_but_count m1 m2"
      "\<forall>y. node m2 y = (if y \<in> set (chain x) then Option.bind (node m1 y) drop1 else node m1 y)"
      "byToken m2 = byToken m1" "gen m2 = gen m1" "byExpiry m2 = byExpiry m1" "byName m2 \<subseteq>\<^sub>m byName m1"
    using remove_fold_correct [OF names distinct_chain [OF x(2)], of True] by blast
  note same = same_but_countD [OF m2(3)]
  have N2: "node m2 = without ?N x" using m2(4) n by (auto simp: fun_eq_iff without_def Let_def n1)
  note w = without_ok [OF ok(4) n assms(3,4)]
  have tok: "token (store m2 b) = (if b = a then [] else token (store m b))" for b by (simp add: same m1_def)
  have live: "live (store m2 b) \<longleftrightarrow> b \<noteq> a \<and> live (store m b)" for b by (simp add: live_def same m1_def)
  have le: "byName m2 \<subseteq>\<^sub>m byName m" using m2(8) by (simp add: m1_def)
  have keep: "byName m2 y = Some b" if "byName m y = Some b" "token (store m b) \<noteq> []" "b \<noteq> a" for y b
  proof -
    have "y \<noteq> x" using that(1,3) assms(2) by auto
    moreover have "y \<in> locked ?N" using that(1,2) by (auto simp: locked_def node_def)
    ultimately have "node m2 y \<noteq> None" using w(3) [of y] N2 by fastforce
    then show ?thesis using map_le_None [OF le] that(1) by (simp add: node_None)
  qed
  have sub: "byName m y = Some b" if "byName m2 y = Some b" for y b using map_le_None [OF le, of y] that by simp
  have "tokens_ok m2"
    unfolding tokens_ok_def
  proof (intro allI iffI)
    fix t b
    assume "byToken m2 t = Some b"
    then have "byToken m t = Some b" "t \<noteq> token ?n" using m2(5) by (auto simp: m1_def split: if_splits)
    then obtain y where y: "t \<noteq> []" "byName m y = Some b" "token (store m b) = t" using ok(5) by (auto simp: tokens_ok_def)
    then have "b \<noteq> a" using \<open>t \<noteq> token ?n\<close> by auto
    then show "t \<noteq> [] \<and> (\<exists>x. byName m2 x = Some b \<and> token (store m2 b) = t)" using y keep tok by auto
  next
    fix t b
    assume "t \<noteq> [] \<and> (\<exists>x. byName m2 x = Some b \<and> token (store m2 b) = t)"
    then obtain y where y: "t \<noteq> []" "byName m y = Some b" "b \<noteq> a" "token (store m b) = t" using sub tok by (auto split: if_splits)
    have t: "byToken m t = Some b" "byToken m (token ?n) = Some a" using ok(5) y assms(2,3) unfolding tokens_ok_def by blast+
    then have "t \<noteq> token ?n" using y(3) by auto
    then show "byToken m2 t = Some b" using t(1) m2(5) by (simp add: m1_def)
  qed
  moreover have "gen_ok m2" using ok(6) sub tok m2(6) by (auto simp: gen_ok_iff m1_def split: if_splits) blast
  ultimately have "base_ok m2" using m2(2) w(1) N2 by (simp add: base_ok_def)
  moreover have "expiry_heap.ordered m2"
    using ok(7) by (rule ordered_cong) (simp_all add: m2(7) same m1_def)
  moreover have "timed m2 = timed m - {a}"
  proof (intro equalityI subsetI)
    fix b assume "b \<in> timed m2"
    then show "b \<in> timed m - {a}" using sub by (auto simp: timed_def live)
  next
    fix b assume b: "b \<in> timed m - {a}"
    then obtain y where "byName m y = Some b" "live (store m b)" by (auto simp: timed_def)
    then show "b \<in> timed m2" using b keep [of y b] by (auto simp: timed_def live) (auto simp: live_def)
  qed
  moreover have "locks m2 = (locks m)(x := None)"
  proof
    fix y show "locks m2 y = ((locks m)(x := None)) y"
    proof (cases "y \<in> locked ?N - {x}")
      case True
      then obtain n0 n1 where n01: "?N y = Some n0" "node m2 y = Some n1" "alike n0 n1" using w(3) N2 by metis
      then have "token n1 = token n0" "lock_of n1 = lock_of n0" by (simp_all add: lock_of_alike) (simp add: alike_def)
      then show ?thesis using True n01(1,2) by (simp add: locks_def)
    next
      case False
      then have "y \<notin> dom (locks m2)" "y = x \<or> y \<notin> dom (locks m)" by (auto simp: dom_locks N2 w(2))
      then show ?thesis by (auto simp: domIff)
    qed
  qed
  ultimately show ?thesis using m2(1,6,7) walkToRoot_chain [OF x(2), of remove_step True m1]
    by (intro exI [of _ m2]) (simp add: same le m1_def)
qed

lemma remove_correct:
  assumes "lock_ok m" "byName m x = Some a" "token (store m a) \<noteq> []" "\<not> held (store m a)"
  shows "\<exists>m'. remove a m = Some m' \<and> lock_ok m' \<and> locks m' = (locks m)(x := None) \<and> gen m' = gen m \<and>
    set (byExpiry m') = set (byExpiry m) - {a} \<and> byName m' \<subseteq>\<^sub>m byName m"
proof -
  note ok = lock_okD [OF assms(1)]
  let ?m1 = "upd a (\<lambda>n. n\<lparr>token := []\<rparr>) (m\<lparr>byToken := (byToken m)(token (store m a) := None)\<rparr>)"
  obtain m2 where m2: "walkToRoot remove_step x True ?m1 = Some (True, m2)" "base_ok m2" "expiry_heap.ordered m2"
      "timed m2 = timed m - {a}" "byExpiry m2 = byExpiry m" "byExpiryIndex (store m2 a) = byExpiryIndex (store m a)"
      "locks m2 = (locks m)(x := None)" "gen m2 = gen m" "byName m2 \<subseteq>\<^sub>m byName m"
    using remove_walk [OF assms] by blast
  let ?m' = "if byExpiryIndex (store m2 a) \<ge> 0 then remove_expiry (nat (byExpiryIndex (store m2 a))) m2 else m2"
  have "Root (details (store ?m1 a)) = x" using ok(3) assms(2) by (auto simp: names_ok_def)
  then have run: "remove a m = Some ?m'" using m2(1) by (simp add: remove_def Let_def)
  have "lock_core ?m' = lock_core m2 \<and> expiry_heap.ordered ?m' \<and> set (byExpiry ?m') = timed m - {a}"
  proof (cases "a \<in> timed m")
    case True
    then have "0 \<le> byExpiryIndex (store m2 a)" "a \<in> set (byExpiry m2)"
      using in_heap_iff [OF assms(1,2)] ok(8) m2(5,6) by (auto simp: timed_def)
    then show ?thesis using remove_expiry_correct [OF m2(3), of a] ok(8) m2(5) by simp
  next
    case False
    then have "\<not> 0 \<le> byExpiryIndex (store m2 a)" using in_heap_iff [OF assms(1,2)] m2(6) assms(2) by (auto simp: timed_def)
    then show ?thesis using m2(3,5) ok(8) False by simp
  qed
  then show ?thesis using run m2 core_cong [of ?m' m2] core_eqD(1,3) [of ?m' m2] ok(8)
    by (intro exI [of _ ?m']) (simp add: lock_ok_def heap_ok_def)
qed

section \<open>Expiry\<close>

text \<open>Nodes that are held stay where they are; only their release changes that.\<close>

definition held_kept :: "memLS \<Rightarrow> memLS \<Rightarrow> bool" where
  "held_kept m m' \<longleftrightarrow> (\<forall>x a. byName m x = Some a \<longrightarrow> held (store m a) \<longrightarrow> byName m' x = Some a \<and> held (store m' a))"

lemma held_kept_refl [simp]: "held_kept m m"
  by (simp add: held_kept_def)

lemma held_kept_trans [trans]: "held_kept m m' \<Longrightarrow> held_kept m' m'' \<Longrightarrow> held_kept m m''"
  unfolding held_kept_def by blast

lemma held_keptI:
  assumes "lock_ok m" "byName m' \<subseteq>\<^sub>m byName m \<or> byName m \<subseteq>\<^sub>m byName m'"
    and "\<And>x l. locks m x = Some l \<Longrightarrow> lheld l \<Longrightarrow> \<exists>l'. locks m' x = Some l' \<and> lheld l'"
  shows "held_kept m m'"
  unfolding held_kept_def
proof (intro allI impI)
  fix x a assume a: "byName m x = Some a" "held (store m a)"
  then have "locks m x = Some (lock_of (store m a))"
    using nodes_okD(5) [OF lock_okD(4) [OF assms(1)], of x] by (auto simp: locks_Some node_def)
  then obtain l where l: "locks m' x = Some l" "lheld l" using assms(3) a(2) by fastforce
  then obtain b where b: "byName m' x = Some b" "l = lock_of (store m' b)" by (auto simp: locks_Some)
  then have "b = a" using assms(2) a(1) by (auto simp: map_le_def dom_def)
  then show "byName m' x = Some a \<and> held (store m' a)" using b l(2) by simp
qed

definition expired :: "int \<Rightarrow> lock \<Rightarrow> bool" where
  "expired now l \<longleftrightarrow> \<not> lheld l \<and> (case lexpiry l of None \<Rightarrow> False | Some t \<Rightarrow> t \<le> now)"

definition expire :: "int \<Rightarrow> (string \<Rightarrow> lock option) \<Rightarrow> string \<Rightarrow> lock option" where
  "expire now L x = (case L x of None \<Rightarrow> None | Some l \<Rightarrow> if expired now l then None else Some l)"

lemma expired_lock_of:
  "token n \<noteq> [] \<Longrightarrow> expired now (lock_of n) \<longleftrightarrow> live n \<and> expiry n \<le> now"
  by (auto simp: expired_def lock_of_def live_def)

lemma no_expired:
  assumes "lock_ok m" "\<And>a. a \<in> set (byExpiry m) \<Longrightarrow> now < expiry (store m a)"
  shows "locks m = expire now (locks m)"
proof
  fix x show "locks m x = expire now (locks m) x"
  proof (cases "locks m x")
    case (Some l)
    then obtain a where a: "byName m x = Some a" "token (store m a) \<noteq> []" "l = lock_of (store m a)" by (auto simp: locks_Some)
    have "live (store m a) \<Longrightarrow> a \<in> set (byExpiry m)" using lock_okD(8) [OF assms(1)] a(1) by (auto simp: timed_def)
    then have "\<not> expired now l" using assms(2) [of a] a(2,3) by (auto simp: expired_lock_of)
    then show ?thesis using Some by (simp add: expire_def)
  qed (simp add: expire_def)
qed

lemma collect_correct:
  assumes "lock_ok m" "length (byExpiry m) \<le> fuel"
  shows "\<exists>m'. collect_rounds fuel now m = Some m' \<and> lock_ok m' \<and> locks m' = expire now (locks m) \<and> gen m' = gen m \<and>
    held_kept m m'"
  using assms
proof (induction fuel arbitrary: m)
  case 0
  then show ?case using no_expired [OF 0(1), of now] by (simp add: collect_rounds.simps [of 0])
next
  case (Suc fuel)
  note ok = lock_okD [OF Suc(2)]
  show ?case
  proof (cases "byExpiry m")
    case Nil
    then show ?thesis using no_expired [OF Suc(2), of now] Suc(2) by (simp add: collect_rounds.simps [of "Suc fuel"])
  next
    case (Cons a b)
    have a: "a \<in> timed m" using ok(8) Cons by auto
    then obtain x where x: "byName m x = Some a" "live (store m a)" by (auto simp: timed_def)
    show ?thesis
    proof (cases "now < expiry (store m a)")
      case True
      have "expiry (store m a) \<le> expiry (store m c)" if "c \<in> set (byExpiry m)" for c
        using expiry_heap.ordered_min [OF ok(7) that] Cons by (simp add: lock_core_expiry)
      then have "locks m = expire now (locks m)" using no_expired [OF Suc(2), of now] True by fastforce
      then show ?thesis using True Suc(2) Cons by (simp add: collect_rounds.simps [of "Suc fuel"])
    next
      case False
      then obtain m1 where m1: "remove a m = Some m1" "lock_ok m1" "locks m1 = (locks m)(x := None)" "gen m1 = gen m"
          "set (byExpiry m1) = set (byExpiry m) - {a}" "byName m1 \<subseteq>\<^sub>m byName m"
        using remove_correct [OF Suc(2) x(1)] x(2) by (auto simp: live_def)
      have "card (set (byExpiry m1)) < card (set (byExpiry m))" using m1(5) Cons by (intro psubset_card_mono) auto
      then have "length (byExpiry m1) \<le> fuel"
        using Suc(3) ok(9) lock_okD(9) [OF m1(2)] by (simp add: indexed_def distinct_card)
      then obtain m2 where m2: "collect_rounds fuel now m1 = Some m2" "lock_ok m2" "locks m2 = expire now (locks m1)" "gen m2 = gen m1" "held_kept m1 m2"
        using Suc.IH m1(2) by blast
      have "expire now (locks m) x = None"
        using x False by (simp add: expire_def locks_def node_def expired_lock_of live_def)
      then have "expire now (locks m1) = expire now (locks m)" by (auto simp: m1(3) expire_def fun_eq_iff)
      moreover have "locks m x = Some (lock_of (store m a))" "\<not> held (store m a)" using x by (auto simp: locks_Some live_def)
      then have "held_kept m m1" using m1(3,6) by (intro held_keptI [OF Suc(2)]) auto
      then have "held_kept m m2" using m2(5) by (rule held_kept_trans)
      ultimately show ?thesis using m1 m2 Cons False by (simp add: collect_rounds.simps [of "Suc fuel"])
    qed
  qed
qed

lemma collectExpiredNodes_correct:
  "lock_ok m \<Longrightarrow> \<exists>m'. collectExpiredNodes now m = Some m' \<and> lock_ok m' \<and> locks m' = expire now (locks m) \<and> gen m' = gen m \<and>
     held_kept m m'"
  unfolding collectExpiredNodes_def by (rule collect_correct) simp_all

section \<open>Abstract operations\<close>

text \<open>A lock at \<open>r\<close> covers its root and, with infinite depth, everything below it.\<close>

definition covers :: "lock \<Rightarrow> string \<Rightarrow> string \<Rightarrow> bool" where
  "covers l r x \<longleftrightarrow> x = r \<or> \<not> ZeroDepth (ldetails l) \<and> r \<in> set (chain x)"

definition can_place :: "(string \<Rightarrow> lock option) \<Rightarrow> string \<Rightarrow> bool \<Rightarrow> bool" where
  "can_place L x zeroDepth \<longleftrightarrow> (\<forall>y l. L y = Some l \<longrightarrow> \<not> covers l y x \<and> y \<noteq> x \<and> (zeroDepth \<or> x \<notin> set (chain y)))"

definition new_lock :: "int \<Rightarrow> string \<Rightarrow> LockDetails \<Rightarrow> lock" where
  "new_lock now tok det = \<lparr>ltoken = tok, ldetails = det,
     lexpiry = (if 0 \<le> Duration det then Some (now + Duration det) else None), lheld = False\<rparr>"

definition create_spec :: "int \<Rightarrow> LockDetails \<Rightarrow> (string \<Rightarrow> lock option) \<Rightarrow> lock_error + string \<Rightarrow> (string \<Rightarrow> lock option) \<Rightarrow> bool" where
  "create_spec now det L res L' \<longleftrightarrow>
     (let L0 = expire now L; x = slashClean (Root det) in
        if can_place L0 x (ZeroDepth det)
        then (\<exists>tok. res = Inr tok \<and> tok \<noteq> [] \<and> (\<forall>y l. L0 y = Some l \<longrightarrow> ltoken l \<noteq> tok) \<and>
               L' = L0(x \<mapsto> new_lock now tok (det\<lparr>Root := x\<rparr>)))
        else res = Inl ErrLocked \<and> L' = L0)"

definition refresh_spec :: "int \<Rightarrow> string \<Rightarrow> int \<Rightarrow> (string \<Rightarrow> lock option) \<Rightarrow> lock_error + LockDetails \<Rightarrow> (string \<Rightarrow> lock option) \<Rightarrow> bool" where
  "refresh_spec now tok duration L res L' \<longleftrightarrow>
     (let L0 = expire now L in
        (\<exists>x l. L0 x = Some l \<and> ltoken l = tok \<and>
           (if lheld l then res = Inl ErrLocked \<and> L' = L0
            else (let det = (ldetails l)\<lparr>Duration := duration\<rparr> in res = Inr det \<and> L' = L0(x \<mapsto> new_lock now tok det)))) \<or>
        (\<forall>x l. L0 x = Some l \<longrightarrow> ltoken l \<noteq> tok) \<and> res = Inl ErrNoSuchLock \<and> L' = L0)"

definition unlock_spec :: "int \<Rightarrow> string \<Rightarrow> (string \<Rightarrow> lock option) \<Rightarrow> lock_error option \<Rightarrow> (string \<Rightarrow> lock option) \<Rightarrow> bool" where
  "unlock_spec now tok L res L' \<longleftrightarrow>
     (let L0 = expire now L in
        (\<exists>x l. L0 x = Some l \<and> ltoken l = tok \<and>
           (if lheld l then res = Some ErrLocked \<and> L' = L0 else res = None \<and> L' = L0(x := None))) \<or>
        (\<forall>x l. L0 x = Some l \<longrightarrow> ltoken l \<noteq> tok) \<and> res = Some ErrNoSuchLock \<and> L' = L0)"

definition set_held :: "bool \<Rightarrow> string set \<Rightarrow> (string \<Rightarrow> lock option) \<Rightarrow> string \<Rightarrow> lock option" where
  "set_held b xs L y = (if y \<in> xs then map_option (\<lambda>l. l\<lparr>lheld := b\<rparr>) (L y) else L y)"

text \<open>A lock that can be confirmed for a resource.\<close>

definition claimable :: "(string \<Rightarrow> lock option) \<Rightarrow> Condition list \<Rightarrow> string \<Rightarrow> string \<Rightarrow> bool" where
  "claimable L conditions nam x \<longleftrightarrow>
     (\<exists>l. L x = Some l \<and> \<not> lheld l \<and> ltoken l \<in> Token ` set conditions \<and> covers l x (slashClean nam))"

definition confirm_spec :: "int \<Rightarrow> string \<Rightarrow> string \<Rightarrow> Condition list \<Rightarrow> (string \<Rightarrow> lock option) \<Rightarrow>
    lock_error + string set \<Rightarrow> (string \<Rightarrow> lock option) \<Rightarrow> bool" where
  "confirm_spec now name0 name1 conditions L res L' \<longleftrightarrow>
     (let L0 = expire now L; names = {name0, name1} - {[]} in
        if \<forall>nam \<in> names. \<exists>x. claimable L0 conditions nam x
        then (\<exists>xs. res = Inr xs \<and> (\<forall>x \<in> xs. \<exists>nam \<in> names. claimable L0 conditions nam x) \<and>
               (\<forall>nam \<in> names. \<exists>x \<in> xs. claimable L0 conditions nam x) \<and> L' = set_held True xs L0)
        else res = Inl ErrConfirmationFailed \<and> L' = L0)"

section \<open>The operations implement them\<close>

lemma can_lock_iff:
  assumes "lock_ok m" "clean x" shows "can_lock (node m) x zd \<longleftrightarrow> can_place (locks m) x zd"
proof -
  have dom: "y \<in> locked (node m) \<longleftrightarrow> (\<exists>l. locks m y = Some l)" for y using dom_locks [of m] by blast
  have *: "node m y = Some n \<and> token n \<noteq> [] \<longleftrightarrow> (\<exists>a. byName m y = Some a \<and> token (store m a) \<noteq> [] \<and> store m a = n)" for y n
    by (auto simp: node_Some)
  have "(\<forall>y n. y \<in> set (chain x) \<longrightarrow> y \<noteq> x \<longrightarrow> node m y = Some n \<longrightarrow> token n \<noteq> [] \<longrightarrow> ZeroDepth (details n)) \<longleftrightarrow>
      (\<forall>y l. y \<in> set (chain x) \<longrightarrow> y \<noteq> x \<longrightarrow> locks m y = Some l \<longrightarrow> ZeroDepth (ldetails l))"
    by (auto simp: node_Some locks_Some)
  moreover have "users (node m) x = {} \<longleftrightarrow> (\<forall>y l. locks m y = Some l \<longrightarrow> x \<notin> set (chain y))"
    unfolding users_def dom by blast
  moreover have "x \<notin> locked (node m) \<longleftrightarrow> locks m x = None" using dom by auto
  ultimately have "can_lock (node m) x zd \<longleftrightarrow> locks m x = None \<and>
      (zd \<or> (\<forall>y l. locks m y = Some l \<longrightarrow> x \<notin> set (chain y))) \<and>
      (\<forall>y l. y \<in> set (chain x) \<longrightarrow> y \<noteq> x \<longrightarrow> locks m y = Some l \<longrightarrow> ZeroDepth (ldetails l))"
    by (simp only: can_lock_def)
  also have "\<dots> \<longleftrightarrow> can_place (locks m) x zd" unfolding can_place_def covers_def by (cases "locks m x") auto
  finally show ?thesis .
qed

lemma token_lock:
  assumes "lock_ok m" "byToken m t = Some a"
  obtains x where "byName m x = Some a" "token (store m a) = t" "token (store m a) \<noteq> []" "locks m x = Some (lock_of (store m a))"
proof -
  have "t \<noteq> [] \<and> (\<exists>x. byName m x = Some a \<and> token (store m a) = t)"
    using assms(2) lock_okD(5) [OF assms(1)] by (simp add: tokens_ok_def)
  then show ?thesis using that by (auto simp: locks_Some)
qed

lemma no_token_lock:
  assumes "lock_ok m" "byToken m t = None" "locks m x = Some l" shows "ltoken l \<noteq> t"
proof
  obtain a where a: "byName m x = Some a" "token (store m a) \<noteq> []" "l = lock_of (store m a)"
    using assms(3) by (auto simp: locks_Some)
  assume "ltoken l = t"
  then have "byToken m t = Some a" using a lock_okD(5) [OF assms(1)] by (auto simp: tokens_ok_def)
  then show False using assms(2) by simp
qed

lemma Unlock_correct:
  assumes "lock_ok m"
  shows "\<exists>r m'. Unlock now tok m = Some (r, m') \<and> lock_ok m' \<and> gen m' = gen m \<and> held_kept m m' \<and> unlock_spec now tok (locks m) r (locks m')"
proof -
  obtain m0 where m0: "collectExpiredNodes now m = Some m0" "lock_ok m0" "locks m0 = expire now (locks m)" "gen m0 = gen m" "held_kept m m0"
    using collectExpiredNodes_correct [OF assms] by blast
  show ?thesis
  proof (cases "byToken m0 tok")
    case None
    then show ?thesis using m0 no_token_lock [OF m0(2) None] by (auto simp: Unlock_def unlock_spec_def Let_def)
  next
    case (Some a)
    obtain x where x: "byName m0 x = Some a" "token (store m0 a) = tok" "token (store m0 a) \<noteq> []" "locks m0 x = Some (lock_of (store m0 a))"
      using token_lock [OF m0(2) Some] by blast
    show ?thesis
    proof (cases "held (store m0 a)")
      case True
      then have "unlock_spec now tok (locks m) (Some ErrLocked) (locks m0)"
        unfolding unlock_spec_def Let_def using x m0(3) by (intro disjI1 exI [of _ x] exI [of _ "lock_of (store m0 a)"]) simp
      then show ?thesis using m0 Some True by (simp add: Unlock_def)
    next
      case False
      then obtain m' where m': "remove a m0 = Some m'" "lock_ok m'" "locks m' = (locks m0)(x := None)" "gen m' = gen m0"
          "byName m' \<subseteq>\<^sub>m byName m0"
        using remove_correct [OF m0(2) x(1,3)] by blast
      then have "unlock_spec now tok (locks m) None (locks m')"
        unfolding unlock_spec_def Let_def using x m0(3) False by (intro disjI1 exI [of _ x] exI [of _ "lock_of (store m0 a)"]) simp
      moreover have "held_kept m0 m'" using m'(3,5) x(4) False by (intro held_keptI [OF m0(2)]) auto
      then have "held_kept m m'" by (rule held_kept_trans [OF m0(5)])
      ultimately show ?thesis using m0 m' Some False by (simp add: Unlock_def)
    qed
  qed
qed

text \<open>Taking a lock off the heap, and putting it back with a new expiry time.\<close>

lemma off_heap:
  assumes "lock_ok m" "byName m x = Some a"
  defines "m' \<equiv> (if byExpiryIndex (store m a) \<ge> 0 then remove_expiry (nat (byExpiryIndex (store m a))) m else m)"
  shows "lock_core m' = lock_core m" "expiry_heap.ordered m'" "set (byExpiry m') = timed m - {a}"
proof -
  note ok = lock_okD [OF assms(1)]
  have "lock_core m' = lock_core m \<and> expiry_heap.ordered m' \<and> set (byExpiry m') = timed m - {a}"
  proof (cases "a \<in> timed m")
    case True
    then have "0 \<le> byExpiryIndex (store m a)" "a \<in> set (byExpiry m)"
      using in_heap_iff [OF assms(1,2)] ok(8) by (auto simp: timed_def)
    then show ?thesis using remove_expiry_correct [OF ok(7), of a] ok(8) by (simp add: m'_def)
  next
    case False
    then have "\<not> 0 \<le> byExpiryIndex (store m a)" using in_heap_iff [OF assms(1,2)] assms(2) by (auto simp: timed_def)
    then show ?thesis using ok(7,8) False by (simp add: m'_def)
  qed
  then show "lock_core m' = lock_core m" "expiry_heap.ordered m'" "set (byExpiry m') = timed m - {a}" by blast+
qed

lemma on_heap:
  fixes t :: int
  assumes "base_ok m" "expiry_heap.ordered m" "set (byExpiry m) = timed m - {a}" "byName m x = Some a"
    and "token (store m a) \<noteq> []" "\<not> held (store m a)"
  defines "d \<equiv> Duration (details (store m a))"
  defines "m' \<equiv> (if d \<ge> 0 then push_expiry a (upd a (\<lambda>n. n\<lparr>expiry := t\<rparr>) m) else m)"
  shows "lock_ok m'" "details (store m' a) = details (store m a)" "gen m' = gen m" "byName m' = byName m"
    "locks m' = (locks m)(x \<mapsto> \<lparr>ltoken = token (store m a), ldetails = details (store m a),
       lexpiry = (if 0 \<le> d then Some t else None), lheld = False\<rparr>)"
proof -
  let ?l = "\<lparr>ltoken = token (store m a), ldetails = details (store m a), lexpiry = (if 0 \<le> d then Some t else None), lheld = False\<rparr>"
  have names: "names_ok m" using assms(1) by (simp add: base_ok_def)
  have "lock_ok m' \<and> details (store m' a) = details (store m a) \<and> gen m' = gen m \<and> byName m' = byName m \<and> locks m' = (locks m)(x \<mapsto> ?l)"
  proof (cases "d \<ge> 0")
    case True
    let ?m = "upd a (\<lambda>n. n\<lparr>expiry := t\<rparr>) m"
    have a: "a \<notin> set (byExpiry ?m)" using assms(3) by simp
    have ord: "expiry_heap.ordered ?m" using assms(2) by (rule ordered_cong) (use a in auto)
    have base: "base_ok ?m" "locks ?m = (locks m)(x \<mapsto> ?l)"
      using base_ok_upd [OF assms(1,4,5), of "\<lambda>n. n\<lparr>expiry := t\<rparr>"] assms(6) True by (simp_all add: lock_of_def d_def)
    have "timed ?m = insert a (timed m - {a})"
      using timed_upd [OF names assms(4)] assms(5,6) True by (simp add: live_def d_def)
    moreover note p = push_expiry_correct [OF ord a]
    ultimately have "lock_ok (push_expiry a ?m)" using base core_cong [OF p(2)] assms(3) by (simp add: lock_ok_def heap_ok_def)
    then show ?thesis using True core_cong(2) [OF p(2)] core_store(1) [OF p(2), of a] core_eqD(1,3) [OF p(2)] base(2)
      by (simp add: m'_def)
  next
    case False
    then have "a \<notin> timed m" by (auto simp: timed_def live_def d_def)
    then have "lock_ok m" using assms(1-3) by (simp add: lock_ok_def heap_ok_def)
    moreover have "locks m x = Some ?l" using assms(4-6) False by (simp add: locks_Some lock_of_def d_def)
    then have "locks m = (locks m)(x \<mapsto> ?l)" by (simp add: fun_upd_idem)
    ultimately show ?thesis using False by (simp add: m'_def)
  qed
  then show "lock_ok m'" "details (store m' a) = details (store m a)" "gen m' = gen m" "byName m' = byName m" "locks m' = (locks m)(x \<mapsto> ?l)"
    by blast+
qed

lemma Refresh_correct:
  assumes "lock_ok m"
  shows "\<exists>r m'. Refresh now tok duration m = Some (r, m') \<and> lock_ok m' \<and> gen m' = gen m \<and> held_kept m m' \<and>
    refresh_spec now tok duration (locks m) r (locks m')"
proof -
  obtain m0 where m0: "collectExpiredNodes now m = Some m0" "lock_ok m0" "locks m0 = expire now (locks m)" "gen m0 = gen m" "held_kept m m0"
    using collectExpiredNodes_correct [OF assms] by blast
  show ?thesis
  proof (cases "byToken m0 tok")
    case None
    then show ?thesis using m0 no_token_lock [OF m0(2) None] by (auto simp: Refresh_def refresh_spec_def Let_def)
  next
    case (Some a)
    obtain x where x: "byName m0 x = Some a" "token (store m0 a) = tok" "token (store m0 a) \<noteq> []" "locks m0 x = Some (lock_of (store m0 a))"
      using token_lock [OF m0(2) Some] by blast
    show ?thesis
    proof (cases "held (store m0 a)")
      case True
      then have "refresh_spec now tok duration (locks m) (Inl ErrLocked) (locks m0)"
        unfolding refresh_spec_def Let_def using x m0(3) by (intro disjI1 exI [of _ x] exI [of _ "lock_of (store m0 a)"]) simp
      then show ?thesis using m0 Some True by (simp add: Refresh_def)
    next
      case False
      define m1 where "m1 = (if byExpiryIndex (store m0 a) \<ge> 0 then remove_expiry (nat (byExpiryIndex (store m0 a))) m0 else m0)"
      note off = off_heap [OF m0(2) x(1), folded m1_def]
      note cs = core_store [OF off(1), of a] and c = core_cong [OF off(1)] and ce = core_eqD [OF off(1)]
      let ?f = "\<lambda>n. n\<lparr>details := (details n)\<lparr>Duration := duration\<rparr>\<rparr>"
      let ?m2 = "upd a ?f m1" and ?det = "(details (store m0 a))\<lparr>Duration := duration\<rparr>"
      have n1: "byName m1 x = Some a" "token (store m1 a) \<noteq> []" using x ce(1) cs by simp_all
      have base: "base_ok ?m2" "locks ?m2 = (locks m1)(x \<mapsto> lock_of (?f (store m1 a)))"
        by (rule base_ok_upd [OF c(1) [OF lock_okD(1) [OF m0(2)]] n1]; simp)+
      have ord: "expiry_heap.ordered ?m2" using off(2) by (rule ordered_cong) simp_all
      have "timed ?m2 - {a} = timed m0 - {a}" using timed_upd [of m1 x a ?f] n1(1) c by (auto simp: timed_def ce(1))
      then have set: "set (byExpiry ?m2) = timed ?m2 - {a}" using off(3) by simp
      define m3 where "m3 = (if duration \<ge> 0 then push_expiry a (upd a (\<lambda>n. n\<lparr>expiry := now + duration\<rparr>) ?m2) else ?m2)"
      note on = on_heap [OF base(1) ord set, of x "now + duration"]
      have on': "lock_ok m3" "details (store m3 a) = ?det" "gen m3 = gen m0" "locks m3 = (locks m0)(x \<mapsto> new_lock now tok ?det)"
          "byName m3 = byName m0"
        using on n1 False x(2) cs ce(1,3) c(2) base(2) by (simp_all add: m3_def new_lock_def)
      have "refresh_spec now tok duration (locks m) (Inr ?det) (locks m3)"
        unfolding refresh_spec_def Let_def using x m0(3) False on'(4)
        by (intro disjI1 exI [of _ x] exI [of _ "lock_of (store m0 a)"]) simp
      moreover have "Refresh now tok duration m = Some (Inr ?det, m3)"
        using m0(1) Some False on'(2) by (simp add: Refresh_def Let_def m1_def [symmetric] m3_def [symmetric])
      moreover have "held_kept m0 m3" using on'(4,5) x(4) False by (intro held_keptI [OF m0(2)]) auto
      then have "held_kept m m3" by (rule held_kept_trans [OF m0(5)])
      ultimately show ?thesis using on' m0(4) by auto
    qed
  qed
qed

lemma tokens_ok_node:
  "tokens_ok m \<longleftrightarrow> (\<forall>t a. byToken m t = Some a \<longleftrightarrow> t \<noteq> [] \<and> (\<exists>x n. byName m x = Some a \<and> node m x = Some n \<and> token n = t))"
proof -
  have "(\<exists>x n. byName m x = Some a \<and> node m x = Some n \<and> token n = t) \<longleftrightarrow>
      (\<exists>x. byName m x = Some a \<and> token (store m a) = t)" for a t
    by (auto simp: node_Some)
  then show ?thesis by (simp only: tokens_ok_def)
qed

text \<open>A token and details written into the node of a name that is not locked.\<close>

lemma set_lock_base:
  assumes "lock_ok m0" "clean x" "can_lock (node m0) x (ZeroDepth det)" "Root det = x" "gen m0 + 1 < 2 ^ 64"
    and m1: "names_ok m1" "byToken m1 = byToken m0" "byName m0 \<subseteq>\<^sub>m byName m1"
      "\<forall>y. node m1 y = (if y \<in> set (chain x) then Some (bump (node_or_empty m0 y)) else node m0 y)"
    and a: "byName m1 x = Some a"
  defines "tok \<equiv> format_nat (nat (gen m0 + 1))"
  defines "m5 \<equiv> upd a (\<lambda>n. n\<lparr>token := tok, details := det\<rparr>) (m1\<lparr>gen := gen m0 + 1, byToken := (byToken m1)(tok \<mapsto> a)\<rparr>)"
  shows "base_ok m5" "\<And>y. y \<noteq> x \<Longrightarrow> locks m5 y = locks m0 y" "\<not> held (store m5 a)" "token (store m1 a) = []"
    "\<And>y l. locks m0 y = Some l \<Longrightarrow> ltoken l \<noteq> tok"
proof -
  note ok = lock_okD [OF assms(1)]
  let ?N = "node m0" and ?n5 = "(store m1 a)\<lparr>token := tok, details := det\<rparr>"
  have x: "x \<notin> locked ?N" "x \<in> set (chain x)" using assms(2,3) by (simp_all add: can_lock_def chain_self)
  have n1: "store m1 a = bump (node_or_empty m0 x)" using spec [OF m1(4), of x] x(2) a by (simp add: node_def)
  have old: "token (node_or_empty m0 x) = []" "\<not> held (node_or_empty m0 x)"
    using x(1) nodes_okD(5) [OF ok(4), of x] by (auto simp: node_or_empty_def locked_def split: option.splits)
  then show "token (store m1 a) = []" "\<not> held (store m5 a)" by (simp_all add: n1 m5_def)
  have N5: "node m5 = with_lock ?N x ?n5"
  proof
    fix y show "node m5 y = with_lock ?N x ?n5 y"
    proof (cases "y = x")
      case True
      then show ?thesis using a by (simp add: m5_def node_def with_lock_def n1 node_or_empty_def split: option.split)
    next
      case False
      then have "node m5 y = node m1 y" using a names_inj [OF m1(1) a, of y]
        by (cases "byName m1 y") (auto simp: m5_def node_def)
      then show ?thesis using m1(4) False by (simp add: with_lock_def node_or_empty_def)
    qed
  qed
  have tok: "tok \<noteq> []" by (simp add: tok_def)
  note w = with_lock_ok [OF ok(4) assms(2), of ?n5, simplified, OF assms(3) tok]
  have fresh: "t \<noteq> tok" if n: "?N y = Some n" "token n = t" "t \<noteq> []" for y n t
  proof -
    have g: "0 \<le> gen m0" using ok(6) by (simp add: gen_ok_def)
    obtain k where k: "int k \<le> gen m0" "t = format_nat k" using ok(6) n unfolding gen_ok_def by blast
    then show ?thesis using g assms(5) by (auto simp: tok_def nat_less_iff split: if_splits)
  qed
  show "ltoken l \<noteq> tok" if "locks m0 y = Some l" for y l
    using that fresh [of y _ "ltoken l"] by (auto simp: locks_def split: option.splits if_splits)
  have keep: "\<exists>n0 n. ?N y = Some n0 \<and> node m5 y = Some n \<and> alike n0 n" if "y \<in> locked ?N" for y
    using w(3) [OF that] unfolding N5 by blast
  show "locks m5 y = locks m0 y" if "y \<noteq> x" for y
  proof (cases "y \<in> locked ?N")
    case True
    then obtain n0 n where n: "?N y = Some n0" "node m5 y = Some n" "alike n0 n" using keep by blast
    then have "token n = token n0" "lock_of n = lock_of n0" by (simp_all add: lock_of_alike) (simp add: alike_def)
    then show ?thesis using n(1,2) by (simp add: locks_def)
  next
    case False
    then have "y \<notin> dom (locks m5)" "y \<notin> dom (locks m0)" using that by (simp_all add: dom_locks N5 w(2))
    then show ?thesis by (simp add: domIff)
  qed
  have name5: "byName m5 = byName m1" "store m5 a = ?n5" by (simp_all add: m5_def)
  have "tokens_ok m5"
    unfolding tokens_ok_node name5(1)
  proof (intro allI iffI)
    fix t b assume t: "byToken m5 t = Some b"
    show "t \<noteq> [] \<and> (\<exists>y n. byName m1 y = Some b \<and> node m5 y = Some n \<and> token n = t)"
    proof (cases "t = tok")
      case True
      then have "b = a" using t by (simp add: m5_def)
      moreover have "node m5 x = Some ?n5" using a by (simp add: m5_def node_def)
      ultimately show ?thesis using True tok a by auto
    next
      case False
      then have "byToken m0 t = Some b" using t m1(2) by (simp add: m5_def)
      then obtain y n0 where y: "t \<noteq> []" "byName m0 y = Some b" "?N y = Some n0" "token n0 = t"
        using ok(5) unfolding tokens_ok_node by blast
      then have "y \<in> locked ?N" by (auto simp: locked_def)
      then obtain n where "node m5 y = Some n" "token n = t" using keep y(3,4) by (fastforce simp: alike_def)
      moreover have "byName m1 y = Some b" using m1(3) y(2) by (auto simp: map_le_def dom_def)
      ultimately show ?thesis using y(1) by blast
    qed
  next
    fix t b assume "t \<noteq> [] \<and> (\<exists>y n. byName m1 y = Some b \<and> node m5 y = Some n \<and> token n = t)"
    then obtain y n where y: "t \<noteq> []" "byName m1 y = Some b" "node m5 y = Some n" "token n = t" by blast
    show "byToken m5 t = Some b"
    proof (cases "y = x")
      case True
      then have "b = a" "n = ?n5" using y(2,3) a by (auto simp: node_def m5_def)
      then show ?thesis using y(4) by (simp add: m5_def)
    next
      case False
      have "y \<in> locked (node m5)" using y by (auto simp: locked_def)
      then have "y \<in> locked ?N" using False unfolding N5 w(2) by simp
      then obtain n0 where n0: "?N y = Some n0" "token n0 = t" using keep y(3,4) by (fastforce simp: alike_def)
      then have "byName m0 y = Some b" using m1(3) y(2) by (auto simp: node_Some map_le_def dom_def)
      then have "byToken m0 t = Some b" using ok(5) n0 y(1) unfolding tokens_ok_node by blast
      then show ?thesis using fresh [OF n0 y(1)] m1(2) by (simp add: m5_def)
    qed
  qed
  moreover have "gen_ok m5"
    unfolding gen_ok_def
  proof (intro conjI allI impI)
    show "0 \<le> gen m5" "gen m5 < 2 ^ 64" using assms(5) ok(6) by (simp_all add: m5_def gen_ok_def)
    fix y n assume n: "node m5 y = Some n" "token n \<noteq> []"
    show "\<exists>k. int k \<le> gen m5 \<and> token n = format_nat k"
    proof (cases "y = x")
      case True
      then have "token n = tok" using n(1) a by (auto simp: node_def m5_def)
      then show ?thesis using ok(6) by (intro exI [of _ "nat (gen m0 + 1)"]) (simp add: tok_def m5_def gen_ok_def)
    next
      case False
      have "y \<in> locked ?N" using n False w(2) unfolding N5 [symmetric] by (auto simp: locked_def)
      then obtain n0 where "?N y = Some n0" "token n0 = token n" using keep n(1) by (fastforce simp: alike_def)
      then obtain k where "int k \<le> gen m0" "token n = format_nat k" using ok(6) n(2) unfolding gen_ok_def by metis
      then show ?thesis by (intro exI [of _ k]) (simp add: m5_def)
    qed
  qed
  moreover have "names_ok m5"
    unfolding names_ok_def name5(1)
  proof (intro allI impI)
    fix y b assume y: "byName m1 y = Some b"
    then have "b < fresh m1" "Root (details (store m1 b)) = y" using m1(1) by (simp_all add: names_ok_def)
    moreover have "b = a \<Longrightarrow> y = x" using names_inj [OF m1(1) a] y by blast
    ultimately show "b < fresh m5 \<and> Root (details (store m5 b)) = y" using assms(4) by (cases "b = a") (simp_all add: m5_def)
  qed
  ultimately show "base_ok m5" using w(1) by (simp add: base_ok_def N5)
qed

lemma create_correct:
  assumes "lock_ok m" "clean x"
  obtains m1 a where "create x m = Some (a, m1)" "byName m1 x = Some a" "names_ok m1" "heap_ok m1"
    "byToken m1 = byToken m" "gen m1 = gen m" "byName m \<subseteq>\<^sub>m byName m1"
    "\<forall>y. node m1 y = (if y \<in> set (chain x) then Some (bump (node_or_empty m y)) else node m y)"
proof -
  note ok = lock_okD [OF assms(1)]
  obtain m1 where m1: "walk_fold create_step (chain x) True m = Some (True, m1)" "names_ok m1" "heap_ok m1"
      "\<forall>y. node m1 y = (if y \<in> set (chain x) then Some (bump (node_or_empty m y)) else node m y)"
      "byToken m1 = byToken m" "gen m1 = gen m" "byName m \<subseteq>\<^sub>m byName m1"
    using create_fold_correct [OF ok(3,2) distinct_chain [OF assms(2)]] by blast
  have "node m1 x = Some (bump (node_or_empty m x))" using m1(4) chain_self [OF assms(2)] by simp
  then obtain a where a: "byName m1 x = Some a" by (auto simp: node_Some)
  then have "create x m = Some (a, m1)" using m1(1) walkToRoot_chain [OF assms(2), of create_step True m] by (simp add: create_def)
  then show ?thesis using that a m1 by blast
qed

lemma Create_correct:
  assumes "lock_ok m" "gen m + 1 < 2 ^ 64"
  shows "\<exists>r m'. Create now det m = Some (r, m') \<and> lock_ok m' \<and> gen m' \<le> gen m + 1 \<and>
    held_kept m m' \<and> create_spec now det (locks m) r (locks m')"
proof -
  obtain m0 where m0: "collectExpiredNodes now m = Some m0" "lock_ok m0" "locks m0 = expire now (locks m)" "gen m0 = gen m" "held_kept m m0"
    using collectExpiredNodes_correct [OF assms(1)] by blast
  let ?x = "slashClean (Root det)" and ?det = "det\<lparr>Root := slashClean (Root det)\<rparr>"
  have can: "canCreate m0 ?x (ZeroDepth det) = Some (can_place (locks m0) ?x (ZeroDepth det))"
    using canCreate_correct [OF lock_okD(4) [OF m0(2)]] can_lock_iff [OF m0(2)] by simp
  show ?thesis
  proof (cases "can_place (locks m0) ?x (ZeroDepth det)")
    case False
    then show ?thesis using m0 can by (auto simp: Create_def create_spec_def Let_def)
  next
    case True
    obtain m1 a where m1: "create ?x m0 = Some (a, m1)" "byName m1 ?x = Some a" "names_ok m1" "heap_ok m1"
        "byToken m1 = byToken m0" "gen m1 = gen m0" "byName m0 \<subseteq>\<^sub>m byName m1"
        "\<forall>y. node m1 y = (if y \<in> set (chain ?x) then Some (bump (node_or_empty m0 y)) else node m0 y)"
      by (rule create_correct [OF m0(2) clean_slashClean])
    define tok where "tok = format_nat (nat (gen m0 + 1))"
    define m5 where "m5 = upd a (\<lambda>n. n\<lparr>token := tok, details := ?det\<rparr>) (m1\<lparr>gen := gen m0 + 1, byToken := (byToken m1)(tok \<mapsto> a)\<rparr>)"
    have gen: "gen m0 + 1 < 2 ^ 64" using assms(2) m0(4) by simp
    have "can_lock (node m0) ?x (ZeroDepth ?det)" using True can_lock_iff [OF m0(2)] by simp
    note base = set_lock_base [OF m0(2) clean_slashClean this _ gen m1(3,5,7,8,2), folded tok_def, folded m5_def, simplified]
    have a: "a \<notin> timed m1" using base(4) by (auto simp: timed_def live_def)
    have ord: "expiry_heap.ordered m5"
      using m1(4) unfolding heap_ok_def by (elim conjE, intro ordered_cong [of m1 m5]) (simp_all add: m5_def)
    have "timed m5 - {a} = timed m1 - {a}" by (auto simp: timed_def m5_def)
    then have set: "set (byExpiry m5) = timed m5 - {a}" using m1(4) a by (simp add: heap_ok_def m5_def)
    have n5: "byName m5 ?x = Some a" "token (store m5 a) = tok" "details (store m5 a) = ?det" "tok \<noteq> []"
      using m1(2) by (simp_all add: m5_def tok_def)
    define m6 where "m6 = (if Duration det \<ge> 0 then push_expiry a (upd a (\<lambda>n. n\<lparr>expiry := now + Duration det\<rparr>) m5) else m5)"
    have on: "lock_ok m6" "gen m6 = gen m5" "byName m6 = byName m5" "locks m6 = (locks m5)(?x \<mapsto> new_lock now tok ?det)"
      using on_heap [OF base(1) ord set n5(1), of "now + Duration det"] n5 base(3) by (simp_all add: m6_def new_lock_def)
    have locks: "locks m6 = (locks m0)(?x \<mapsto> new_lock now tok ?det)" using on(4) base(2) by (auto simp: fun_eq_iff)
    moreover have "locks m0 ?x = None" using True unfolding can_place_def by (metis option.exhaust)
    ultimately have "held_kept m0 m6" using on(3) m1(7) by (intro held_keptI [OF m0(2)]) (auto simp: m5_def)
    then have "held_kept m m6" by (rule held_kept_trans [OF m0(5)])
    moreover have "create_spec now det (locks m) (Inr tok) (locks m6)"
      using locks True base(5) n5(4) m0(3) by (auto simp: create_spec_def Let_def)
    moreover have "Create now det m = Some (Inr tok, m6)"
    proof -
      have "(gen m1 + 1) mod 2 ^ 64 = gen m0 + 1" using gen m1(6) lock_okD(6) [OF m0(2)] by (simp add: gen_ok_def)
      then have "upd a (\<lambda>n. n\<lparr>details := ?det\<rparr>) ((upd a (\<lambda>n. n\<lparr>token := tok\<rparr>) (snd (nextToken m1)))\<lparr>byToken := (byToken (snd (nextToken m1)))(tok \<mapsto> a)\<rparr>) = m5"
        "fst (nextToken m1) = tok"
        unfolding nextToken_def Let_def by (simp_all only: fst_conv snd_conv tok_def) (simp add: m5_def upd_def tok_def)
      then show ?thesis using m0(1) can True m1(1)
        by (cases "nextToken m1") (simp add: Create_def Let_def m6_def)
    qed
    ultimately show ?thesis using on m0(4) by (intro exI conjI) (auto simp: m5_def)
  qed
qed

section \<open>Confirming and releasing\<close>

lemma covers_test:
  assumes "lock_ok m" "byName m x = Some a" "clean nam"
  shows "covers (lock_of (store m a)) x nam \<longleftrightarrow> nam = Root (details (store m a)) \<or>
    \<not> ZeroDepth (details (store m a)) \<and> (Root (details (store m a)) = ''/'' \<or> has_prefix nam (Root (details (store m a)) @ ''/''))"
proof -
  note ok = lock_okD [OF assms(1)]
  have r: "Root (details (store m a)) = x" "clean x"
    using ok(3) nodes_okD(2) [OF ok(4), of x] assms(2) by (auto simp: names_ok_def node_def)
  then show ?thesis using chain_prefix [OF assms(3) r(2)] by (auto simp: covers_def)
qed

lemma lookup_correct:
  assumes "lock_ok m" "clean nam"
  shows "case lookup m nam conditions of
      None \<Rightarrow> \<forall>x l. locks m x = Some l \<longrightarrow> \<not> lheld l \<longrightarrow> ltoken l \<in> Token ` set conditions \<longrightarrow> \<not> covers l x nam
    | Some a \<Rightarrow> \<exists>x. byName m x = Some a \<and> token (store m a) \<noteq> [] \<and> \<not> held (store m a) \<and>
        token (store m a) \<in> Token ` set conditions \<and> covers (lock_of (store m a)) x nam"
proof (induction conditions)
  case (Cons c conditions)
  show ?case
  proof (cases "byToken m (Token c)")
    case None
    then have "lookup m nam (c # conditions) = lookup m nam conditions" by simp
    then show ?thesis using Cons no_token_lock [OF assms(1) None] by (fastforce split: option.splits)
  next
    case (Some a)
    obtain x where x: "byName m x = Some a" "token (store m a) = Token c" "token (store m a) \<noteq> []" "locks m x = Some (lock_of (store m a))"
      using token_lock [OF assms(1) Some] by blast
    note test = covers_test [OF assms(1) x(1) assms(2)]
    have uniq: "y = x" if l: "locks m y = Some l" "ltoken l = Token c" for y l
    proof -
      obtain b where b: "byName m y = Some b" "token (store m b) = Token c" "Token c \<noteq> []" using l by (auto simp: locks_Some)
      then have "byToken m (Token c) = Some b" using lock_okD(5) [OF assms(1)] unfolding tokens_ok_def by blast
      then show ?thesis using Some b(1) x(1) names_inj [OF lock_okD(3) [OF assms(1)]] by simp
    qed
    show ?thesis
    proof (cases "\<not> held (store m a) \<and> covers (lock_of (store m a)) x nam")
      case True
      then have "lookup m nam (c # conditions) = Some a" using Some test by (auto simp: Let_def)
      then show ?thesis using True x by auto
    next
      case False
      then have skip: "lookup m nam (c # conditions) = lookup m nam conditions" using Some test by (auto simp: Let_def)
      have "\<not> covers l y nam" if "locks m y = Some l" "\<not> lheld l" "ltoken l = Token c" for y l
        using that uniq [OF that(1,3)] x(4) False by auto
      then show ?thesis using Cons unfolding skip by (fastforce split: option.splits)
    qed
  qed
qed simp

lemma lookup_claimable:
  assumes "lock_ok m"
  shows "lookup m (slashClean nam) conditions = Some a \<Longrightarrow>
      \<exists>x. byName m x = Some a \<and> token (store m a) \<noteq> [] \<and> \<not> held (store m a) \<and> claimable (locks m) conditions nam x"
    and "lookup m (slashClean nam) conditions = None \<longleftrightarrow> (\<forall>x. \<not> claimable (locks m) conditions nam x)"
proof -
  note look = lookup_correct [OF assms clean_slashClean [of nam], of conditions]
  show *: "\<exists>x. byName m x = Some a \<and> token (store m a) \<noteq> [] \<and> \<not> held (store m a) \<and> claimable (locks m) conditions nam x"
    if "lookup m (slashClean nam) conditions = Some a" for a
    using look unfolding that by (auto simp: claimable_def locks_Some)
  show "lookup m (slashClean nam) conditions = None \<longleftrightarrow> (\<forall>x. \<not> claimable (locks m) conditions nam x)"
  proof (cases "lookup m (slashClean nam) conditions")
    case None
    have "\<forall>x l. locks m x = Some l \<longrightarrow> \<not> lheld l \<longrightarrow> ltoken l \<in> Token ` set conditions \<longrightarrow> \<not> covers l x (slashClean nam)"
      using look unfolding None option.case .
    then show ?thesis using None unfolding claimable_def by blast
  next
    case (Some a)
    then show ?thesis using * [OF Some] by auto
  qed
qed

text \<open>The resources whose nodes a release closure has captured.\<close>

definition handle_names :: "memLS \<Rightarrow> nat option \<times> nat option \<Rightarrow> string set" where
  "handle_names m h = {x. \<exists>a. byName m x = Some a \<and> (fst h = Some a \<or> snd h = Some a)}"

definition valid_handle :: "memLS \<Rightarrow> nat option \<times> nat option \<Rightarrow> bool" where
  "valid_handle m h \<longleftrightarrow> (fst h = snd h \<longrightarrow> snd h = None) \<and>
     (\<forall>a. fst h = Some a \<or> snd h = Some a \<longrightarrow> (\<exists>x. byName m x = Some a \<and> held (store m a)))"

lemma valid_handle_kept: "valid_handle m h \<Longrightarrow> held_kept m m' \<Longrightarrow> valid_handle m' h"
  unfolding valid_handle_def held_kept_def by blast

definition opt_names :: "memLS \<Rightarrow> nat option \<Rightarrow> string set" where
  "opt_names m x = {y. byName m y = x \<and> x \<noteq> None}"

lemma handle_names_opt: "handle_names m h = opt_names m (fst h) \<union> opt_names m (snd h)"
  by (auto simp: handle_names_def opt_names_def)

lemma set_held_Un: "set_held b (xs \<union> ys) L = set_held b ys (set_held b xs L)"
  by (auto simp: set_held_def fun_eq_iff option.map_comp comp_def)

lemma opt_names_Some: "names_ok m \<Longrightarrow> byName m x = Some a \<Longrightarrow> opt_names m (Some a) = {x}"
  by (auto simp: opt_names_def dest: names_inj)

lemma hold_opt_correct:
  assumes "lock_ok m" "\<And>a. n = Some a \<Longrightarrow> \<exists>x. byName m x = Some a \<and> token (store m a) \<noteq> [] \<and> \<not> held (store m a)"
  shows "\<exists>m'. hold_opt n m = Some m' \<and> lock_ok m' \<and> locks m' = set_held True (opt_names m n) (locks m) \<and>
    gen m' = gen m \<and> byName m' = byName m"
proof (cases n)
  case None
  then show ?thesis using assms(1) by (auto simp: hold_opt_def opt_names_def set_held_def)
next
  case (Some a)
  then obtain x where x: "byName m x = Some a" "token (store m a) \<noteq> []" "\<not> held (store m a)" using assms(2) by blast
  then have "locks m x = Some (lock_of (store m a))" by (auto simp: locks_Some)
  then have "(locks m)(x \<mapsto> (lock_of (store m a))\<lparr>lheld := True\<rparr>) = set_held True {x} (locks m)"
    by (auto simp: set_held_def fun_eq_iff)
  then show ?thesis using hold_correct [OF assms(1) x] opt_names_Some [OF lock_okD(3) [OF assms(1)] x(1)] Some
    by (simp add: hold_opt_def)
qed

lemma unhold_opt_correct:
  assumes "lock_ok m" "\<And>a. n = Some a \<Longrightarrow> \<exists>x. byName m x = Some a \<and> held (store m a)"
  shows "\<exists>m'. unhold_opt n m = Some m' \<and> lock_ok m' \<and> locks m' = set_held False (opt_names m n) (locks m) \<and>
    gen m' = gen m \<and> byName m' = byName m"
proof (cases n)
  case None
  then show ?thesis using assms(1) by (auto simp: unhold_opt_def opt_names_def set_held_def)
next
  case (Some a)
  then obtain x where x: "byName m x = Some a" "held (store m a)" using assms(2) by blast
  then have "locks m x = Some (lock_of (store m a))"
    using nodes_okD(5) [OF lock_okD(4) [OF assms(1)], of x] by (auto simp: locks_Some node_def)
  then have "(locks m)(x \<mapsto> (lock_of (store m a))\<lparr>lheld := False\<rparr>) = set_held False {x} (locks m)"
    by (auto simp: set_held_def fun_eq_iff)
  then show ?thesis using unhold_correct [OF assms(1) x] opt_names_Some [OF lock_okD(3) [OF assms(1)] x(1)] Some
    by (simp add: unhold_opt_def)
qed

definition claimed :: "memLS \<Rightarrow> Condition list \<Rightarrow> string \<Rightarrow> nat option" where
  "claimed m conditions nam = (if nam = [] then None else lookup m (slashClean nam) conditions)"

lemma claimed_Some:
  assumes "lock_ok m" "claimed m conditions nam = Some a"
  obtains x where "byName m x = Some a" "token (store m a) \<noteq> []" "\<not> held (store m a)" "claimable (locks m) conditions nam x" "nam \<noteq> []"
  using assms(2) lookup_claimable(1) [OF assms(1), of nam conditions a] by (auto simp: claimed_def split: if_splits)

lemma claimed_None:
  assumes "lock_ok m" "nam \<noteq> []"
  shows "claimed m conditions nam = None \<longleftrightarrow> \<not> (\<exists>x. claimable (locks m) conditions nam x)"
  using assms lookup_claimable(2) [OF assms(1), of nam conditions] by (simp add: claimed_def)

lemma hold_two:
  assumes "lock_ok m" "n0 = claimed m conditions name0" "n1 = claimed m conditions name1 \<or> n1 = None" "n1 = n0 \<longrightarrow> n1 = None"
  shows "\<exists>m1 m2. hold_opt n0 m = Some m1 \<and> hold_opt n1 m1 = Some m2 \<and> lock_ok m2 \<and> gen m2 = gen m \<and> byName m2 = byName m \<and>
    locks m2 = set_held True (handle_names m2 (n0, n1)) (locks m)"
proof -
  have n: "\<exists>x. byName m x = Some a \<and> token (store m a) \<noteq> [] \<and> \<not> held (store m a)" if "n0 = Some a \<or> n1 = Some a" for a
    using that assms(2,3) claimed_Some [OF assms(1)] by (metis option.distinct(1))
  obtain m1 where m1: "hold_opt n0 m = Some m1" "lock_ok m1" "locks m1 = set_held True (opt_names m n0) (locks m)"
      "gen m1 = gen m" "byName m1 = byName m"
    using hold_opt_correct [OF assms(1), of n0] n by blast
  have "\<exists>x. byName m1 x = Some b \<and> token (store m1 b) \<noteq> [] \<and> \<not> held (store m1 b)" if b: "n1 = Some b" for b
  proof -
    obtain x where x: "byName m x = Some b" "token (store m b) \<noteq> []" "\<not> held (store m b)" using n b by blast
    have "x \<notin> opt_names m n0" using x(1) b assms(4) by (auto simp: opt_names_def)
    then have "locks m1 x = locks m x" by (simp add: m1(3) set_held_def)
    also have "\<dots> = Some (lock_of (store m b))" using x by (auto simp: locks_Some)
    finally obtain c where c: "byName m1 x = Some c" "token (store m1 c) \<noteq> []" "lock_of (store m b) = lock_of (store m1 c)"
      by (auto simp: locks_Some)
    have "c = b" using x(1) m1(5) c(1) by simp
    moreover have "held (store m1 c) = held (store m b)" using arg_cong [OF c(3), of lheld] by simp
    ultimately show ?thesis using c x(3) by blast
  qed
  then obtain m2 where m2: "hold_opt n1 m1 = Some m2" "lock_ok m2" "locks m2 = set_held True (opt_names m1 n1) (locks m1)"
      "gen m2 = gen m1" "byName m2 = byName m1"
    using hold_opt_correct [OF m1(2), of n1] by blast
  have "opt_names m2 n0 = opt_names m n0" "opt_names m2 n1 = opt_names m1 n1" using m1(5) m2(5) by (simp_all add: opt_names_def)
  then have "locks m2 = set_held True (handle_names m2 (n0, n1)) (locks m)"
    using m1(3) m2(3) by (simp add: handle_names_opt set_held_Un)
  then show ?thesis using m1 m2 by auto
qed

lemma claimed_handle:
  assumes "lock_ok m" "byName m2 = byName m" "n0 = claimed m conditions name0" "n1 = claimed m conditions name1"
    and "xs = handle_names m2 (n0, if n1 = n0 then None else n1)"
  shows "\<And>x. x \<in> xs \<Longrightarrow> \<exists>nam \<in> {name0, name1} - {[]}. claimable (locks m) conditions nam x"
    and "\<And>nam a. nam \<in> {name0, name1} \<Longrightarrow> claimed m conditions nam = Some a \<Longrightarrow> \<exists>x \<in> xs. claimable (locks m) conditions nam x"
proof -
  have names: "names_ok m" by (rule lock_okD(3) [OF assms(1)])
  show "\<exists>nam \<in> {name0, name1} - {[]}. claimable (locks m) conditions nam x" if x: "x \<in> xs" for x
  proof -
    obtain a where a: "byName m x = Some a" "n0 = Some a \<or> n1 = Some a"
      using x assms(2,5) by (auto simp: handle_names_def split: if_splits)
    have "\<exists>nam \<in> {name0, name1}. claimed m conditions nam = Some a" using a(2) assms(3,4) by auto
    then obtain nam where nam: "nam \<in> {name0, name1}" "claimed m conditions nam = Some a" by blast
    obtain y where "byName m y = Some a" "claimable (locks m) conditions nam y" "nam \<noteq> []"
      using claimed_Some [OF assms(1) nam(2)] by blast
    then show ?thesis using nam(1) names_inj [OF names a(1)] by blast
  qed
  show "\<exists>x \<in> xs. claimable (locks m) conditions nam x" if nam: "nam \<in> {name0, name1}" "claimed m conditions nam = Some a" for nam a
  proof -
    obtain y where y: "byName m y = Some a" "claimable (locks m) conditions nam y"
      using claimed_Some [OF assms(1) nam(2)] by blast
    then have "y \<in> xs" using nam assms(2-5) by (auto simp: handle_names_def)
    then show ?thesis using y(2) by blast
  qed
qed

lemma Confirm_correct:
  assumes "lock_ok m"
  shows "\<exists>r m'. Confirm now name0 name1 conditions m = Some (r, m') \<and> lock_ok m' \<and> gen m' = gen m \<and> held_kept m m' \<and>
    (\<forall>h. r = Inr h \<longrightarrow> valid_handle m' h) \<and>
    confirm_spec now name0 name1 conditions (locks m) (map_sum id (handle_names m') r) (locks m')"
proof -
  obtain m0 where m0: "collectExpiredNodes now m = Some m0" "lock_ok m0" "locks m0 = expire now (locks m)" "gen m0 = gen m" "held_kept m m0"
    using collectExpiredNodes_correct [OF assms] by blast
  let ?n0 = "claimed m0 conditions name0" and ?n1 = "claimed m0 conditions name1"
  let ?names = "{name0, name1} - {[]}"
  have run: "Confirm now name0 name1 conditions m =
      (if name0 \<noteq> [] \<and> ?n0 = None \<or> name1 \<noteq> [] \<and> ?n1 = None then Some (Inl ErrConfirmationFailed, m0)
       else (let n1 = (if ?n1 = ?n0 then None else ?n1) in
         (case hold_opt ?n0 m0 of None \<Rightarrow> None | Some m \<Rightarrow>
           (case hold_opt n1 m of None \<Rightarrow> None | Some m \<Rightarrow> Some (Inr (?n0, n1), m)))))"
    unfolding Confirm_def m0(1) option.case Let_def claimed_def [symmetric] by auto
  have all: "(\<forall>nam \<in> ?names. \<exists>x. claimable (expire now (locks m)) conditions nam x) \<longleftrightarrow>
      \<not> (name0 \<noteq> [] \<and> ?n0 = None \<or> name1 \<noteq> [] \<and> ?n1 = None)"
    using claimed_None [OF m0(2), of name0 conditions] claimed_None [OF m0(2), of name1 conditions] unfolding m0(3)
    by (cases "name0 = []"; cases "name1 = []"; simp) blast+
  show ?thesis
  proof (cases "name0 \<noteq> [] \<and> ?n0 = None \<or> name1 \<noteq> [] \<and> ?n1 = None")
    case True
    then have "confirm_spec now name0 name1 conditions (locks m) (Inl ErrConfirmationFailed) (locks m0)"
      unfolding confirm_spec_def Let_def all by (simp add: m0(3))
    then show ?thesis using True m0 run by auto
  next
    case False
    define n1' where "n1' = (if ?n1 = ?n0 then None else ?n1)"
    then have "n1' = ?n1 \<or> n1' = None" "n1' = ?n0 \<longrightarrow> n1' = None" by auto
    then obtain m1 m2 where m2: "hold_opt ?n0 m0 = Some m1" "hold_opt n1' m1 = Some m2" "lock_ok m2" "gen m2 = gen m0" "byName m2 = byName m0"
        "locks m2 = set_held True (handle_names m2 (?n0, n1')) (locks m0)"
      using hold_two [OF m0(2) refl] by blast
    let ?xs = "handle_names m2 (?n0, n1')"
    note h = claimed_handle [OF m0(2) m2(5) refl refl, of ?xs conditions name0 name1]
    note h = h [unfolded n1'_def, OF refl, folded n1'_def]
    have "\<exists>x \<in> ?xs. claimable (locks m0) conditions nam x" if "nam \<in> ?names" for nam
      using that False h(2) [of nam] by auto
    then have "confirm_spec now name0 name1 conditions (locks m) (Inr ?xs) (locks m2)"
      unfolding confirm_spec_def Let_def all using False h(1) m2(6) m0(3) by auto
    moreover have "held_kept m0 m2"
      using m2(5,6) by (intro held_keptI [OF m0(2)]) (auto simp: set_held_def)
    then have "held_kept m m2" by (rule held_kept_trans [OF m0(5)])
    moreover have "valid_handle m2 (?n0, n1')"
      unfolding valid_handle_def
    proof (intro conjI allI impI)
      fix a assume a: "fst (?n0, n1') = Some a \<or> snd (?n0, n1') = Some a"
      then obtain nam where nam: "nam \<in> {name0, name1}" "claimed m0 conditions nam = Some a" by (auto simp: n1'_def split: if_splits)
      obtain x where x: "byName m0 x = Some a" "token (store m0 a) \<noteq> []" using claimed_Some [OF m0(2) nam(2)] by blast
      then have "x \<in> ?xs" "locks m0 x \<noteq> None" using a m2(5) by (auto simp: handle_names_def locks_def node_def)
      then obtain l where "locks m2 x = Some l" "lheld l" unfolding m2(6) by (auto simp: set_held_def)
      then show "\<exists>x. byName m2 x = Some a \<and> held (store m2 a)" using x(1) m2(5) by (auto simp: locks_Some)
    qed (auto simp: n1'_def split: if_splits)
    moreover have "Confirm now name0 name1 conditions m = Some (Inr (?n0, n1'), m2)"
      unfolding run Let_def n1'_def [symmetric] using False m2(1,2) by simp
    ultimately show ?thesis using m0(4) m2(3,4) by auto
  qed
qed

lemma release_correct:
  assumes "lock_ok m" "valid_handle m h"
  shows "\<exists>m'. release h m = Some m' \<and> lock_ok m' \<and> gen m' = gen m \<and> byName m' = byName m \<and>
    locks m' = set_held False (handle_names m h) (locks m)"
proof -
  have held: "\<exists>x. byName m x = Some a \<and> held (store m a)" if "fst h = Some a \<or> snd h = Some a" for a
    using assms(2) that unfolding valid_handle_def by blast
  obtain m1 where m1: "unhold_opt (snd h) m = Some m1" "lock_ok m1" "locks m1 = set_held False (opt_names m (snd h)) (locks m)"
      "gen m1 = gen m" "byName m1 = byName m"
    using unhold_opt_correct [OF assms(1), of "snd h"] held by blast
  have "\<exists>x. byName m1 x = Some b \<and> held (store m1 b)" if b: "fst h = Some b" for b
  proof -
    obtain x where x: "byName m x = Some b" "held (store m b)" using held b by blast
    have tok: "token (store m b) \<noteq> []" using nodes_okD(5) [OF lock_okD(4) [OF assms(1)], of x] x by (simp add: node_def)
    have "x \<notin> opt_names m (snd h)" using x(1) b assms(2) by (auto simp: opt_names_def valid_handle_def)
    then have "locks m1 x = locks m x" by (simp add: m1(3) set_held_def)
    also have "\<dots> = Some (lock_of (store m b))" using x tok by (auto simp: locks_Some)
    finally obtain c where c: "byName m1 x = Some c" "lock_of (store m b) = lock_of (store m1 c)" by (auto simp: locks_Some)
    have "c = b" using x(1) m1(5) c(1) by simp
    moreover have "held (store m1 c) = held (store m b)" using arg_cong [OF c(2), of lheld] by simp
    ultimately show ?thesis using c x(2) by blast
  qed
  then obtain m2 where m2: "unhold_opt (fst h) m1 = Some m2" "lock_ok m2" "locks m2 = set_held False (opt_names m1 (fst h)) (locks m1)"
      "gen m2 = gen m1" "byName m2 = byName m1"
    using unhold_opt_correct [OF m1(2), of "fst h"] by blast
  have "opt_names m1 (fst h) = opt_names m (fst h)" using m1(5) by (simp add: opt_names_def)
  then have "locks m2 = set_held False (handle_names m h) (locks m)"
    using m1(3) m2(3) by (simp add: handle_names_opt set_held_Un [symmetric] Un_commute)
  then show ?thesis using m1 m2 by (auto simp: release_def)
qed

end
