(* ===== verification/Lock_Properties.thy ===== *)
theory Lock_Properties
  imports Lock_System
begin

text \<open>
  What clients of a WebDAV lock system rely on: the contract of the interface \<open>LockSystem\<close> as a
  locale, its consequences for clients, the proof that the in-memory system meets the contract, and
  the properties of its runs from the empty system.
\<close>

section \<open>The contract\<close>

lemma expire_Some: "expire now L x = Some l \<Longrightarrow> L x = Some l"
  by (auto simp: expire_def split: option.splits if_splits)

lemma expire_held: "L x = Some l \<Longrightarrow> lheld l \<Longrightarrow> expire now L x = Some l"
  by (simp add: expire_def expired_def)

text \<open>
  \<open>table\<close> is the abstract table of locks, \<open>room\<close> says that a token is left for a new lock. The locks in
  the table do not overlap, every operation returns and changes the table as its specification says.
\<close>

locale lock_system =
  fixes inv :: "'s \<Rightarrow> bool" and room :: "'s \<Rightarrow> bool" and tab :: "'s \<Rightarrow> string \<Rightarrow> lock option"
    and create_op :: "int \<Rightarrow> LockDetails \<Rightarrow> 's \<Rightarrow> ((lock_error + string) \<times> 's) option"
    and refresh_op :: "int \<Rightarrow> string \<Rightarrow> int \<Rightarrow> 's \<Rightarrow> ((lock_error + LockDetails) \<times> 's) option"
    and unlock_op :: "int \<Rightarrow> string \<Rightarrow> 's \<Rightarrow> (lock_error option \<times> 's) option"
    and confirm_op :: "int \<Rightarrow> string \<Rightarrow> string \<Rightarrow> Condition list \<Rightarrow> 's \<Rightarrow> ((lock_error + 'h) \<times> 's) option"
    and handled :: "'s \<Rightarrow> 'h \<Rightarrow> string set"
  assumes no_overlap: "inv s \<Longrightarrow> tab s x = Some l \<Longrightarrow> tab s y = Some l' \<Longrightarrow> covers l x y \<Longrightarrow> x = y"
    and roots_clean: "inv s \<Longrightarrow> tab s x = Some l \<Longrightarrow> clean x"
    and tokens_unique: "inv s \<Longrightarrow> tab s x = Some l \<Longrightarrow> tab s y = Some l' \<Longrightarrow> ltoken l = ltoken l' \<Longrightarrow> x = y"
    and create_law: "inv s \<Longrightarrow> room s \<Longrightarrow>
      \<exists>r s'. create_op now det s = Some (r, s') \<and> inv s' \<and> create_spec now det (tab s) r (tab s')"
    and refresh_law: "inv s \<Longrightarrow>
      \<exists>r s'. refresh_op now tok duration s = Some (r, s') \<and> inv s' \<and> refresh_spec now tok duration (tab s) r (tab s')"
    and unlock_law: "inv s \<Longrightarrow> \<exists>r s'. unlock_op now tok s = Some (r, s') \<and> inv s' \<and> unlock_spec now tok (tab s) r (tab s')"
    and confirm_law: "inv s \<Longrightarrow> \<exists>r s'. confirm_op now name0 name1 conditions s = Some (r, s') \<and> inv s' \<and>
      confirm_spec now name0 name1 conditions (tab s) (map_sum id (handled s') r) (tab s')"
begin

text \<open>At most one lock covers a resource.\<close>

lemma cover_unique:
  assumes "inv s" "tab s x = Some l" "tab s y = Some l'" "covers l x z" "covers l' y z" "clean z"
  shows "x = y"
proof -
  note cx = roots_clean [OF assms(1,2)] and cy = roots_clean [OF assms(1,3)]
  consider "z = x" | "z = y" | "\<not> ZeroDepth (ldetails l)" "\<not> ZeroDepth (ldetails l')" "x \<in> set (chain z)" "y \<in> set (chain z)"
    using assms(4,5) by (auto simp: covers_def)
  then show ?thesis
  proof cases
    case 1
    then show ?thesis using no_overlap [OF assms(1,3,2)] assms(5) by simp
  next
    case 2
    then show ?thesis using no_overlap [OF assms(1-3)] assms(4) by simp
  next
    case 3
    then have "prefix (comps x) (comps z)" "prefix (comps y) (comps z)" using assms(6) by (simp_all add: chain_iff)
    then consider "prefix (comps x) (comps y)" | "prefix (comps y) (comps x)" using prefix_same_cases by blast
    then show ?thesis
    proof cases
      case 1
      then have "covers l x y" using 3 cx cy by (simp add: covers_def chain_iff)
      then show ?thesis by (rule no_overlap [OF assms(1-3)])
    next
      case 2
      then have "covers l' y x" using 3 cx cy by (simp add: covers_def chain_iff)
      then show ?thesis using no_overlap [OF assms(1,3,2)] by simp
    qed
  qed
qed

text \<open>A resource covered by a held lock cannot be confirmed, whatever tokens are shown.\<close>

lemma confirm_blocked:
  assumes "inv s" "tab s x = Some l" "lheld l" "covers l x (slashClean nam)" "nam \<noteq> []" "nam \<in> {name0, name1}"
  shows "\<exists>s'. confirm_op now name0 name1 conditions s = Some (Inl ErrConfirmationFailed, s')"
proof -
  obtain r s' where r: "confirm_op now name0 name1 conditions s = Some (r, s')"
      "confirm_spec now name0 name1 conditions (tab s) (map_sum id (handled s') r) (tab s')"
    using confirm_law [OF assms(1)] by blast
  have "\<not> claimable (expire now (tab s)) conditions nam y" for y
  proof
    assume "claimable (expire now (tab s)) conditions nam y"
    then obtain l' where l': "expire now (tab s) y = Some l'" "\<not> lheld l'" "covers l' y (slashClean nam)"
      by (auto simp: claimable_def)
    then have "tab s y = Some l'" by (intro expire_Some)
    then have "x = y" using cover_unique [OF assms(1,2) _ assms(4) l'(3)] by simp
    then show False using assms(2,3) l'(2) \<open>tab s y = Some l'\<close> by simp
  qed
  then have "map_sum id (handled s') r = Inl ErrConfirmationFailed"
    using r(2) assms(5,6) unfolding confirm_spec_def Let_def by (metis Diff_iff singletonD)
  then show ?thesis using r(1) by (cases r) simp_all
qed

lemma unlock_blocked:
  assumes "inv s" "tab s x = Some l" "lheld l"
  shows "\<exists>s'. unlock_op now (ltoken l) s = Some (Some ErrLocked, s')"
proof -
  obtain r s' where r: "unlock_op now (ltoken l) s = Some (r, s')" "unlock_spec now (ltoken l) (tab s) r (tab s')"
    using unlock_law [OF assms(1)] by blast
  have x: "expire now (tab s) x = Some l" using expire_held [of "tab s" x l] assms(2,3) by simp
  have "y = x" if "expire now (tab s) y = Some l'" "ltoken l' = ltoken l" for y l'
    using tokens_unique [OF assms(1) expire_Some [OF that(1)] assms(2) that(2)] .
  then show ?thesis using r x assms(3) unfolding unlock_spec_def Let_def by (metis option.inject)
qed

text \<open>No lock can be created on a resource that a lock covers at that time.\<close>

lemma create_blocked:
  assumes "inv s" "room s" "expire now (tab s) x = Some l" "covers l x (slashClean (Root det))"
  shows "\<exists>s'. create_op now det s = Some (Inl ErrLocked, s')"
proof -
  obtain r s' where r: "create_op now det s = Some (r, s')" "create_spec now det (tab s) r (tab s')"
    using create_law [OF assms(1,2)] by blast
  have "\<not> can_place (expire now (tab s)) (slashClean (Root det)) (ZeroDepth det)"
    using assms(3,4) by (auto simp: can_place_def)
  then show ?thesis using r by (simp add: create_spec_def Let_def)
qed

end

section \<open>The in-memory lock system meets it\<close>

lemma no_overlap_locks:
  assumes "lock_ok m" "locks m x = Some l" "locks m y = Some l'" "covers l x y" shows "x = y"
proof (cases "y = x")
  case False
  note ok = lock_okD(4) [OF assms(1)]
  obtain n where n: "node m x = Some n" "token n \<noteq> []" "l = lock_of n" using assms(2) by (auto simp: locks_Some node_Some)
  have "y \<in> locked (node m)" using assms(3) by (simp flip: dom_locks add: domIff)
  then have "y \<in> users (node m) x" "\<not> ZeroDepth (details n)" using assms(4) False n(3) by (auto simp: covers_def users_def)
  then show ?thesis using nodes_okD(7) [OF ok n(1,2)] by blast
qed simp

interpretation mem: lock_system lock_ok "\<lambda>m. gen m + 1 < 2 ^ 64" locks Create Refresh Unlock Confirm handle_names
proof unfold_locales
  fix m assume ok: "lock_ok m"
  show "x = y" if "locks m x = Some l" "locks m y = Some l'" "covers l x y" for x y l l'
    using no_overlap_locks [OF ok that] .
  show "clean x" if "locks m x = Some l" for x l
    using that nodes_okD(2) [OF lock_okD(4) [OF ok]] by (auto simp: locks_def split: option.splits)
  show "x = y" if l: "locks m x = Some l" "locks m y = Some l'" "ltoken l = ltoken l'" for x y l l'
  proof -
    obtain a b where a: "byName m x = Some a" "byName m y = Some b" "token (store m a) = token (store m b)" "token (store m a) \<noteq> []"
      using l by (auto simp: locks_Some)
    then have "byToken m (token (store m a)) = Some a" "byToken m (token (store m a)) = Some b"
      using lock_okD(5) [OF ok] unfolding tokens_ok_def by metis+
    then show ?thesis using a(1,2) names_inj [OF lock_okD(3) [OF ok]] by simp
  qed
  show "\<exists>r s'. Create now det m = Some (r, s') \<and> lock_ok s' \<and> create_spec now det (locks m) r (locks s')"
    if "gen m + 1 < 2 ^ 64" for now det using Create_correct [OF ok that] by blast
  show "\<exists>r s'. Refresh now tok duration m = Some (r, s') \<and> lock_ok s' \<and> refresh_spec now tok duration (locks m) r (locks s')"
    for now tok duration using Refresh_correct [OF ok] by blast
  show "\<exists>r s'. Unlock now tok m = Some (r, s') \<and> lock_ok s' \<and> unlock_spec now tok (locks m) r (locks s')"
    for now tok using Unlock_correct [OF ok] by blast
  show "\<exists>r s'. Confirm now name0 name1 conditions m = Some (r, s') \<and> lock_ok s' \<and>
      confirm_spec now name0 name1 conditions (locks m) (map_sum id (handle_names s') r) (locks s')"
    for now name0 name1 conditions using Confirm_correct [OF ok] by blast
qed

section \<open>Runs of the lock system\<close>

type_synonym handle = "nat option \<times> nat option"

text \<open>A state of a run: the lock system and the release closures that have not been called yet. Each
  closure is called at most once, as the request handlers do.\<close>

inductive lock_step :: "memLS \<times> handle list \<Rightarrow> memLS \<times> handle list \<Rightarrow> bool" where
  create: "gen m + 1 < 2 ^ 64 \<Longrightarrow> Create now det m = Some (r, m') \<Longrightarrow> lock_step (m, hs) (m', hs)"
| refresh: "Refresh now tok duration m = Some (r, m') \<Longrightarrow> lock_step (m, hs) (m', hs)"
| unlock: "Unlock now tok m = Some (e, m') \<Longrightarrow> lock_step (m, hs) (m', hs)"
| confirm: "Confirm now name0 name1 conditions m = Some (Inr h, m') \<Longrightarrow> lock_step (m, hs) (m', h # hs)"
| refuse: "Confirm now name0 name1 conditions m = Some (Inl err, m') \<Longrightarrow> lock_step (m, hs) (m', hs)"
| release: "release h m = Some m' \<Longrightarrow> lock_step (m, hs1 @ h # hs2) (m', hs1 @ hs2)"

definition handle_addrs :: "handle \<Rightarrow> nat list" where
  "handle_addrs h = (case fst h of None \<Rightarrow> [] | Some a \<Rightarrow> [a]) @ (case snd h of None \<Rightarrow> [] | Some a \<Rightarrow> [a])"

definition run_ok :: "memLS \<times> handle list \<Rightarrow> bool" where
  "run_ok s \<longleftrightarrow> lock_ok (fst s) \<and> distinct (concat (map handle_addrs (snd s))) \<and>
     (\<forall>a \<in> set (concat (map handle_addrs (snd s))). \<exists>x. byName (fst s) x = Some a \<and> held (store (fst s) a))"

lemma set_handle_addrs: "a \<in> set (handle_addrs h) \<longleftrightarrow> fst h = Some a \<or> snd h = Some a"
  by (auto simp: handle_addrs_def split: option.splits)

lemma handle_names_addrs: "x \<in> handle_names m h \<longleftrightarrow> (\<exists>a \<in> set (handle_addrs h). byName m x = Some a)"
  by (auto simp: handle_names_def set_handle_addrs)

lemma distinct_handle: "distinct (handle_addrs h) \<longleftrightarrow> (fst h = snd h \<longrightarrow> snd h = None)"
  by (auto simp: handle_addrs_def split: option.splits)

lemma run_ok_addrs: "run_ok (m, hs) \<Longrightarrow> a \<in> set (concat (map handle_addrs hs)) \<Longrightarrow> \<exists>x. byName m x = Some a \<and> held (store m a)"
  unfolding run_ok_def fst_conv snd_conv by blast

lemma run_ok_handle: "run_ok (m, hs1 @ h # hs2) \<Longrightarrow> valid_handle m h"
  by (auto simp: run_ok_def valid_handle_def distinct_handle [symmetric] set_handle_addrs)

lemma run_ok_mem: "run_ok (m, hs) \<Longrightarrow> h \<in> set hs \<Longrightarrow> valid_handle m h"
  by (metis run_ok_handle split_list)

lemma run_ok_kept: "run_ok (m, hs) \<Longrightarrow> held_kept m m' \<Longrightarrow> lock_ok m' \<Longrightarrow> run_ok (m', hs)"
  unfolding run_ok_def held_kept_def by fastforce

lemma held_lock:
  assumes "lock_ok m" "byName m x = Some a" "held (store m a)"
  shows "locks m x = Some (lock_of (store m a))"
  using assms nodes_okD(5) [OF lock_okD(4) [OF assms(1)], of x] by (auto simp: locks_Some node_def)

text \<open>The locks that \<open>Confirm\<close> takes were not held before.\<close>

lemma Confirm_new_handle:
  assumes "lock_ok m" "Confirm now name0 name1 conditions m = Some (Inr h, m')" "a \<in> set (handle_addrs h)"
  shows "\<not> (byName m x = Some a \<and> held (store m a))"
proof
  assume a: "byName m x = Some a \<and> held (store m a)"
  obtain r m'' where c: "Confirm now name0 name1 conditions m = Some (r, m'')" "held_kept m m''"
      "confirm_spec now name0 name1 conditions (locks m) (map_sum id (handle_names m'') r) (locks m'')"
    using Confirm_correct [OF assms(1)] by blast
  then have "r = Inr h" "m'' = m'" using assms(2) by simp_all
  moreover have "x \<in> handle_names m'' h" using a c(2) assms(3) by (auto simp: held_kept_def handle_names_addrs)
  moreover have "\<forall>x \<in> handle_names m' h. \<exists>nam \<in> {name0, name1} - {[]}. claimable (expire now (locks m)) conditions nam x"
    using c(3) calculation(1,2) by (simp add: confirm_spec_def Let_def split: if_splits)
  ultimately obtain nam where "claimable (expire now (locks m)) conditions nam x" by blast
  moreover have "expire now (locks m) x = Some (lock_of (store m a))"
    using a held_lock [OF assms(1)] by (intro expire_held) auto
  ultimately show False using a by (simp add: claimable_def)
qed

lemma run_ok_confirm:
  assumes "run_ok (m, hs)" "Confirm now name0 name1 conditions m = Some (Inr h, m')"
  shows "run_ok (m', h # hs)"
proof -
  have ok: "lock_ok m" using assms(1) by (simp add: run_ok_def)
  have m': "lock_ok m'" "held_kept m m'" "valid_handle m' h"
    using Confirm_correct [OF ok, of now name0 name1 conditions] assms(2) by (cases h; auto)+
  have old: "run_ok (m', hs)" using run_ok_kept [OF assms(1) m'(2,1)] .
  have "set (handle_addrs h) \<inter> set (concat (map handle_addrs hs)) = {}"
    using Confirm_new_handle [OF ok assms(2)] assms(1) unfolding run_ok_def by fastforce
  then show ?thesis using old m'(3) by (auto simp: run_ok_def valid_handle_def distinct_handle set_handle_addrs)
qed

lemma release_keeps:
  assumes "lock_ok m" "valid_handle m h" "release h m = Some m'"
  shows "lock_ok m'" "byName m' = byName m" "x \<notin> handle_names m h \<Longrightarrow> locks m' x = locks m x"
  using release_correct [OF assms(1,2)] assms(3) by (auto simp: set_held_def)

lemma run_ok_release:
  assumes "run_ok (m, hs1 @ h # hs2)" "release h m = Some m'" shows "run_ok (m', hs1 @ hs2)"
proof -
  have ok: "lock_ok m" using assms(1) by (simp add: run_ok_def)
  note r = release_keeps [OF ok run_ok_handle [OF assms(1)] assms(2)]
  have "\<exists>x. byName m' x = Some a \<and> held (store m' a)" if a: "a \<in> set (concat (map handle_addrs (hs1 @ hs2)))" for a
  proof -
    obtain x where x: "byName m x = Some a" "held (store m a)" using a run_ok_addrs [OF assms(1), of a] by auto
    have "a \<notin> set (handle_addrs h)" using a assms(1) by (auto simp: run_ok_def)
    then have "x \<notin> handle_names m h" using x(1) by (auto simp: handle_names_addrs)
    then have "locks m' x = Some (lock_of (store m a))" using r(3) held_lock [OF ok x] by simp
    then obtain b where b: "byName m' x = Some b" "lock_of (store m a) = lock_of (store m' b)" by (auto simp: locks_Some)
    have "b = a" using b(1) x(1) r(2) by simp
    moreover have "held (store m' b)" using arg_cong [OF b(2), of lheld] x(2) by simp
    ultimately show ?thesis using b(1) by blast
  qed
  then show ?thesis using r(1) assms(1) by (auto simp: run_ok_def)
qed

lemma op_correct:
  assumes "lock_ok m"
  shows "Create now det m = Some (r, m') \<Longrightarrow> gen m + 1 < 2 ^ 64 \<Longrightarrow> lock_ok m' \<and> held_kept m m' \<and> create_spec now det (locks m) r (locks m')"
    and "Refresh now tok duration m = Some (r1, m') \<Longrightarrow> lock_ok m' \<and> held_kept m m' \<and> refresh_spec now tok duration (locks m) r1 (locks m')"
    and "Unlock now tok m = Some (r2, m') \<Longrightarrow> lock_ok m' \<and> held_kept m m' \<and> unlock_spec now tok (locks m) r2 (locks m')"
    and "Confirm now name0 name1 conditions m = Some (r3, m') \<Longrightarrow> lock_ok m' \<and> held_kept m m' \<and>
      confirm_spec now name0 name1 conditions (locks m) (map_sum id (handle_names m') r3) (locks m')"
  using Create_correct [OF assms, of now det] Refresh_correct [OF assms, of now tok duration]
    Unlock_correct [OF assms, of now tok] Confirm_correct [OF assms, of now name0 name1 conditions] by auto

lemma run_ok_step: "lock_step s s' \<Longrightarrow> run_ok s \<Longrightarrow> run_ok s'"
proof (induction rule: lock_step.induct)
  case (create m now det r m' hs)
  then show ?case using op_correct(1) run_ok_kept by (auto simp: run_ok_def)
next
  case (refresh now tok duration m r m' hs)
  then show ?case using op_correct(2) run_ok_kept [of m hs m'] by (auto simp: run_ok_def [of "(m, hs)"])
next
  case (unlock now tok m e m' hs)
  then show ?case using op_correct(3) run_ok_kept [of m hs m'] by (auto simp: run_ok_def [of "(m, hs)"])
next
  case (refuse now name0 name1 conditions m err m' hs)
  then show ?case using op_correct(4) run_ok_kept [of m hs m'] by (auto simp: run_ok_def [of "(m, hs)"])
qed (auto intro: run_ok_confirm run_ok_release)

lemma lock_ok_NewMemLS: "lock_ok (NewMemLS t)"
proof -
  have "node (NewMemLS t) = Map.empty" by (auto simp: NewMemLS_def node_def)
  then show ?thesis
    by (auto simp: lock_ok_def base_ok_def names_ok_def nodes_ok_def tokens_ok_def gen_ok_def heap_ok_def locked_def users_def
        timed_def expiry_heap.ordered_def indexed_def heap_order_def NewMemLS_def)
qed

lemma run_ok_reachable: "lock_step\<^sup>*\<^sup>* (NewMemLS t, []) s \<Longrightarrow> run_ok s"
proof (induction rule: rtranclp_induct)
  case base
  show ?case by (simp add: run_ok_def lock_ok_NewMemLS)
qed (auto intro: run_ok_step)

subsection \<open>Held locks\<close>

lemma spec_keeps:
  assumes "L x = Some l" "lheld l"
  shows "create_spec now det L r L' \<Longrightarrow> L' x = Some l"
    and "refresh_spec now tok duration L r1 L' \<Longrightarrow> L' x = Some l"
    and "unlock_spec now tok L r2 L' \<Longrightarrow> L' x = Some l"
    and "confirm_spec now name0 name1 conditions L r3 L' \<Longrightarrow> L' x = Some l"
proof -
  have x: "expire now L x = Some l" for now using assms by (intro expire_held)
  show "L' x = Some l" if "create_spec now det L r L'"
    using that x [of now] by (auto simp: create_spec_def Let_def can_place_def split: if_splits)
  show "L' x = Some l" if "refresh_spec now tok duration L r1 L'"
    using that x [of now] assms(2) by (auto simp: refresh_spec_def Let_def split: if_splits)
  show "L' x = Some l" if "unlock_spec now tok L r2 L'"
    using that x [of now] assms(2) by (auto simp: unlock_spec_def Let_def split: if_splits)
  have "l\<lparr>lheld := True\<rparr> = l" using assms(2) by simp
  then show "L' x = Some l" if "confirm_spec now name0 name1 conditions L r3 L'"
    using that x [of now] by (auto simp: confirm_spec_def Let_def set_held_def split: if_splits)
qed

definition keeps_lock :: "memLS \<Rightarrow> string \<Rightarrow> nat \<Rightarrow> lock \<Rightarrow> bool" where
  "keeps_lock m x a l \<longleftrightarrow> byName m x = Some a \<and> locks m x = Some l \<and> lheld l"

lemma keeps_lock_op:
  assumes "keeps_lock m x a l" "held_kept m m'" "locks m' x = Some l" shows "keeps_lock m' x a l"
proof -
  have "held (store m a)" using assms(1) by (auto simp: keeps_lock_def locks_Some)
  then show ?thesis using assms by (simp add: keeps_lock_def held_kept_def)
qed

lemma keeps_lock_step:
  assumes "lock_step s s'" "run_ok s" "h \<in> set (snd s')" "a \<in> set (handle_addrs h)" "keeps_lock (fst s) x a l"
  shows "keeps_lock (fst s') x a l"
  using assms
proof (induction rule: lock_step.induct)
  case (release h' m m' hs1 hs2)
  have ok: "lock_ok m" using release.prems(1) by (simp add: run_ok_def)
  note r = release_keeps [OF ok run_ok_handle [OF release.prems(1)] release.hyps]
  have "a \<notin> set (handle_addrs h')" using release.prems(1-3) by (auto simp: run_ok_def)
  then have "x \<notin> handle_names m h'" using release.prems(4) by (auto simp: handle_names_addrs keeps_lock_def)
  then show ?case using r release.prems(4) by (simp add: keeps_lock_def)
next
  case (create m now det r m' hs)
  then show ?case using op_correct(1) [of m now det r m'] spec_keeps(1) keeps_lock_op
    by (simp add: run_ok_def) (metis keeps_lock_def)
next
  case (refresh now tok duration m r m' hs)
  then show ?case using op_correct(2) [of m now tok duration r m'] spec_keeps(2) keeps_lock_op
    by (simp add: run_ok_def) (metis keeps_lock_def)
next
  case (unlock now tok m e m' hs)
  then show ?case using op_correct(3) [of m now tok e m'] spec_keeps(3) keeps_lock_op
    by (simp add: run_ok_def) (metis keeps_lock_def)
next
  case (confirm now name0 name1 conditions m h' m' hs)
  then show ?case using op_correct(4) [of m now name0 name1 conditions "Inr h'" m'] spec_keeps(4) keeps_lock_op
    by (simp add: run_ok_def) (metis keeps_lock_def)
next
  case (refuse now name0 name1 conditions m err m' hs)
  then show ?case using op_correct(4) [of m now name0 name1 conditions "Inl err" m'] spec_keeps(4) keeps_lock_op
    by (simp add: run_ok_def) (metis keeps_lock_def)
qed

text \<open>Steps during which a release closure has not been called.\<close>

definition held_step :: "handle \<Rightarrow> memLS \<times> handle list \<Rightarrow> memLS \<times> handle list \<Rightarrow> bool" where
  "held_step h s s' \<longleftrightarrow> lock_step s s' \<and> h \<in> set (snd s')"

lemma keeps_lock_run:
  assumes "(held_step h)\<^sup>*\<^sup>* s s'" "run_ok s" "a \<in> set (handle_addrs h)" "keeps_lock (fst s) x a l"
  shows "run_ok s' \<and> keeps_lock (fst s') x a l"
  using assms(1)
proof (induction rule: rtranclp_induct)
  case (step s' s'')
  then show ?case using run_ok_step [of s' s''] keeps_lock_step [of s' s'' h a x l] assms(3) by (simp add: held_step_def)
qed (use assms in simp)

section \<open>Properties\<close>

text \<open>A run for the witnesses: one lock of infinite depth on the root folder, then confirmed for a file below it.\<close>

definition sample_details :: LockDetails where
  "sample_details = \<lparr>Root = ''/'', Duration = - 1, OwnerXML = [], ZeroDepth = False\<rparr>"

definition sample_lock :: memLS where
  "sample_lock = snd (the (Create 0 sample_details (NewMemLS 0)))"

definition sample_shown :: "Condition list" where
  "sample_shown = [\<lparr>Not = False, Token = ''1'', ETag = []\<rparr>]"

definition sample_held :: memLS where
  "sample_held = snd (the (Confirm 1 ''/b'' [] sample_shown sample_lock))"

lemma sample_create: "Create 0 sample_details (NewMemLS 0) = Some (Inr ''1'', sample_lock)"
proof -
  have "\<not> Option.is_none (Create 0 sample_details (NewMemLS 0))" "fst (the (Create 0 sample_details (NewMemLS 0))) = Inr ''1''"
    by code_simp+
  then show ?thesis unfolding sample_lock_def by (auto simp: Option.is_none_def)
qed

lemma sample_confirm: "Confirm 1 ''/b'' [] sample_shown sample_lock = Some (Inr (Some 0, None), sample_held)"
proof -
  have "\<not> Option.is_none (Confirm 1 ''/b'' [] sample_shown sample_lock)"
      "fst (the (Confirm 1 ''/b'' [] sample_shown sample_lock)) = Inr (Some 0, None)"
    by code_simp+
  then show ?thesis unfolding sample_held_def by (auto simp: Option.is_none_def)
qed

lemma sample_reachable: "lock_step\<^sup>*\<^sup>* (NewMemLS 0, []) (sample_lock, [])"
proof -
  have "gen (NewMemLS 0) + 1 < 2 ^ 64" by (simp add: NewMemLS_def)
  then show ?thesis using lock_step.create [OF _ sample_create] by blast
qed

lemma sample_held_reachable: "lock_step\<^sup>*\<^sup>* (NewMemLS 0, []) (sample_held, [(Some 0, None)])"
  using sample_reachable lock_step.confirm [OF sample_confirm] by (rule rtranclp.rtrancl_into_rtrancl)

text \<open>C10 (no overlapping locks, no panics): in every state that a run of the lock system reaches, no lock
  covers the root of another one, every operation returns (none of the panics of the code occurs), and
  every pending release succeeds. A new lock needs an unused token number below \<open>2 ^ 64\<close>.\<close>

theorem lock_system_safe:
  assumes "lock_step\<^sup>*\<^sup>* (NewMemLS t, []) (m, hs)"
  shows "(\<forall>x y l l'. locks m x = Some l \<longrightarrow> locks m y = Some l' \<longrightarrow> covers l x y \<longrightarrow> x = y) \<and>
    Unlock now tok m \<noteq> None \<and> Refresh now tok duration m \<noteq> None \<and>
    Confirm now name0 name1 conditions m \<noteq> None \<and> (gen m + 1 < 2 ^ 64 \<longrightarrow> Create now det m \<noteq> None) \<and>
    (\<forall>h \<in> set hs. release h m \<noteq> None)"
proof -
  have run: "run_ok (m, hs)" by (rule run_ok_reachable [OF assms])
  then have ok: "lock_ok m" by (simp add: run_ok_def)
  have "release h m \<noteq> None" if "h \<in> set hs" for h
    using release_correct [OF ok run_ok_mem [OF run that]] by auto
  then show ?thesis using mem.no_overlap [OF ok] mem.create_law [OF ok] mem.refresh_law [OF ok, of now tok duration]
      mem.unlock_law [OF ok, of now tok] mem.confirm_law [OF ok, of now name0 name1 conditions] by fastforce
qed

lemma lock_system_safe_witness:
  "Unlock 1 ''1'' sample_held \<noteq> None \<and> Refresh 1 ''1'' 7 sample_held \<noteq> None \<and>
    Confirm 1 ''/b'' [] sample_shown sample_held \<noteq> None \<and> release (Some 0, None) sample_held \<noteq> None"
  using lock_system_safe [OF sample_held_reachable, of 1 "''1''" 7 "''/b''" "[]" sample_shown] by simp

text \<open>C2 (refinement of the lock table): in every reachable state each operation changes the abstract table
  of locks, and answers, as the interface specifies: expired locks disappear first; \<open>Create\<close> adds a lock with an
  unused token unless it would overlap another one; \<open>Refresh\<close> and \<open>Unlock\<close> act on the lock with the token unless it is
  held; \<open>Confirm\<close> holds, for each resource, a lock that covers it, whose token is shown and that is not held.\<close>

theorem lock_system_refines:
  assumes "lock_step\<^sup>*\<^sup>* (NewMemLS t, []) (m, hs)"
  shows "(Create now det m = Some (r, m') \<longrightarrow> gen m + 1 < 2 ^ 64 \<longrightarrow> create_spec now det (locks m) r (locks m')) \<and>
    (Refresh now tok duration m = Some (r1, m') \<longrightarrow> refresh_spec now tok duration (locks m) r1 (locks m')) \<and>
    (Unlock now tok m = Some (r2, m') \<longrightarrow> unlock_spec now tok (locks m) r2 (locks m')) \<and>
    (Confirm now name0 name1 conditions m = Some (r3, m') \<longrightarrow>
       confirm_spec now name0 name1 conditions (locks m) (map_sum id (handle_names m') r3) (locks m')) \<and>
    (h \<in> set hs \<longrightarrow> release h m = Some m' \<longrightarrow> locks m' = set_held False (handle_names m h) (locks m))"
proof -
  have run: "run_ok (m, hs)" by (rule run_ok_reachable [OF assms])
  then have ok: "lock_ok m" by (simp add: run_ok_def)
  have "locks m' = set_held False (handle_names m h) (locks m)" if "h \<in> set hs" "release h m = Some m'"
    using release_correct [OF ok run_ok_mem [OF run that(1)]] that(2) by auto
  then show ?thesis using op_correct [OF ok] by blast
qed

lemma lock_system_refines_witness:
  "confirm_spec 1 ''/b'' [] sample_shown (locks sample_lock) (Inr (handle_names sample_held (Some 0, None))) (locks sample_held)"
  using lock_system_refines [OF sample_reachable] sample_confirm by fastforce

text \<open>C9 (exclusive access): once \<open>Confirm\<close> has confirmed a claim on a resource, and until its release closure
  is called, no other claim on that resource is confirmed, whatever tokens are shown and whatever operations
  happen in between.\<close>

theorem Confirm_exclusive:
  assumes "lock_step\<^sup>*\<^sup>* (NewMemLS t, []) (m, hs)" "Confirm now name0 name1 conditions m = Some (Inr h, m1)"
    and "(held_step h)\<^sup>*\<^sup>* (m1, h # hs) (m2, hs2)" "nam \<in> {name0, name1}" "nam \<noteq> []"
    and "nam \<in> {name0', name1'}"
  shows "\<exists>m3. Confirm now' name0' name1' conditions' m2 = Some (Inl ErrConfirmationFailed, m3)"
proof -
  have run: "run_ok (m, hs)" by (rule run_ok_reachable [OF assms(1)])
  then have ok: "lock_ok m" by (simp add: run_ok_def)
  have run1: "run_ok (m1, h # hs)" by (rule run_ok_confirm [OF run assms(2)])
  have "confirm_spec now name0 name1 conditions (locks m) (Inr (handle_names m1 h)) (locks m1)"
    using op_correct(4) [OF ok assms(2)] by simp
  then have "\<exists>x \<in> handle_names m1 h. claimable (expire now (locks m)) conditions nam x"
      "locks m1 = set_held True (handle_names m1 h) (expire now (locks m))"
    using assms(4,5) unfolding confirm_spec_def Let_def by (auto split: if_splits)
  then obtain x l0 where x: "x \<in> handle_names m1 h" "expire now (locks m) x = Some l0" "covers l0 x (slashClean nam)"
      "locks m1 x = Some (l0\<lparr>lheld := True\<rparr>)"
    by (auto simp: claimable_def set_held_def)
  then obtain a where a: "a \<in> set (handle_addrs h)" "keeps_lock m1 x a (l0\<lparr>lheld := True\<rparr>)"
    by (auto simp: handle_names_addrs keeps_lock_def)
  then have k: "run_ok (m2, hs2)" "keeps_lock m2 x a (l0\<lparr>lheld := True\<rparr>)"
    using keeps_lock_run [OF assms(3) run1 a(1)] by simp_all
  then have "lock_ok m2" "locks m2 x = Some (l0\<lparr>lheld := True\<rparr>)" by (simp_all add: run_ok_def keeps_lock_def)
  then show ?thesis using mem.confirm_blocked [OF _ _ _ _ assms(5,6), of m2 x "l0\<lparr>lheld := True\<rparr>"] x(3)
    by (simp add: covers_def)
qed

lemma Confirm_exclusive_witness:
  "\<exists>m3. Confirm 99 [] ''/b'' sample_shown sample_held = Some (Inl ErrConfirmationFailed, m3)"
  by (rule Confirm_exclusive [OF sample_reachable sample_confirm, of _ "[(Some 0, None)]" "''/b''"]) simp_all

end
