(* ===== verification/Webdav_Handler.thy ===== *)
theory Webdav_Handler
  imports If_Header Lock_Properties Access
begin

text \<open>
  The request handlers of the WebDAV server that lock or change resources (\<open>server/webdav/webdav.go\<close>,
  \<open>server/webdav/file.go\<close>). A handler is a function on the state of the server: the lock system, the cache of
  folder metadata, and the calls made to the file system so far. It ends with an HTTP status;
  \<open>None\<close> is a panic. Responses other than the status are not modelled.

  The environment of a request holds what the handlers only call: the user of the request, the clock
  (its \<open>n\<close>-th reading), the metadata table, \<open>url.Parse\<close> as host and path, and the file system layer
  \<open>internal/fs\<close>, whose answers may depend on all earlier calls, and whether an object's own \<open>ETag\<close> method fails.
\<close>

section \<open>State and environment\<close>

datatype fs_error = FsObjectNotFound | FsStorageNotFound | FsNotExist | FsOther string

datatype fs_call =
    FsRemove string
  | FsMakeDir string
  | FsPutDirectly string string int
  | FsRename string string
  | FsMove string string
  | FsCopy string string

record dav =
  dlocks :: memLS
  dcache :: meta_cache
  dlog :: "fs_call list"

record dav_env =
  Prefix :: string
  envUser :: User
  clock :: "nat \<Rightarrow> int"
  metaDB :: "string \<Rightarrow> db_error + Meta"
  urlParse :: "string \<Rightarrow> (string \<times> string) option"
  fsGet :: "fs_call list \<Rightarrow> string \<Rightarrow> fs_error + bool"
  fsDo :: "fs_call list \<Rightarrow> fs_call \<Rightarrow> fs_error option"
  etagFails :: "fs_call list \<Rightarrow> string \<Rightarrow> bool"
  ignoreSystemFiles :: bool

text \<open>\<open>LockBody\<close> is what \<open>readLockInfo\<close> makes of the request body: a failure with its status, the empty body
  that refreshes a lock, or the owner of a new lock. \<open>PatchStatus\<close> is the outcome of reading, answering
  and writing the body of a \<open>PROPPATCH\<close> request, which never changes a property.\<close>

datatype lock_body = LockInvalid int | LockRefresh | LockNew string

record Request =
  Method :: string
  UrlPath :: string
  Host :: string
  HdrIf :: string
  Destination :: string
  Depth :: string
  Overwrite :: string
  Timeout :: string
  LockToken :: string
  ContentLength :: int
  XFileSize :: string
  LockBody :: lock_body
  PatchStatus :: int

section \<open>Steps of a handler\<close>

type_synonym 'a dav_m = "dav \<Rightarrow> ((int + 'a) \<times> dav) option"

definition ret :: "'a \<Rightarrow> 'a dav_m" where
  "ret x st = Some (Inr x, st)"

definition stop :: "int \<Rightarrow> 'a dav_m" where
  "stop status st = Some (Inl status, st)"

definition dav_bind :: "'a dav_m \<Rightarrow> ('a \<Rightarrow> 'b dav_m) \<Rightarrow> 'b dav_m" where
  "dav_bind m f st =
     (case m st of
        None \<Rightarrow> None
      | Some (Inl status, st) \<Rightarrow> Some (Inl status, st)
      | Some (Inr x, st) \<Rightarrow> f x st)"

definition guard_else :: "bool \<Rightarrow> int \<Rightarrow> 'b dav_m \<Rightarrow> 'b dav_m" where
  "guard_else b status k = (if b then k else stop status)"

definition stripPrefix :: "dav_env \<Rightarrow> string \<Rightarrow> int + string" where
  "stripPrefix e p =
     (if Prefix e = [] then Inr p
      else if has_prefix p (Prefix e) then Inr (trim_prefix p (Prefix e))
      else Inl 404)"

definition strip :: "dav_env \<Rightarrow> string \<Rightarrow> string dav_m" where
  "strip e p st = Some (stripPrefix e p, st)"

definition joinPath :: "dav_env \<Rightarrow> string \<Rightarrow> string dav_m" where
  "joinPath e p = (case JoinPath (envUser e) p of Inl _ \<Rightarrow> stop 403 | Inr q \<Rightarrow> ret q)"

text \<open>\<open>op.GetNearestMeta\<close>, where a missing entry is no entry and any other error is status 500.\<close>

definition nearestMeta :: "dav_env \<Rightarrow> string \<Rightarrow> Meta option dav_m" where
  "nearestMeta e p st =
     (case GetNearestMeta (metaDB e) (dcache st) p of
        None \<Rightarrow> None
      | Some (r, c) \<Rightarrow> Some (case r of Inr m \<Rightarrow> Inr (Some m) | Inl MetaNotFound \<Rightarrow> Inr None | Inl _ \<Rightarrow> Inl 500, st\<lparr>dcache := c\<rparr>))"

definition fs_get :: "dav_env \<Rightarrow> string \<Rightarrow> (fs_error + bool) dav_m" where
  "fs_get e p st = Some (Inr (fsGet e (dlog st) p), st)"

definition fs_do :: "dav_env \<Rightarrow> fs_call \<Rightarrow> fs_error option dav_m" where
  "fs_do e c st = Some (Inr (fsDo e (dlog st) c), st\<lparr>dlog := dlog st @ [c]\<rparr>)"

text \<open>\<open>findETag\<close>, as far as it can fail.\<close>

definition findETag :: "dav_env \<Rightarrow> string \<Rightarrow> bool dav_m" where
  "findETag e p st = Some (Inr (etagFails e (dlog st) p), st)"

section \<open>Locks of a request\<close>

text \<open>What the function returned by \<open>confirmLocks\<close> does: remove the temporary locks, or release the
  confirmed ones.\<close>

datatype release_fn = ReleaseTemp int string string | ReleaseHeld "nat option \<times> nat option"

definition temp_details :: "string \<Rightarrow> LockDetails" where
  "temp_details root = \<lparr>Root = root, Duration = infiniteTimeout, OwnerXML = [], ZeroDepth = True\<rparr>"

definition lock_temp :: "int \<Rightarrow> string \<Rightarrow> string dav_m" where
  "lock_temp now root st =
     (case Create now (temp_details root) (dlocks st) of
        None \<Rightarrow> None
      | Some (r, m) \<Rightarrow> Some (case r of Inr tok \<Rightarrow> Inr tok | Inl ErrLocked \<Rightarrow> Inl 423 | Inl _ \<Rightarrow> Inl 500, st\<lparr>dlocks := m\<rparr>))"

definition unlock_temp :: "int \<Rightarrow> string \<Rightarrow> dav \<Rightarrow> dav option" where
  "unlock_temp now tok st =
     (if tok = [] then Some st else map_option (\<lambda>(_, m). st\<lparr>dlocks := m\<rparr>) (Unlock now tok (dlocks st)))"

definition run_release :: "release_fn \<Rightarrow> dav \<Rightarrow> dav option" where
  "run_release r st =
     (case r of
        ReleaseTemp now srcToken dstToken \<Rightarrow>
          (case unlock_temp now dstToken st of None \<Rightarrow> None | Some st \<Rightarrow> unlock_temp now srcToken st)
      | ReleaseHeld h \<Rightarrow> map_option (\<lambda>m. st\<lparr>dlocks := m\<rparr>) (release h (dlocks st)))"

text \<open>The resource a list of the \<open>If\<close> header is about: its tag, if it has one on this host, or the resource
  of the request.\<close>

datatype list_source = Source string | SkipList | SourceError int

definition list_source :: "dav_env \<Rightarrow> Request \<Rightarrow> string \<Rightarrow> ifList \<Rightarrow> list_source" where
  "list_source e r src l =
     (if resourceTag l = [] then Source src
      else (case urlParse e (resourceTag l) of
          None \<Rightarrow> SkipList
        | Some (host, p) \<Rightarrow>
            if host \<noteq> Host r then SkipList
            else (case stripPrefix e p of Inl status \<Rightarrow> SourceError status | Inr q \<Rightarrow> Source q)))"

text \<open>The loop over the lists; \<open>n\<close> counts the readings of the clock.\<close>

fun confirm_lists :: "dav_env \<Rightarrow> Request \<Rightarrow> string \<Rightarrow> string \<Rightarrow> nat \<Rightarrow> ifList list \<Rightarrow> release_fn dav_m" where
  "confirm_lists e r src dst n [] st = Some (Inl 412, st)"
| "confirm_lists e r src dst n (l # ls) st =
     (case list_source e r src l of
        SkipList \<Rightarrow> confirm_lists e r src dst n ls st
      | SourceError status \<Rightarrow> Some (Inl status, st)
      | Source lsrc \<Rightarrow>
          (case Confirm (clock e n) lsrc dst (conditions l) (dlocks st) of
             None \<Rightarrow> None
           | Some (Inl err, m) \<Rightarrow>
               if err = ErrConfirmationFailed then confirm_lists e r src dst (Suc n) ls (st\<lparr>dlocks := m\<rparr>)
               else Some (Inl 500, st\<lparr>dlocks := m\<rparr>)
           | Some (Inr h, m) \<Rightarrow> Some (Inr (ReleaseHeld h), st\<lparr>dlocks := m\<rparr>)))"

definition confirm_temp :: "int \<Rightarrow> string \<Rightarrow> string \<Rightarrow> release_fn dav_m" where
  "confirm_temp now src dst =
     dav_bind (if src = [] then ret [] else lock_temp now src) (\<lambda>srcToken st.
       (case (if dst = [] then ret [] else lock_temp now dst) st of
          None \<Rightarrow> None
        | Some (Inl status, st) \<Rightarrow> map_option (\<lambda>st. (Inl status, st)) (unlock_temp now srcToken st)
        | Some (Inr dstToken, st) \<Rightarrow> Some (Inr (ReleaseTemp now srcToken dstToken), st)))"

definition confirmLocks :: "dav_env \<Rightarrow> Request \<Rightarrow> string \<Rightarrow> string \<Rightarrow> release_fn dav_m" where
  "confirmLocks e r src dst =
     (if HdrIf r = [] then confirm_temp (clock e 0) src dst
      else (case parseIfHeader (HdrIf r) of
          None \<Rightarrow> stop 400
        | Some ih \<Rightarrow> confirm_lists e r src dst 0 (ihlists ih)))"

text \<open>The part of a handler after \<open>confirmLocks\<close>, with the deferred call of \<open>release\<close>.\<close>

definition with_locks :: "dav_env \<Rightarrow> Request \<Rightarrow> string \<Rightarrow> string \<Rightarrow> int dav_m \<Rightarrow> int dav_m" where
  "with_locks e r src dst body =
     dav_bind (confirmLocks e r src dst) (\<lambda>rel st.
       (case body st of
          None \<Rightarrow> None
        | Some (res, st) \<Rightarrow> map_option (\<lambda>st. (res, st)) (run_release rel st)))"

section \<open>Handlers\<close>

text \<open>\<open>handleDelete\<close>, its part under the locks apart.\<close>

definition delete_locked :: "dav_env \<Rightarrow> string \<Rightarrow> int dav_m" where
  "delete_locked e reqPath =
     guard_else (CanRemove (Permission (envUser e))) 403
       (dav_bind (joinPath e reqPath) (\<lambda>reqPath.
         dav_bind (fs_get e reqPath) (\<lambda>res.
           case res of
             Inl err \<Rightarrow> stop (if err = FsObjectNotFound then 404 else 405)
           | Inr _ \<Rightarrow>
               dav_bind (nearestMeta e (path_dir reqPath)) (\<lambda>parentMeta.
                 guard_else (CanWrite (Some (envUser e)) parentMeta (path_dir reqPath)) 403
                   (dav_bind (fs_do e (FsRemove reqPath)) (\<lambda>err.
                     ret (if err \<noteq> None then 405 else 204)))))))"

definition handleDelete :: "dav_env \<Rightarrow> Request \<Rightarrow> int dav_m" where
  "handleDelete e r =
     dav_bind (strip e (UrlPath r)) (\<lambda>reqPath. with_locks e r reqPath [] (delete_locked e reqPath))"

definition IsSystemFile :: "string \<Rightarrow> bool" where
  "IsSystemFile filename \<longleftrightarrow>
     filename \<in> {''.DS_Store'', ''desktop.ini'', ''Thumbs.db'', ''@eaDir''} \<or> has_prefix filename ''._''"

definition write_guards :: "dav_env \<Rightarrow> Meta option \<Rightarrow> string \<Rightarrow> 'a dav_m \<Rightarrow> 'a dav_m" where
  "write_guards e parentMeta parentPath k =
     guard_else (CanWriteContent (Permission (envUser e)) \<or> CanWriteContentBypassUserPerms parentMeta parentPath) 403
       (guard_else (CanWrite (Some (envUser e)) parentMeta parentPath) 403 k)"

definition put_size :: "Request \<Rightarrow> int + int" where
  "put_size r =
     (if ContentLength r < 0 \<and> XFileSize r \<noteq> [] then
        (case ParseInt (XFileSize r) of (n, None) \<Rightarrow> Inr n | (_, Some _) \<Rightarrow> Inl 400)
      else Inr (ContentLength r))"

definition handlePut :: "dav_env \<Rightarrow> Request \<Rightarrow> int dav_m" where
  "handlePut e r =
     dav_bind (strip e (UrlPath r)) (\<lambda>reqPath.
       guard_else (reqPath \<noteq> []) 405
         (with_locks e r reqPath []
           (dav_bind (joinPath e reqPath) (\<lambda>reqPath.
             case put_size r of
               Inl status \<Rightarrow> stop status
             | Inr sz \<Rightarrow>
                 (let nam = path_base reqPath; parentPath = path_dir reqPath in
                    guard_else (\<not> (ignoreSystemFiles e \<and> IsSystemFile nam)) 403
                      (dav_bind (nearestMeta e parentPath) (\<lambda>parentMeta.
                        write_guards e parentMeta parentPath
                          (dav_bind (fs_do e (FsPutDirectly parentPath nam sz)) (\<lambda>err.
                            if err = Some FsObjectNotFound \<or> err = Some FsStorageNotFound then stop 404
                            else if err \<noteq> None then stop 405
                            else dav_bind (findETag e reqPath) (\<lambda>fails. ret (if fails then 500 else 201)))))))))))"

definition handleMkcol :: "dav_env \<Rightarrow> Request \<Rightarrow> int dav_m" where
  "handleMkcol e r =
     dav_bind (strip e (UrlPath r)) (\<lambda>reqPath.
       with_locks e r reqPath []
         (dav_bind (joinPath e reqPath) (\<lambda>reqPath.
           guard_else (ContentLength r \<le> 0) 415
             (dav_bind (fs_get e reqPath) (\<lambda>res.
               case res of Inr _ \<Rightarrow> stop 405 | Inl _ \<Rightarrow>
                 (let parentPath = path_dir reqPath in
                    dav_bind (fs_get e parentPath) (\<lambda>res.
                      case res of
                        Inl err \<Rightarrow> stop (if err = FsObjectNotFound then 409 else 405)
                      | Inr _ \<Rightarrow>
                          dav_bind (nearestMeta e parentPath) (\<lambda>parentMeta.
                            write_guards e parentMeta parentPath
                              (dav_bind (fs_do e (FsMakeDir reqPath)) (\<lambda>err.
                                ret (case err of None \<Rightarrow> 201 | Some FsNotExist \<Rightarrow> 409 | Some _ \<Rightarrow> 405)))))))))))"

definition moveFiles :: "dav_env \<Rightarrow> string \<Rightarrow> string \<Rightarrow> int dav_m" where
  "moveFiles e src dst =
     (let srcDir = path_dir src; dstDir = path_dir dst; srcName = path_base src; dstName = path_base dst;
          u = envUser e
      in guard_else (\<not> (srcDir \<noteq> dstDir \<and> \<not> CanMove (Permission u))) 403
          (guard_else (\<not> (srcName \<noteq> dstName \<and> \<not> CanRename (Permission u))) 403
            (dav_bind (nearestMeta e srcDir) (\<lambda>srcMeta.
              dav_bind (nearestMeta e dstDir) (\<lambda>dstMeta.
                guard_else (CanWrite (Some u) srcMeta srcDir \<and> CanWrite (Some u) dstMeta dstDir) 403
                  (dav_bind
                    (if srcDir = dstDir then fs_do e (FsRename src dstName)
                     else dav_bind (fs_do e (FsMove src dstDir)) (\<lambda>err.
                       if err \<noteq> None then stop 500
                       else if srcName \<noteq> dstName then fs_do e (FsRename (path_join [dstDir, srcName]) dstName)
                       else ret None))
                    (\<lambda>err. ret (if err \<noteq> None then 500 else 201))))))))"

definition copyFiles :: "dav_env \<Rightarrow> string \<Rightarrow> string \<Rightarrow> int dav_m" where
  "copyFiles e src dst =
     (let srcDir = path_dir src; dstDir = path_dir dst; u = envUser e
      in guard_else (CanCopy (Permission u)) 403
          (dav_bind (nearestMeta e srcDir) (\<lambda>srcMeta.
            guard_else (CanRead (Some u) srcMeta srcDir) 403
              (dav_bind (nearestMeta e dstDir) (\<lambda>dstMeta.
                guard_else (CanWrite (Some u) dstMeta dstDir) 403
                  (dav_bind (fs_do e (FsCopy src dstDir)) (\<lambda>err. ret (if err \<noteq> None then 500 else 201))))))))"

definition infiniteDepth :: int where "infiniteDepth = - 1"
definition invalidDepth :: int where "invalidDepth = - 2"

definition parseDepth :: "string \<Rightarrow> int" where
  "parseDepth s =
     (if s = ''0'' then 0 else if s = ''1'' then 1 else if s = ''infinity'' then infiniteDepth else invalidDepth)"

definition handleCopyMove :: "dav_env \<Rightarrow> Request \<Rightarrow> int dav_m" where
  "handleCopyMove e r =
     guard_else (Destination r \<noteq> []) 400
       (case urlParse e (Destination r) of
          None \<Rightarrow> stop 400
        | Some (host, p) \<Rightarrow>
            guard_else (\<not> (host \<noteq> [] \<and> host \<noteq> Host r)) 502
              (dav_bind (strip e (UrlPath r)) (\<lambda>src.
                dav_bind (strip e p) (\<lambda>dst.
                  guard_else (dst \<noteq> []) 502
                    (guard_else (dst \<noteq> src) 403
                      (dav_bind (joinPath e src) (\<lambda>src.
                        dav_bind (joinPath e dst) (\<lambda>dst.
                          if Method r = ''COPY'' then
                            with_locks e r [] dst
                              (guard_else (Depth r = [] \<or> parseDepth (Depth r) = 0 \<or> parseDepth (Depth r) = infiniteDepth) 400
                                (copyFiles e src dst))
                          else
                            with_locks e r src dst
                              (guard_else (Depth r = [] \<or> parseDepth (Depth r) = infiniteDepth) 400
                                (moveFiles e src dst))))))))))"

definition handleProppatch :: "dav_env \<Rightarrow> Request \<Rightarrow> int dav_m" where
  "handleProppatch e r =
     dav_bind (strip e (UrlPath r)) (\<lambda>reqPath.
       with_locks e r reqPath []
         (dav_bind (joinPath e reqPath) (\<lambda>reqPath.
           dav_bind (nearestMeta e reqPath) (\<lambda>meta.
             guard_else (CanWrite (Some (envUser e)) meta reqPath) 403
               (dav_bind (fs_get e reqPath) (\<lambda>res.
                 case res of
                   Inl err \<Rightarrow> stop (if err = FsObjectNotFound then 404 else 405)
                 | Inr _ \<Rightarrow> ret (PatchStatus r)))))))"

text \<open>\<open>handleLock\<close>; the answer of a successful request is its token with status 0.\<close>

definition handleLock :: "dav_env \<Rightarrow> Request \<Rightarrow> (int \<times> string) dav_m" where
  "handleLock e r =
     (case parseTimeout (Timeout r) of
        None \<Rightarrow> stop 400
      | Some duration \<Rightarrow>
          (case LockBody r of
             LockInvalid status \<Rightarrow> stop status
           | LockRefresh \<Rightarrow>
               (case parseIfHeader (HdrIf r) of
                  None \<Rightarrow> stop 400
                | Some ih \<Rightarrow>
                    (let tok = (case ihlists ih of [l] \<Rightarrow> (case conditions l of [c] \<Rightarrow> Token c | _ \<Rightarrow> []) | _ \<Rightarrow> []) in
                       guard_else (tok \<noteq> []) 400
                         (\<lambda>st. case Refresh (clock e 0) tok duration (dlocks st) of
                            None \<Rightarrow> None
                          | Some (res, m) \<Rightarrow>
                              Some (case res of Inr _ \<Rightarrow> Inr (0, tok) | Inl ErrNoSuchLock \<Rightarrow> Inl 412 | Inl _ \<Rightarrow> Inl 500, st\<lparr>dlocks := m\<rparr>))))
           | LockNew owner \<Rightarrow>
               guard_else (Depth r = [] \<or> parseDepth (Depth r) = 0 \<or> parseDepth (Depth r) = infiniteDepth) 400
                 (dav_bind (strip e (UrlPath r)) (\<lambda>reqPath.
                   dav_bind (joinPath e reqPath) (\<lambda>reqPath.
                     dav_bind (nearestMeta e reqPath) (\<lambda>meta.
                       guard_else (CanWrite (Some (envUser e)) meta reqPath) 403
                         (\<lambda>st. case Create (clock e 0) \<lparr>Root = reqPath, Duration = duration, OwnerXML = owner,
                                  ZeroDepth = (Depth r \<noteq> [] \<and> parseDepth (Depth r) = 0)\<rparr> (dlocks st) of
                            None \<Rightarrow> None
                          | Some (res, m) \<Rightarrow>
                              Some (case res of Inr tok \<Rightarrow> Inr (0, tok) | Inl ErrLocked \<Rightarrow> Inl 423 | Inl _ \<Rightarrow> Inl 500, st\<lparr>dlocks := m\<rparr>))))))))"

definition handleUnlock :: "dav_env \<Rightarrow> Request \<Rightarrow> int dav_m" where
  "handleUnlock e r =
     (let t = LockToken r in
        guard_else (\<not> (length t < 2 \<or> hd t \<noteq> CHR ''<'' \<or> last t \<noteq> CHR ''>'')) 400
          (dav_bind (strip e (UrlPath r)) (\<lambda>reqPath.
            dav_bind (joinPath e reqPath) (\<lambda>reqPath.
              dav_bind (nearestMeta e reqPath) (\<lambda>meta.
                guard_else (CanWrite (Some (envUser e)) meta reqPath) 403
                  (\<lambda>st. case Unlock (clock e 0) (butlast (tl t)) (dlocks st) of
                     None \<Rightarrow> None
                   | Some (res, m) \<Rightarrow>
                       Some (Inr (case res of None \<Rightarrow> 204 | Some ErrForbidden \<Rightarrow> 403 | Some ErrLocked \<Rightarrow> 423
                                    | Some ErrNoSuchLock \<Rightarrow> 409 | Some _ \<Rightarrow> 500), st\<lparr>dlocks := m\<rparr>)))))))"

text \<open>The methods of \<open>ServeHTTP\<close> that can change a resource or a lock.\<close>

definition serve_write :: "dav_env \<Rightarrow> Request \<Rightarrow> int dav_m" where
  "serve_write e r =
     (if Method r = ''DELETE'' then handleDelete e r
      else if Method r = ''PUT'' then handlePut e r
      else if Method r = ''MKCOL'' then handleMkcol e r
      else if Method r = ''COPY'' \<or> Method r = ''MOVE'' then handleCopyMove e r
      else if Method r = ''LOCK'' then dav_bind (handleLock e r) (\<lambda>(status, _). ret status)
      else if Method r = ''UNLOCK'' then handleUnlock e r
      else if Method r = ''PROPPATCH'' then handleProppatch e r
      else stop 400)"

end
