(* ===== verification/Webdav_Writes.thy ===== *)
theory Webdav_Writes
  imports Webdav_Handler
begin

text \<open>
  Which calls to the file system the WebDAV handlers make: a small calculus of handler steps that tracks
  the calls and the metadata that guards them, and the authorisation of every call.
\<close>

section \<open>Metadata of a folder\<close>

fun entry_above :: "(string \<Rightarrow> db_error + Meta) \<Rightarrow> string list \<Rightarrow> Meta option" where
  "entry_above db [] = (case db (abs_path []) of Inr m \<Rightarrow> Some m | Inl _ \<Rightarrow> None)"
| "entry_above db (c # cs) =
     (case db (abs_path (rev (c # cs))) of Inr m \<Rightarrow> Some m | Inl _ \<Rightarrow> entry_above db cs)"

text \<open>The entry of the deepest folder above a path that has one.\<close>

definition nearest_entry :: "(string \<Rightarrow> db_error + Meta) \<Rightarrow> string \<Rightarrow> Meta option" where
  "nearest_entry db p = entry_above db (rev (path_comps p))"

lemma entry_above_None: "(\<And>es. prefix es (rev cs) \<Longrightarrow> \<exists>e. db (abs_path es) = Inl e) \<Longrightarrow> entry_above db cs = None"
proof (induction cs)
  case Nil
  then obtain e where "db (abs_path []) = Inl e" by fastforce
  then show ?case by simp
next
  case (Cons c cs)
  obtain e where "db (abs_path (rev (c # cs))) = Inl e" using Cons.prems [of "rev (c # cs)"] by auto
  moreover have "entry_above db cs = None" using Cons.prems by (intro Cons.IH) simp
  ultimately show ?case by simp
qed

lemma entry_above_Some:
  "prefix ds (rev cs) \<Longrightarrow> db (abs_path ds) = Inr m \<Longrightarrow>
     (\<And>es. prefix es (rev cs) \<Longrightarrow> length ds < length es \<Longrightarrow> \<exists>e. db (abs_path es) = Inl e) \<Longrightarrow> entry_above db cs = Some m"
proof (induction cs)
  case (Cons c cs)
  show ?case
  proof (cases "ds = rev (c # cs)")
    case False
    then have p: "prefix ds (rev cs)" using Cons.prems(1) by auto
    then have "length ds < length (rev (c # cs))" using prefix_length_le [OF p] by simp
    then obtain e where "db (abs_path (rev (c # cs))) = Inl e" using Cons.prems(3) [of "rev (c # cs)"] by auto
    moreover have "entry_above db cs = Some m" using Cons.prems(2,3) by (intro Cons.IH [OF p]) auto
    ultimately show ?thesis by simp
  qed (use Cons.prems in simp)
qed simp

definition db_up :: "dav_env \<Rightarrow> bool" where
  "db_up e \<longleftrightarrow> (\<forall>q x. metaDB e q = Inl x \<longrightarrow> x = RecordNotFound)"

definition cache_ok :: "dav_env \<Rightarrow> dav \<Rightarrow> bool" where
  "cache_ok e st \<longleftrightarrow> meta_coherent (metaDB e) (dcache st)"

lemma nearestMeta_correct:
  assumes "db_up e" "cache_ok e st"
  shows "\<exists>c. nearestMeta e p st = Some (Inr (nearest_entry (metaDB e) p), st\<lparr>dcache := c\<rparr>) \<and> meta_coherent (metaDB e) c"
proof -
  let ?db = "metaDB e" and ?ps = "set (prefixes (path_comps p))"
  obtain res c where r: "GetNearestMeta ?db (dcache st) p = Some (res, c)" "meta_coherent ?db c"
    and cases: "case res of
        Inl err \<Rightarrow> err = MetaNotFound \<and> (\<forall>ds \<in> ?ps. ?db (abs_path ds) = Inl RecordNotFound)
      | Inr m \<Rightarrow> \<exists>ds \<in> ?ps. ?db (abs_path ds) = Inr m \<and> (\<forall>es \<in> ?ps. length ds < length es \<longrightarrow> ?db (abs_path es) = Inl RecordNotFound)"
    using getNearestMeta_comps [of ?db "dcache st" "path_comps p"] assms path_comps_no_backslash
    unfolding GetNearestMeta_def FixAndCleanPath_comps db_up_def cache_ok_def by fastforce
  show ?thesis
  proof (cases res)
    case (Inl err)
    then have "nearest_entry ?db p = None"
      unfolding nearest_entry_def using cases by (intro entry_above_None) auto
    then show ?thesis using r cases Inl by (auto simp: nearestMeta_def)
  next
    case (Inr m)
    then obtain ds where ds: "prefix ds (path_comps p)" "?db (abs_path ds) = Inr m"
        "\<And>es. prefix es (path_comps p) \<Longrightarrow> length ds < length es \<Longrightarrow> ?db (abs_path es) = Inl RecordNotFound"
      using cases by auto
    then have "nearest_entry ?db p = Some m"
      unfolding nearest_entry_def by (intro entry_above_Some [of ds]) auto
    then show ?thesis using r Inr by (auto simp: nearestMeta_def)
  qed
qed

section \<open>Tracking the calls of a handler\<close>

text \<open>\<open>tracks e P V m\<close>: the step \<open>m\<close> returns, makes only calls that satisfy \<open>P\<close>, a value that it passes on satisfies \<open>V\<close>, the
  metadata cache stays right and the lock system is not touched.\<close>

definition tracks :: "dav_env \<Rightarrow> (fs_call \<Rightarrow> bool) \<Rightarrow> ('a \<Rightarrow> bool) \<Rightarrow> 'a dav_m \<Rightarrow> bool" where
  "tracks e P V m \<longleftrightarrow> (\<forall>st. cache_ok e st \<longrightarrow>
     (\<exists>r st' cs. m st = Some (r, st') \<and> cache_ok e st' \<and> dlocks st' = dlocks st \<and>
        dlog st' = dlog st @ cs \<and> (\<forall>c \<in> set cs. P c) \<and> (\<forall>x. r = Inr x \<longrightarrow> V x)))"

lemma tracksE:
  assumes "tracks e P V m" "cache_ok e st"
  obtains r st' cs where "m st = Some (r, st')" "cache_ok e st'" "dlocks st' = dlocks st" "dlog st' = dlog st @ cs"
    "\<forall>c \<in> set cs. P c" "\<forall>x. r = Inr x \<longrightarrow> V x"
  using assms unfolding tracks_def by metis

named_theorems track_rules

lemma tracks_bind [track_rules]:
  assumes "tracks e P V m" "\<And>x. V x \<Longrightarrow> tracks e P W (f x)"
  shows "tracks e P W (dav_bind m f)"
  unfolding tracks_def
proof (intro allI impI)
  fix st assume st: "cache_ok e st"
  obtain r st1 cs where 1: "m st = Some (r, st1)" "cache_ok e st1" "dlocks st1 = dlocks st" "dlog st1 = dlog st @ cs"
      "\<forall>c \<in> set cs. P c" "\<forall>x. r = Inr x \<longrightarrow> V x"
    using assms(1) st by (rule tracksE)
  show "\<exists>r st' cs. dav_bind m f st = Some (r, st') \<and> cache_ok e st' \<and> dlocks st' = dlocks st \<and>
        dlog st' = dlog st @ cs \<and> (\<forall>c \<in> set cs. P c) \<and> (\<forall>x. r = Inr x \<longrightarrow> W x)"
  proof (cases r)
    case (Inl s)
    then have "dav_bind m f st = Some (Inl s, st1)" using 1(1) by (simp add: dav_bind_def)
    then show ?thesis using 1(2-5) by blast
  next
    case (Inr x)
    obtain r2 st2 cs2 where 2: "f x st1 = Some (r2, st2)" "cache_ok e st2" "dlocks st2 = dlocks st1"
        "dlog st2 = dlog st1 @ cs2" "\<forall>c \<in> set cs2. P c" "\<forall>x. r2 = Inr x \<longrightarrow> W x"
      using assms(2) [OF 1(6) [rule_format, OF Inr]] 1(2) by (rule tracksE)
    have "dav_bind m f st = Some (r2, st2)" using 1(1) 2(1) Inr by (simp add: dav_bind_def)
    moreover have "dlog st2 = dlog st @ (cs @ cs2)" "\<forall>c \<in> set (cs @ cs2). P c" "dlocks st2 = dlocks st"
      using 1(3-5) 2(3-5) by auto
    ultimately show ?thesis using 2(2,6) by blast
  qed
qed

lemma tracks_guard [track_rules]: "(b \<Longrightarrow> tracks e P V k) \<Longrightarrow> tracks e P V (guard_else b s k)"
  by (auto simp: guard_else_def tracks_def stop_def)

lemma tracks_stop [track_rules]: "tracks e P V (stop s)"
  by (auto simp: tracks_def stop_def)

lemma tracks_ret [track_rules]: "V x \<Longrightarrow> tracks e P V (ret x)"
  by (auto simp: tracks_def ret_def)

lemma tracks_strip [track_rules]: "tracks e P (\<lambda>q. stripPrefix e p = Inr q) (strip e p)"
  by (auto simp: tracks_def strip_def)

lemma tracks_joinPath [track_rules]: "tracks e P (\<lambda>q. JoinPath (envUser e) p = Inr q) (joinPath e p)"
  by (auto simp: tracks_def joinPath_def ret_def stop_def split: sum.splits)

lemma tracks_fs_get [track_rules]: "tracks e P (\<lambda>_. True) (fs_get e p)"
  by (auto simp: tracks_def fs_get_def)

lemma tracks_findETag [track_rules]: "tracks e P (\<lambda>_. True) (findETag e p)"
  by (auto simp: tracks_def findETag_def)

lemma tracks_fs_do [track_rules]: "P c \<Longrightarrow> tracks e P (\<lambda>_. True) (fs_do e c)"
  by (auto simp: tracks_def fs_do_def cache_ok_def)

lemma tracks_nearestMeta [track_rules]:
  assumes "db_up e" shows "tracks e P (\<lambda>m. m = nearest_entry (metaDB e) p) (nearestMeta e p)"
  unfolding tracks_def
proof (intro allI impI)
  fix st assume "cache_ok e st"
  then show "\<exists>r st' cs. nearestMeta e p st = Some (r, st') \<and> cache_ok e st' \<and> dlocks st' = dlocks st \<and>
        dlog st' = dlog st @ cs \<and> (\<forall>c \<in> set cs. P c) \<and> (\<forall>x. r = Inr x \<longrightarrow> x = nearest_entry (metaDB e) p)"
    using nearestMeta_correct [OF assms, of st p] by (auto simp: cache_ok_def)
qed

lemma tracks_if [track_rules]:
  "(b \<Longrightarrow> tracks e P V m) \<Longrightarrow> (\<not> b \<Longrightarrow> tracks e P V k) \<Longrightarrow> tracks e P V (if b then m else k)"
  by simp

lemma tracks_case_sum [track_rules]:
  "(\<And>a. x = Inl a \<Longrightarrow> tracks e P V (f a)) \<Longrightarrow> (\<And>b. x = Inr b \<Longrightarrow> tracks e P V (g b)) \<Longrightarrow>
     tracks e P V (case x of Inl a \<Rightarrow> f a | Inr b \<Rightarrow> g b)"
  by (cases x) simp_all

section \<open>Locks of a request\<close>

text \<open>The table \<open>L'\<close> is \<open>L\<close> without some locks, all of them expired at some reading of the clock.\<close>

definition thin :: "dav_env \<Rightarrow> (string \<Rightarrow> lock option) \<Rightarrow> (string \<Rightarrow> lock option) \<Rightarrow> bool" where
  "thin e L L' \<longleftrightarrow> (\<forall>x l. L' x = Some l \<longrightarrow> L x = Some l) \<and>
     (\<forall>x l. L x = Some l \<longrightarrow> (\<forall>n. \<not> expired (clock e n) l) \<longrightarrow> L' x = Some l)"

lemma thin_refl [simp]: "thin e L L"
  by (simp add: thin_def)

lemma thin_trans: "thin e L L' \<Longrightarrow> thin e L' L'' \<Longrightarrow> thin e L L''"
  unfolding thin_def by blast

lemma thin_expire [simp]: "thin e L (expire (clock e n) L)"
  by (auto simp: thin_def expire_def split: option.splits if_splits)

lemma expire_idem [simp]: "expire now (expire now L) = expire now L"
  by (rule ext) (simp add: expire_def split: option.splits)

lemma expire_upd: "lexpiry l = None \<Longrightarrow> expire now (M(x \<mapsto> l)) = (expire now M)(x \<mapsto> l)"
  by (rule ext) (simp add: expire_def expired_def)

definition temp_lock :: "(string \<Rightarrow> lock option) \<Rightarrow> string \<Rightarrow> string \<Rightarrow> lock \<Rightarrow> bool" where
  "temp_lock M x tok l \<longleftrightarrow> M x = None \<and> ltoken l = tok \<and> lexpiry l = None \<and> \<not> lheld l \<and> tok \<noteq> [] \<and>
     (\<forall>y l'. M y = Some l' \<longrightarrow> ltoken l' \<noteq> tok)"

lemma temp_created:
  assumes "create_spec now (temp_details root) L (Inr tok) L1"
  shows "\<exists>x l. temp_lock (expire now L) x tok l \<and> L1 = (expire now L)(x \<mapsto> l)"
proof -
  let ?x = "slashClean root" and ?M = "expire now L"
  have place: "can_place ?M ?x True" and new: "tok \<noteq> []" "\<forall>y l. ?M y = Some l \<longrightarrow> ltoken l \<noteq> tok"
      "L1 = ?M(?x \<mapsto> new_lock now tok ((temp_details root)\<lparr>Root := ?x\<rparr>))"
    using assms by (auto simp: create_spec_def temp_details_def Let_def split: if_splits)
  have "?M ?x = None" using place unfolding can_place_def by (cases "?M ?x") auto
  then have "temp_lock ?M ?x tok (new_lock now tok ((temp_details root)\<lparr>Root := ?x\<rparr>))"
    using new by (simp add: temp_lock_def new_lock_def temp_details_def infiniteTimeout_def)
  then show ?thesis using new by blast
qed

lemma temp_refused: "create_spec now det L (Inl err) L1 \<Longrightarrow> err = ErrLocked \<and> L1 = expire now L"
  by (auto simp: create_spec_def Let_def split: if_splits)

lemma temp_unlocked:
  assumes "unlock_spec now tok (M(x \<mapsto> l)) r L'" "temp_lock M x tok l"
  shows "L' = expire now M"
proof -
  let ?M = "expire now M"
  have new: "expire now (M(x \<mapsto> l)) = ?M(x \<mapsto> l)" using assms(2) by (intro expire_upd) (simp add: temp_lock_def)
  have l: "ltoken l = tok" "\<not> lheld l" and x: "?M x = None" using assms(2) by (auto simp: temp_lock_def expire_def)
  have old: "ltoken l' \<noteq> tok" if "?M y = Some l'" for y l'
    using assms(2) expire_Some [OF that] by (auto simp: temp_lock_def)
  have only: "y = x \<and> l' = l" if "(?M(x \<mapsto> l)) y = Some l'" "ltoken l' = tok" for y l'
    using that old by (auto split: if_splits)
  have "L' = (?M(x \<mapsto> l))(x := None)"
    using assms(1) only l unfolding unlock_spec_def new Let_def by (metis fun_upd_same)
  then show ?thesis using x by (simp add: fun_upd_idem_iff)
qed

lemma held_released:
  assumes "confirm_spec now name0 name1 conds L (Inr xs) L1"
  shows "set_held False xs L1 = expire now L"
proof
  fix y
  have L1: "L1 = set_held True xs (expire now L)" and xs: "\<forall>x \<in> xs. \<exists>nam. claimable (expire now L) conds nam x"
    using assms by (auto simp: confirm_spec_def Let_def split: if_splits)
  have "l\<lparr>lheld := False\<rparr> = l" if "y \<in> xs" "expire now L y = Some l" for l
    using xs that by (cases l) (auto simp: claimable_def)
  then show "set_held False xs L1 y = expire now L y"
    by (cases "expire now L y") (auto simp: L1 set_held_def)
qed

lemma confirm_refused: "confirm_spec now name0 name1 conds L (Inl err) L1 \<Longrightarrow> err = ErrConfirmationFailed \<and> L1 = expire now L"
  by (auto simp: confirm_spec_def Let_def split: if_splits)


text \<open>An optional temporary lock, and how it is undone.\<close>

definition opt_lock :: "int \<Rightarrow> string \<Rightarrow> string dav_m" where
  "opt_lock now root = (if root = [] then ret [] else lock_temp now root)"

definition adds :: "int \<Rightarrow> string \<Rightarrow> (string \<Rightarrow> lock option) \<Rightarrow> (string \<Rightarrow> lock option) \<Rightarrow> bool" where
  "adds now tok L L1 \<longleftrightarrow> tok = [] \<and> L1 = L \<or>
     (\<exists>x l. temp_lock (expire now L) x tok l \<and> L1 = (expire now L)(x \<mapsto> l))"

lemma dlocks_id [simp]: "st\<lparr>dlocks := dlocks st\<rparr> = st"
  by simp

lemma opt_lock_correct:
  assumes "lock_ok (dlocks st)" "gen (dlocks st) + 1 < 2 ^ 64"
  shows "\<exists>r m. opt_lock now root st = Some (r, st\<lparr>dlocks := m\<rparr>) \<and> lock_ok m \<and> gen m \<le> gen (dlocks st) + 1 \<and>
    (case r of Inl _ \<Rightarrow> locks m = expire now (locks (dlocks st)) | Inr tok \<Rightarrow> adds now tok (locks (dlocks st)) (locks m))"
proof (cases "root = []")
  case True
  then have "opt_lock now root st = Some (Inr [], st\<lparr>dlocks := dlocks st\<rparr>)" by (simp add: opt_lock_def ret_def)
  then show ?thesis using assms(1) by (intro exI [of _ "Inr []"] exI [of _ "dlocks st"]) (simp add: adds_def)
next
  case False
  obtain r m where c: "Create now (temp_details root) (dlocks st) = Some (r, m)" "lock_ok m" "gen m \<le> gen (dlocks st) + 1"
      "create_spec now (temp_details root) (locks (dlocks st)) r (locks m)"
    using Create_correct [OF assms] by blast
  show ?thesis
  proof (cases r)
    case (Inl err)
    then have "err = ErrLocked" "locks m = expire now (locks (dlocks st))" using c(4) temp_refused by blast+
    then show ?thesis using c(1-3) Inl False
      by (intro exI [of _ "Inl 423"] exI [of _ m]) (auto simp: opt_lock_def lock_temp_def)
  next
    case (Inr tok)
    then show ?thesis using c temp_created [of now root _ tok] False
      by (intro exI [of _ "Inr tok"] exI [of _ m]) (auto simp: opt_lock_def lock_temp_def adds_def)
  qed
qed

lemma undo_correct:
  assumes "lock_ok (dlocks st)" "adds now tok L L1" "locks (dlocks st) = L1 \<or> locks (dlocks st) = expire now L1"
  shows "\<exists>m. unlock_temp now tok st = Some (st\<lparr>dlocks := m\<rparr>) \<and> lock_ok m \<and> (locks m = L \<or> locks m = expire now L)"
proof (cases "tok = []")
  case True
  then have "L1 = L" using assms(2) by (auto simp: adds_def temp_lock_def)
  then show ?thesis using True assms by (intro exI [of _ "dlocks st"]) (simp add: unlock_temp_def)
next
  case False
  then obtain x l where x: "temp_lock (expire now L) x tok l" "L1 = (expire now L)(x \<mapsto> l)"
    using assms(2) by (auto simp: adds_def)
  then have "expire now L1 = L1" using expire_upd [of l now "expire now L" x] by (simp add: temp_lock_def)
  then have tab: "locks (dlocks st) = (expire now L)(x \<mapsto> l)" using assms(3) x(2) by auto
  obtain r m where u: "Unlock now tok (dlocks st) = Some (r, m)" "lock_ok m" "unlock_spec now tok (locks (dlocks st)) r (locks m)"
    using Unlock_correct [OF assms(1)] by blast
  have "locks m = expire now (expire now L)" using u(3) x(1) unfolding tab by (rule temp_unlocked)
  then show ?thesis using u(1,2) False by (intro exI [of _ m]) (simp add: unlock_temp_def)
qed

definition releases :: "dav_env \<Rightarrow> (string \<Rightarrow> lock option) \<Rightarrow> release_fn \<Rightarrow> memLS \<Rightarrow> bool" where
  "releases e L rel m1 \<longleftrightarrow> (\<forall>st. dlocks st = m1 \<longrightarrow>
     (\<exists>m. run_release rel st = Some (st\<lparr>dlocks := m\<rparr>) \<and> lock_ok m \<and> thin e L (locks m)))"

lemma thin_either: "L' = L \<or> L' = expire (clock e n) L \<Longrightarrow> thin e L L'"
  by auto

lemma confirm_temp_correct:
  assumes ok: "lock_ok (dlocks st)" and room: "gen (dlocks st) + 2 < 2 ^ 64"
  shows "\<exists>r m. confirm_temp (clock e n) src dst st = Some (r, st\<lparr>dlocks := m\<rparr>) \<and>
    (case r of Inl _ \<Rightarrow> lock_ok m \<and> thin e (locks (dlocks st)) (locks m) | Inr rel \<Rightarrow> releases e (locks (dlocks st)) rel m)"
proof -
  let ?now = "clock e n" and ?L = "locks (dlocks st)"
  obtain r1 m1 where 1: "opt_lock ?now src st = Some (r1, st\<lparr>dlocks := m1\<rparr>)" "lock_ok m1" "gen m1 \<le> gen (dlocks st) + 1"
      "case r1 of Inl _ \<Rightarrow> locks m1 = expire ?now ?L | Inr tok \<Rightarrow> adds ?now tok ?L (locks m1)"
    using opt_lock_correct [OF ok, of ?now src] room by auto
  have run: "confirm_temp ?now src dst = dav_bind (opt_lock ?now src) (\<lambda>srcToken st.
       (case opt_lock ?now dst st of
          None \<Rightarrow> None
        | Some (Inl status, st) \<Rightarrow> map_option (\<lambda>st. (Inl status, st)) (unlock_temp ?now srcToken st)
        | Some (Inr dstToken, st) \<Rightarrow> Some (Inr (ReleaseTemp ?now srcToken dstToken), st)))"
    by (simp add: confirm_temp_def opt_lock_def)
  show ?thesis
  proof (cases r1)
    case (Inl s)
    then show ?thesis using 1 by (auto simp: run dav_bind_def)
  next
    case (Inr t1)
    then have a1: "adds ?now t1 ?L (locks m1)" using 1(4) by simp
    obtain r2 m2 where 2: "opt_lock ?now dst (st\<lparr>dlocks := m1\<rparr>) = Some (r2, st\<lparr>dlocks := m2\<rparr>)" "lock_ok m2"
        "case r2 of Inl _ \<Rightarrow> locks m2 = expire ?now (locks m1) | Inr tok \<Rightarrow> adds ?now tok (locks m1) (locks m2)"
      using opt_lock_correct [of "st\<lparr>dlocks := m1\<rparr>" ?now dst] 1(2,3) room by (auto cong: sum.case_cong)
    show ?thesis
    proof (cases r2)
      case (Inl s)
      obtain m where "unlock_temp ?now t1 (st\<lparr>dlocks := m2\<rparr>) = Some (st\<lparr>dlocks := m\<rparr>)" "lock_ok m"
          "locks m = ?L \<or> locks m = expire ?now ?L"
        using undo_correct [of "st\<lparr>dlocks := m2\<rparr>", OF _ a1] 2(2,3) Inl by auto
      then show ?thesis using 1(1) 2(1) Inr Inl by (auto simp: run dav_bind_def)
    next
      case r2: (Inr t2)
      then have a2: "adds ?now t2 (locks m1) (locks m2)" using 2(3) by simp
      have "releases e ?L (ReleaseTemp ?now t1 t2) m2"
        unfolding releases_def
      proof (intro allI impI)
        fix s :: dav assume s: "dlocks s = m2"
        obtain m3 where 3: "unlock_temp ?now t2 s = Some (s\<lparr>dlocks := m3\<rparr>)" "lock_ok m3"
            "locks m3 = locks m1 \<or> locks m3 = expire ?now (locks m1)"
          using undo_correct [of s, OF _ a2] 2(2) s by auto
        obtain m4 where 4: "unlock_temp ?now t1 (s\<lparr>dlocks := m3\<rparr>) = Some (s\<lparr>dlocks := m4\<rparr>)" "lock_ok m4"
            "locks m4 = ?L \<or> locks m4 = expire ?now ?L"
          using undo_correct [of "s\<lparr>dlocks := m3\<rparr>", OF _ a1] 3(2,3) by auto
        have "thin e ?L (locks m4)" using 4(3) by (rule thin_either)
        then show "\<exists>m. run_release (ReleaseTemp ?now t1 t2) s = Some (s\<lparr>dlocks := m\<rparr>) \<and> lock_ok m \<and> thin e ?L (locks m)"
          using 3(1) 4(1,2) by (auto simp: run_release_def)
      qed
      then show ?thesis using 1(1) 2(1) Inr r2 by (auto simp: run dav_bind_def)
    qed
  qed
qed

lemma confirm_lists_correct:
  "lock_ok (dlocks st) \<Longrightarrow> \<exists>r m. confirm_lists e rq src dst n ls st = Some (r, st\<lparr>dlocks := m\<rparr>) \<and>
    (case r of Inl _ \<Rightarrow> lock_ok m \<and> thin e (locks (dlocks st)) (locks m) | Inr rel \<Rightarrow> releases e (locks (dlocks st)) rel m)"
proof (induction ls arbitrary: n st)
  case Nil
  then show ?case by (intro exI [of _ "Inl 412"] exI [of _ "dlocks st"]) simp
next
  case (Cons l ls)
  let ?L = "locks (dlocks st)"
  show ?case
  proof (cases "list_source e rq src l")
    case (Source q)
    obtain r m where c: "Confirm (clock e n) q dst (conditions l) (dlocks st) = Some (r, m)" "lock_ok m"
        "\<forall>h. r = Inr h \<longrightarrow> valid_handle m h"
        "confirm_spec (clock e n) q dst (conditions l) ?L (map_sum id (handle_names m) r) (locks m)"
      using Confirm_correct [OF Cons.prems] by blast
    show ?thesis
    proof (cases r)
      case (Inl err)
      then have err: "err = ErrConfirmationFailed" "locks m = expire (clock e n) ?L" using c(4) confirm_refused by auto
      have "lock_ok (dlocks (st\<lparr>dlocks := m\<rparr>))" using c(2) by simp
      from Cons.IH [OF this, of "Suc n"] obtain r2 m2 where
          2: "confirm_lists e rq src dst (Suc n) ls (st\<lparr>dlocks := m\<rparr>) = Some (r2, st\<lparr>dlocks := m2\<rparr>)"
          "case r2 of Inl _ \<Rightarrow> lock_ok m2 \<and> thin e (locks m) (locks m2) | Inr rel \<Rightarrow> releases e (locks m) rel m2"
        by (auto cong: sum.case_cong)
      have "thin e ?L (locks m)" by (simp add: err(2))
      then have "case r2 of Inl _ \<Rightarrow> lock_ok m2 \<and> thin e ?L (locks m2) | Inr rel \<Rightarrow> releases e ?L rel m2"
        using 2(2) thin_trans by (fastforce simp: releases_def split: sum.splits)
      then show ?thesis using c(1) Source Inl err(1) 2(1) by auto
    next
      case (Inr h)
      have "releases e ?L (ReleaseHeld h) m"
        unfolding releases_def
      proof (intro allI impI)
        fix s :: dav assume s: "dlocks s = m"
        obtain m2 where m2: "release h m = Some m2" "lock_ok m2" "locks m2 = set_held False (handle_names m h) (locks m)"
          using release_correct [OF c(2)] c(3) Inr by blast
        have "locks m2 = expire (clock e n) ?L" using held_released c(4) Inr unfolding m2(3) by (metis map_sum.simps(2))
        then show "\<exists>m'. run_release (ReleaseHeld h) s = Some (s\<lparr>dlocks := m'\<rparr>) \<and> lock_ok m' \<and> thin e ?L (locks m')"
          using m2 s by (intro exI [of _ m2]) (simp add: run_release_def)
      qed
      then show ?thesis using c(1) Source Inr by auto
    qed
  next
    case SkipList
    then show ?thesis using Cons.IH [OF Cons.prems, of n] by simp
  next
    case (SourceError s)
    then show ?thesis using Cons.prems by (intro exI [of _ "Inl s"] exI [of _ "dlocks st"]) simp
  qed
qed

lemma confirmLocks_correct:
  assumes "lock_ok (dlocks st)" "gen (dlocks st) + 2 < 2 ^ 64"
  shows "\<exists>r m. confirmLocks e rq src dst st = Some (r, st\<lparr>dlocks := m\<rparr>) \<and>
    (case r of Inl _ \<Rightarrow> lock_ok m \<and> thin e (locks (dlocks st)) (locks m) | Inr rel \<Rightarrow> releases e (locks (dlocks st)) rel m)"
proof (cases "HdrIf rq = []")
  case True
  then show ?thesis using confirm_temp_correct [OF assms] by (simp add: confirmLocks_def)
next
  case False
  show ?thesis
  proof (cases "parseIfHeader (HdrIf rq)")
    case None
    then show ?thesis using False assms(1)
      by (intro exI [of _ "Inl 400"] exI [of _ "dlocks st"]) (simp add: confirmLocks_def stop_def)
  next
    case (Some h)
    then show ?thesis using False confirm_lists_correct [OF assms(1)] by (simp add: confirmLocks_def)
  qed
qed


definition lock_change :: "dav_env \<Rightarrow> memLS \<Rightarrow> memLS \<Rightarrow> bool" where
  "lock_change e m m' \<longleftrightarrow> lock_ok m' \<and> thin e (locks m) (locks m')"

text \<open>\<open>serves e P m\<close>: as \<open>tracks\<close>, for a handler that takes and gives back its own locks.\<close>

definition serves :: "dav_env \<Rightarrow> (fs_call \<Rightarrow> bool) \<Rightarrow> int dav_m \<Rightarrow> bool" where
  "serves e P m \<longleftrightarrow> (\<forall>st. cache_ok e st \<longrightarrow> lock_ok (dlocks st) \<longrightarrow> gen (dlocks st) + 2 < 2 ^ 64 \<longrightarrow>
     (\<exists>r st' cs. m st = Some (r, st') \<and> cache_ok e st' \<and> lock_change e (dlocks st) (dlocks st') \<and>
        dlog st' = dlog st @ cs \<and> (\<forall>c \<in> set cs. P c)))"

named_theorems serve_rules

lemma serves_stop [serve_rules]: "serves e P (stop s)"
  by (auto simp: serves_def stop_def lock_change_def)

lemma serves_guard [serve_rules]: "(b \<Longrightarrow> serves e P k) \<Longrightarrow> serves e P (guard_else b s k)"
  using serves_stop by (simp add: guard_else_def)

lemma serves_bind [serve_rules]:
  assumes "tracks e P V m" "\<And>x. V x \<Longrightarrow> serves e P (f x)"
  shows "serves e P (dav_bind m f)"
  unfolding serves_def
proof (intro allI impI)
  fix st assume st: "cache_ok e st" "lock_ok (dlocks st)" "gen (dlocks st) + 2 < 2 ^ 64"
  obtain r st1 cs where 1: "m st = Some (r, st1)" "cache_ok e st1" "dlocks st1 = dlocks st" "dlog st1 = dlog st @ cs"
      "\<forall>c \<in> set cs. P c" "\<forall>x. r = Inr x \<longrightarrow> V x"
    using assms(1) st(1) by (rule tracksE)
  show "\<exists>r st' cs. dav_bind m f st = Some (r, st') \<and> cache_ok e st' \<and> lock_change e (dlocks st) (dlocks st') \<and>
        dlog st' = dlog st @ cs \<and> (\<forall>c \<in> set cs. P c)"
  proof (cases r)
    case (Inl s)
    then have "dav_bind m f st = Some (Inl s, st1)" using 1(1) by (simp add: dav_bind_def)
    moreover have "lock_change e (dlocks st) (dlocks st1)" using 1(3) st(2) by (simp add: lock_change_def)
    ultimately show ?thesis using 1(2,4,5) by blast
  next
    case (Inr x)
    obtain r2 st2 cs2 where 2: "f x st1 = Some (r2, st2)" "cache_ok e st2" "lock_change e (dlocks st) (dlocks st2)"
        "dlog st2 = dlog st1 @ cs2" "\<forall>c \<in> set cs2. P c"
      using assms(2) [OF 1(6) [rule_format, OF Inr]] 1(2,3) st(2,3) unfolding serves_def by metis
    have "dav_bind m f st = Some (r2, st2)" using 1(1) 2(1) Inr by (simp add: dav_bind_def)
    moreover have "dlog st2 = dlog st @ (cs @ cs2)" "\<forall>c \<in> set (cs @ cs2). P c" using 1(4,5) 2(4,5) by auto
    ultimately show ?thesis using 2(2,3) by blast
  qed
qed

lemma serves_if [serve_rules]: "(b \<Longrightarrow> serves e P m) \<Longrightarrow> (\<not> b \<Longrightarrow> serves e P k) \<Longrightarrow> serves e P (if b then m else k)"
  by simp

lemma serves_with_locks [serve_rules]:
  assumes "tracks e P (\<lambda>_. True) body" shows "serves e P (with_locks e rq src dst body)"
  unfolding serves_def
proof (intro allI impI)
  fix st assume c: "cache_ok e st" and l: "lock_ok (dlocks st)" "gen (dlocks st) + 2 < 2 ^ 64"
  obtain r m where 1: "confirmLocks e rq src dst st = Some (r, st\<lparr>dlocks := m\<rparr>)"
      "case r of Inl _ \<Rightarrow> lock_ok m \<and> thin e (locks (dlocks st)) (locks m) | Inr rel \<Rightarrow> releases e (locks (dlocks st)) rel m"
    using confirmLocks_correct [OF l] by blast
  have c1: "cache_ok e (st\<lparr>dlocks := m\<rparr>)" using c by (simp add: cache_ok_def)
  show "\<exists>r st' cs. with_locks e rq src dst body st = Some (r, st') \<and> cache_ok e st' \<and> lock_change e (dlocks st) (dlocks st') \<and>
        dlog st' = dlog st @ cs \<and> (\<forall>c \<in> set cs. P c)"
  proof (cases r)
    case (Inl s)
    then have "with_locks e rq src dst body st = Some (Inl s, st\<lparr>dlocks := m\<rparr>)"
      using 1(1) by (simp add: with_locks_def dav_bind_def)
    then show ?thesis using 1(2) Inl c1 by (auto simp: lock_change_def)
  next
    case (Inr rel)
    obtain r2 st2 cs where 2: "body (st\<lparr>dlocks := m\<rparr>) = Some (r2, st2)" "cache_ok e st2" "dlocks st2 = m"
        "dlog st2 = dlog st @ cs" "\<forall>c \<in> set cs. P c"
      by (rule tracksE [OF assms c1]) auto
    obtain m3 where 3: "run_release rel st2 = Some (st2\<lparr>dlocks := m3\<rparr>)" "lock_ok m3" "thin e (locks (dlocks st)) (locks m3)"
      using 1(2) Inr 2(3) by (auto simp: releases_def)
    have "with_locks e rq src dst body st = Some (r2, st2\<lparr>dlocks := m3\<rparr>)"
      using 1(1) Inr 2(1) 3(1) by (simp add: with_locks_def dav_bind_def)
    then show ?thesis using 2 3 by (auto simp: lock_change_def cache_ok_def)
  qed
qed

section \<open>The calls that are allowed\<close>

definition may_write :: "dav_env \<Rightarrow> string \<Rightarrow> bool" where
  "may_write e d \<longleftrightarrow> CanWrite (Some (envUser e)) (nearest_entry (metaDB e) d) d"

definition may_read :: "dav_env \<Rightarrow> string \<Rightarrow> bool" where
  "may_read e d \<longleftrightarrow> CanRead (Some (envUser e)) (nearest_entry (metaDB e) d) d"

definition may_add :: "dav_env \<Rightarrow> string \<Rightarrow> bool" where
  "may_add e d \<longleftrightarrow> may_write e d \<and>
     (CanWriteContent (Permission (envUser e)) \<or> CanWriteContentBypassUserPerms (nearest_entry (metaDB e) d) d)"

text \<open>The user has the permission bit of a call.\<close>

fun has_permission :: "dav_env \<Rightarrow> fs_call \<Rightarrow> bool" where
  "has_permission e (FsRemove p) \<longleftrightarrow> CanRemove (Permission (envUser e))"
| "has_permission e (FsMakeDir p) \<longleftrightarrow> True"
| "has_permission e (FsPutDirectly d nam sz) \<longleftrightarrow> True"
| "has_permission e (FsRename p nam) \<longleftrightarrow> nam = path_base p \<or> CanRename (Permission (envUser e))"
| "has_permission e (FsMove p d) \<longleftrightarrow> CanMove (Permission (envUser e))"
| "has_permission e (FsCopy p d) \<longleftrightarrow> CanCopy (Permission (envUser e))"

text \<open>The metadata nearest to each folder whose content is read or changed grants that; adding content needs in addition the
  permission bit for it or an entry that gives everyone that right.\<close>

fun meta_grants :: "dav_env \<Rightarrow> fs_call \<Rightarrow> bool" where
  "meta_grants e (FsRemove p) \<longleftrightarrow> may_write e (path_dir p)"
| "meta_grants e (FsMakeDir p) \<longleftrightarrow> may_add e (path_dir p)"
| "meta_grants e (FsPutDirectly d nam sz) \<longleftrightarrow> may_add e d"
| "meta_grants e (FsRename p nam) \<longleftrightarrow> may_write e (path_dir p)"
| "meta_grants e (FsMove p d) \<longleftrightarrow> may_write e (path_dir p) \<and> may_write e d"
| "meta_grants e (FsCopy p d) \<longleftrightarrow> may_read e (path_dir p) \<and> may_write e d"

text \<open>Objects lie strictly below the base path, folders that get content are the base path or below it, and a new name is one
  component.\<close>

definition below_base :: "dav_env \<Rightarrow> string \<Rightarrow> bool" where
  "below_base e p \<longleftrightarrow> prefix (path_comps (BasePath (envUser e))) (path_comps p)"

definition inside_base :: "dav_env \<Rightarrow> string \<Rightarrow> bool" where
  "inside_base e p \<longleftrightarrow> strict_prefix (path_comps (BasePath (envUser e))) (path_comps p)"

fun confined :: "dav_env \<Rightarrow> fs_call \<Rightarrow> bool" where
  "confined e (FsRemove p) \<longleftrightarrow> inside_base e p"
| "confined e (FsMakeDir p) \<longleftrightarrow> inside_base e p"
| "confined e (FsPutDirectly d nam sz) \<longleftrightarrow> below_base e d \<and> good_comp nam"
| "confined e (FsRename p nam) \<longleftrightarrow> inside_base e p \<and> good_comp nam"
| "confined e (FsMove p d) \<longleftrightarrow> inside_base e p \<and> below_base e d"
| "confined e (FsCopy p d) \<longleftrightarrow> inside_base e p \<and> below_base e d"

text \<open>The request names the base path itself, by its URL or by the destination of a copy or move.\<close>

definition joins_to_base :: "dav_env \<Rightarrow> string \<Rightarrow> bool" where
  "joins_to_base e p \<longleftrightarrow>
     (case stripPrefix e p of Inl _ \<Rightarrow> False | Inr q \<Rightarrow>
        (case JoinPath (envUser e) q of Inl _ \<Rightarrow> False | Inr j \<Rightarrow> path_comps j = path_comps (BasePath (envUser e))))"

definition names_base :: "dav_env \<Rightarrow> Request \<Rightarrow> bool" where
  "names_base e r \<longleftrightarrow> joins_to_base e (UrlPath r) \<or>
     (Method r = ''COPY'' \<or> Method r = ''MOVE'') \<and>
       (case urlParse e (Destination r) of None \<Rightarrow> False | Some (host, p) \<Rightarrow> joins_to_base e p)"

definition call_allowed :: "dav_env \<Rightarrow> Request \<Rightarrow> fs_call \<Rightarrow> bool" where
  "call_allowed e r c \<longleftrightarrow> has_permission e c \<and> (names_base e r \<or> meta_grants e c \<and> confined e c)"

text \<open>A path that the request names, joined to the base path.\<close>

definition target :: "dav_env \<Rightarrow> Request \<Rightarrow> string \<Rightarrow> bool" where
  "target e r q \<longleftrightarrow> names_base e r \<or> inside_base e q \<and> q = abs_path (path_comps q)"

lemma joined_target:
  assumes "stripPrefix e p = Inr p'" "JoinPath (envUser e) p' = Inr q" "\<not> joins_to_base e p"
  shows "inside_base e q \<and> q = abs_path (path_comps q)"
proof -
  have q: "q = abs_path (path_comps (BasePath (envUser e)) @ path_comps p')"
    using assms(2) unfolding JoinPath_def by (rule JoinBasePath_comps)
  then have "path_comps q = path_comps (BasePath (envUser e)) @ path_comps p'" by (simp add: path_comps_append_path)
  then show ?thesis using assms q by (auto simp: joins_to_base_def inside_base_def strict_prefix_def)
qed

lemma target_url: "stripPrefix e (UrlPath r) = Inr p \<Longrightarrow> JoinPath (envUser e) p = Inr q \<Longrightarrow> target e r q"
  using joined_target [of e "UrlPath r" p q] by (auto simp: target_def names_base_def)

lemma target_destination:
  "Method r = ''COPY'' \<or> Method r = ''MOVE'' \<Longrightarrow> urlParse e (Destination r) = Some (host, p') \<Longrightarrow>
     stripPrefix e p' = Inr p \<Longrightarrow> JoinPath (envUser e) p = Inr q \<Longrightarrow> target e r q"
  using joined_target [of e p' p q] by (auto simp: target_def names_base_def)

lemma targetE:
  assumes "target e r q" "\<not> names_base e r"
  obtains cs c where "q = abs_path (cs @ [c])" "good_comps cs" "good_comp c" "path_comps q = cs @ [c]"
    "path_dir q = abs_path cs" "path_base q = c" "path_comps (abs_path cs) = cs" "prefix (path_comps (BasePath (envUser e))) cs"
proof -
  have q: "q = abs_path (path_comps q)" "strict_prefix (path_comps (BasePath (envUser e))) (path_comps q)"
    using assms by (simp_all add: target_def inside_base_def)
  obtain cs c where cs: "path_comps q = cs @ [c]" using q(2) by (cases "path_comps q" rule: rev_cases) auto
  have good: "good_comps cs" "good_comp c" using path_comps_good [of q] by (simp_all add: cs)
  have "path_comps (abs_path cs) = cs"
    by (rule path_comps_abs_path [OF good(1)]) (use path_comps_no_backslash [of _ q] in \<open>auto simp: cs\<close>)
  then show thesis
    using q good cs path_dir_abs_snoc [OF good] path_base_abs_snoc [OF good(2), of cs]
    by (intro that [of cs c]) (auto simp: strict_prefix_def)
qed

lemma target_confined:
  assumes "target e r q" "\<not> names_base e r"
  shows "inside_base e q" "below_base e (path_dir q)" "good_comp (path_base q)"
proof -
  obtain cs c where "good_comp c" "path_dir q = abs_path cs" "path_base q = c" "path_comps (abs_path cs) = cs"
      "prefix (path_comps (BasePath (envUser e))) cs"
    using targetE [OF assms] by metis
  then show "inside_base e q" "below_base e (path_dir q)" "good_comp (path_base q)"
    using assms by (simp_all add: target_def below_base_def)
qed

lemma moved_target:
  assumes "target e r src" "target e r dst" "\<not> names_base e r"
  shows "inside_base e (path_join [path_dir dst, path_base src])" "path_dir (path_join [path_dir dst, path_base src]) = path_dir dst"
proof -
  obtain ds d where d: "good_comps ds" "path_dir dst = abs_path ds" "path_comps (abs_path ds) = ds"
      "prefix (path_comps (BasePath (envUser e))) ds"
    using targetE [OF assms(2,3)] by metis
  obtain cs c where c: "good_comp c" "path_base src = c" "path_comps src = cs @ [c]" using targetE [OF assms(1,3)] by metis
  have join: "path_join [path_dir dst, path_base src] = abs_path (ds @ [c])" using d c by (simp add: path_join_comp)
  have "CHR 0x5C \<notin> set x" if "x \<in> set (ds @ [c])" for x
    using that path_comps_no_backslash [of x "abs_path ds"] path_comps_no_backslash [of x src] d(3) c(3) by auto
  then have "path_comps (abs_path (ds @ [c])) = ds @ [c]" using d(1) c(1) by (intro path_comps_abs_path) auto
  then show "inside_base e (path_join [path_dir dst, path_base src])"
    using d(4) unfolding join inside_base_def by (auto simp: strict_prefix_def dest: prefix_length_le)
  show "path_dir (path_join [path_dir dst, path_base src]) = path_dir dst"
    unfolding join unfolding d(2) by (rule path_dir_abs_snoc [OF d(1) c(1)])
qed

lemma call_allowed_rules:
  "target e r p \<Longrightarrow> m = nearest_entry (metaDB e) (path_dir p) \<Longrightarrow> CanWrite (Some (envUser e)) m (path_dir p) \<Longrightarrow>
     CanRemove (Permission (envUser e)) \<Longrightarrow> call_allowed e r (FsRemove p)"
  "target e r p \<Longrightarrow> may_add e (path_dir p) \<Longrightarrow> call_allowed e r (FsMakeDir p)"
  "target e r p \<Longrightarrow> may_add e (path_dir p) \<Longrightarrow> call_allowed e r (FsPutDirectly (path_dir p) (path_base p) sz)"
  using target_confined [of e r p] by (auto simp: call_allowed_def may_write_def)

lemma call_allowed_rename:
  "target e r src \<Longrightarrow> target e r dst \<Longrightarrow> may_write e (path_dir src) \<Longrightarrow>
     path_base src = path_base dst \<or> CanRename (Permission (envUser e)) \<Longrightarrow> call_allowed e r (FsRename src (path_base dst))"
  "target e r src \<Longrightarrow> target e r dst \<Longrightarrow> may_write e (path_dir dst) \<Longrightarrow> CanRename (Permission (envUser e)) \<Longrightarrow>
     call_allowed e r (FsRename (path_join [path_dir dst, path_base src]) (path_base dst))"
  using target_confined [of e r src] target_confined [of e r dst] moved_target [of e r src dst]
  by (auto simp: call_allowed_def)

lemma call_allowed_transfer:
  "target e r src \<Longrightarrow> target e r dst \<Longrightarrow> may_write e (path_dir src) \<Longrightarrow> may_write e (path_dir dst) \<Longrightarrow>
     CanMove (Permission (envUser e)) \<Longrightarrow> call_allowed e r (FsMove src (path_dir dst))"
  "target e r src \<Longrightarrow> target e r dst \<Longrightarrow> may_read e (path_dir src) \<Longrightarrow> may_write e (path_dir dst) \<Longrightarrow>
     CanCopy (Permission (envUser e)) \<Longrightarrow> call_allowed e r (FsCopy src (path_dir dst))"
  using target_confined [of e r src] target_confined [of e r dst] by (auto simp: call_allowed_def)

lemma tracks_moveFiles:
  assumes "db_up e" "target e r src" "target e r dst"
  shows "tracks e (call_allowed e r) (\<lambda>_. True) (moveFiles e src dst)"
  unfolding moveFiles_def Let_def
  by (rule track_rules assms(1) TrueI |
      (use call_allowed_rename [OF assms(2,3)] call_allowed_transfer(1) [OF assms(2,3)] in \<open>simp add: may_write_def; fail\<close>))+

lemma tracks_copyFiles:
  assumes "db_up e" "target e r src" "target e r dst"
  shows "tracks e (call_allowed e r) (\<lambda>_. True) (copyFiles e src dst)"
  unfolding copyFiles_def Let_def
  by (rule track_rules assms(1) TrueI |
      (use call_allowed_transfer(2) [OF assms(2,3)] in \<open>simp add: may_write_def may_read_def; fail\<close>))+

lemma tracks_write_guards [track_rules]:
  assumes "meta = nearest_entry (metaDB e) d" "may_add e d \<Longrightarrow> tracks e P V k"
  shows "tracks e P V (write_guards e meta d k)"
  unfolding write_guards_def using assms
  by (intro tracks_guard) (auto simp: may_add_def may_write_def)

lemmas handler_rules = serve_rules track_rules call_allowed_rules TrueI

lemma serves_handleDelete:
  assumes "db_up e" shows "serves e (call_allowed e r) (handleDelete e r)"
  unfolding handleDelete_def delete_locked_def
  by (rule handler_rules assms | assumption | (rule target_url, assumption, assumption))+

lemma serves_handlePut:
  assumes "db_up e" shows "serves e (call_allowed e r) (handlePut e r)"
  unfolding handlePut_def Let_def
  by (rule handler_rules assms | assumption | (rule target_url, assumption, assumption))+

lemma serves_handleMkcol:
  assumes "db_up e" shows "serves e (call_allowed e r) (handleMkcol e r)"
  unfolding handleMkcol_def Let_def
  by (rule handler_rules assms | assumption | (rule target_url, assumption, assumption))+

lemma serves_handleProppatch:
  assumes "db_up e" shows "serves e (call_allowed e r) (handleProppatch e r)"
  unfolding handleProppatch_def
  by (rule serve_rules track_rules TrueI assms)+

lemma serves_handleCopyMove:
  assumes "db_up e" "Method r = ''COPY'' \<or> Method r = ''MOVE''" shows "serves e (call_allowed e r) (handleCopyMove e r)"
proof (cases "urlParse e (Destination r)")
  case (Some hp)
  obtain host p where hp: "hp = (host, p)" by (cases hp)
  note dest = target_destination [OF assms(2) Some [unfolded hp]]
  show ?thesis
    unfolding handleCopyMove_def Some hp option.case prod.case
    by (rule serve_rules track_rules tracks_moveFiles tracks_copyFiles TrueI assms(1) | assumption |
        (rule target_url, assumption, assumption) | (rule dest, assumption, assumption))+
qed (simp add: handleCopyMove_def serves_guard serves_stop)

definition write_methods :: "string set" where
  "write_methods = {''DELETE'', ''PUT'', ''MKCOL'', ''COPY'', ''MOVE'', ''PROPPATCH''}"

lemma serves_write:
  assumes "db_up e" "Method r \<in> write_methods" shows "serves e (call_allowed e r) (serve_write e r)"
  using assms(2) serves_handleDelete [OF assms(1), of r] serves_handlePut [OF assms(1), of r] serves_handleMkcol [OF assms(1), of r]
    serves_handleCopyMove [OF assms(1), of r] serves_handleProppatch [OF assms(1), of r]
  by (auto simp: serve_write_def write_methods_def)

lemma reachable_locks: "lock_step\<^sup>*\<^sup>* (NewMemLS t, []) (m, hs) \<Longrightarrow> lock_ok m"
  using run_ok_reachable by (fastforce simp: run_ok_def)

lemma serve_write_result:
  assumes "db_up e" "cache_ok e st" "lock_step\<^sup>*\<^sup>* (NewMemLS t, []) (dlocks st, hs)" "gen (dlocks st) + 2 < 2 ^ 64"
    "Method r \<in> write_methods"
  obtains res st' cs where "serve_write e r st = Some (res, st')" "lock_change e (dlocks st) (dlocks st')"
    "dlog st' = dlog st @ cs" "\<forall>c \<in> set cs. call_allowed e r c"
  using serves_write [OF assms(1,5)] assms(2,4) reachable_locks [OF assms(3)] unfolding serves_def by metis

section \<open>Properties\<close>


text \<open>What the exception allows: a destination that joins to the base path itself, unless that is the root, makes a copy go into the
  folder above, outside of the base path.\<close>

theorem copy_to_base_escapes:
  assumes "db_up e" "cache_ok e st" "CanCopy (Permission (envUser e))" "may_read e (path_dir src)" "may_write e (path_dir dst)"
    and base: "dst = abs_path (path_comps (BasePath (envUser e)))" "path_comps (BasePath (envUser e)) \<noteq> []"
    and fs: "fsDo e (dlog st) (FsCopy src (path_dir dst)) = None"
  shows "(\<exists>st'. copyFiles e src dst st = Some (Inr 201, st') \<and> dlog st' = dlog st @ [FsCopy src (path_dir dst)]) \<and>
    \<not> below_base e (path_dir dst)"
proof
  obtain c1 where c1: "nearestMeta e (path_dir src) st = Some (Inr (nearest_entry (metaDB e) (path_dir src)), st\<lparr>dcache := c1\<rparr>)"
      "cache_ok e (st\<lparr>dcache := c1\<rparr>)"
    using nearestMeta_correct [OF assms(1,2), of "path_dir src"] by (auto simp: cache_ok_def)
  obtain c2 where c2: "nearestMeta e (path_dir dst) (st\<lparr>dcache := c1\<rparr>) =
      Some (Inr (nearest_entry (metaDB e) (path_dir dst)), (st\<lparr>dcache := c1\<rparr>)\<lparr>dcache := c2\<rparr>)"
    using nearestMeta_correct [OF assms(1) c1(2), of "path_dir dst"] by blast
  show "\<exists>st'. copyFiles e src dst st = Some (Inr 201, st') \<and> dlog st' = dlog st @ [FsCopy src (path_dir dst)]"
    using c1(1) c2 assms(3-5) fs
    by (simp add: copyFiles_def guard_else_def dav_bind_def fs_do_def ret_def may_write_def may_read_def Let_def)
  obtain cs c where cs: "path_comps (BasePath (envUser e)) = cs @ [c]" using base(2) by (cases _ rule: rev_cases) auto
  have good: "good_comps cs" "good_comp c" using path_comps_good [of "BasePath (envUser e)"] by (simp_all add: cs)
  have "path_comps (abs_path cs) = cs"
    by (rule path_comps_abs_path [OF good(1)]) (use path_comps_no_backslash [of _ "BasePath (envUser e)"] in \<open>auto simp: cs\<close>)
  then show "\<not> below_base e (path_dir dst)"
    unfolding base(1) cs path_dir_abs_snoc [OF good] below_base_def using prefix_length_le by fastforce
qed

text \<open>C15 (locks given back): while the metadata database answers, a write request leaves the lock table as it was: its temporary locks are removed, the
  locks it confirmed are released, and only locks whose time has run out are missing.\<close>

theorem webdav_locks_given_back:
  assumes "db_up e" "cache_ok e st" "lock_step\<^sup>*\<^sup>* (NewMemLS t, []) (dlocks st, hs)" "gen (dlocks st) + 2 < 2 ^ 64"
    and "Method r \<in> write_methods" "serve_write e r st = Some (res, st')"
  shows "(\<forall>x l. locks (dlocks st') x = Some l \<longrightarrow> locks (dlocks st) x = Some l) \<and>
    (\<forall>x l. locks (dlocks st) x = Some l \<longrightarrow> (\<forall>n. \<not> expired (clock e n) l) \<longrightarrow> locks (dlocks st') x = Some l)"
proof -
  obtain res2 st2 where 2: "serve_write e r st = Some (res2, st2)" "lock_change e (dlocks st) (dlocks st2)"
    by (rule serve_write_result [OF assms(1-5)])
  then have "st2 = st'" using assms(6) by simp
  then have "thin e (locks (dlocks st)) (locks (dlocks st'))" using 2(2) by (simp add: lock_change_def)
  then show ?thesis unfolding thin_def .
qed

section \<open>Locks below a base path\<close>

text \<open>C37 (locks of users with a base path; the metadata database answers): \<open>DELETE\<close> tests the locks at the path of the request, but locks are
  created at the path joined to the user's base path. A resource whose lock has not run out is removed
  without its token, unless a lock happens to cover the unjoined path; the lock stays in the table.\<close>

theorem delete_ignores_lock:
  assumes "db_up e" "cache_ok e st" "lock_step\<^sup>*\<^sup>* (NewMemLS t, []) (dlocks st, hs)" "gen (dlocks st) + 2 < 2 ^ 64"
    and "Method r = ''DELETE''" "HdrIf r = []" "stripPrefix e (UrlPath r) = Inr p" "p \<noteq> []" "JoinPath (envUser e) p = Inr q"
    and locked: "locks (dlocks st) q = Some l" "\<forall>n. \<not> expired (clock e n) l"
    and other: "\<forall>x l. locks (dlocks st) x = Some l \<longrightarrow> \<not> covers l x (slashClean p)"
    and may: "CanRemove (Permission (envUser e))" "may_write e (path_dir q)"
    and fs: "fsGet e (dlog st) q = Inr isDir" "fsDo e (dlog st) (FsRemove q) = None"
  shows "\<exists>st'. serve_write e r st = Some (Inr 204, st') \<and> dlog st' = dlog st @ [FsRemove q] \<and> locks (dlocks st') q = Some l"
proof -
  let ?now = "clock e 0" and ?m = "dlocks st"
  have ok: "lock_ok ?m" by (rule reachable_locks [OF assms(3)])
  obtain x m where c: "Create ?now (temp_details p) ?m = Some (x, m)" "create_spec ?now (temp_details p) (locks ?m) x (locks m)"
    using Create_correct [OF ok, of ?now "temp_details p"] assms(4) by auto
  have "can_place (expire ?now (locks ?m)) (slashClean p) True"
    using other expire_Some unfolding can_place_def by (metis covers_def)
  then obtain tok where tok: "x = Inr tok" using c(2) by (auto simp: create_spec_def temp_details_def Let_def)
  obtain k where k: "nearestMeta e (path_dir q) (st\<lparr>dlocks := m\<rparr>) =
      Some (Inr (nearest_entry (metaDB e) (path_dir q)), (st\<lparr>dlocks := m\<rparr>)\<lparr>dcache := k\<rparr>)"
    using nearestMeta_correct [OF assms(1), of "st\<lparr>dlocks := m\<rparr>" "path_dir q"] assms(2) by (auto simp: cache_ok_def)
  have body: "delete_locked e p (st\<lparr>dlocks := m\<rparr>) = Some (Inr 204, (st\<lparr>dlocks := m\<rparr>)\<lparr>dcache := k, dlog := dlog st @ [FsRemove q]\<rparr>)"
    using k may fs assms(9)
    by (simp add: delete_locked_def guard_else_def dav_bind_def joinPath_def fs_get_def fs_do_def ret_def may_write_def)
  have run: "serve_write e r st = with_locks e r p [] (delete_locked e p) st"
    using assms(5,7) by (simp add: serve_write_def handleDelete_def dav_bind_def strip_def)
  have conf: "confirmLocks e r p [] st = Some (Inr (ReleaseTemp ?now tok []), st\<lparr>dlocks := m\<rparr>)"
    using c(1) tok assms(6,8) by (simp add: confirmLocks_def confirm_temp_def lock_temp_def dav_bind_def ret_def)
  obtain res st' where fin: "serve_write e r st = Some (res, st')" "lock_change e ?m (dlocks st')"
    by (rule serve_write_result [OF assms(1-4), of r]) (simp add: write_methods_def assms(5))
  have "res = Inr 204" "dlog st' = dlog st @ [FsRemove q]"
    using fin(1) unfolding run by (auto simp: with_locks_def dav_bind_def conf body run_release_def unlock_temp_def split: if_splits)
  moreover have "locks (dlocks st') q = Some l"
    using fin(2) locked unfolding lock_change_def thin_def by blast
  ultimately show ?thesis using fin(1) by blast
qed


section \<open>Sample requests\<close>

definition sample_env :: dav_env where
  "sample_env = \<lparr>Prefix = ''/dav'', envUser = example_user\<lparr>BasePath := ''/home'', Permission := 0xFFFF\<rparr>, clock = (\<lambda>_. 0),
     metaDB = (\<lambda>_. Inl RecordNotFound), urlParse = (\<lambda>_. None), fsGet = (\<lambda>_ _. Inr False), fsDo = (\<lambda>_ _. None),
     etagFails = (\<lambda>_ _. False), ignoreSystemFiles = False\<rparr>"

definition sample_request :: Request where
  "sample_request = \<lparr>Method = ''DELETE'', UrlPath = ''/dav/f'', Host = [], HdrIf = [], Destination = [], Depth = [], Overwrite = [],
     Timeout = [], LockToken = [], ContentLength = 0, XFileSize = [], LockBody = LockRefresh, PatchStatus = 0\<rparr>"

text \<open>The state after a user with base path \<open>/home\<close> has locked \<open>/dav/f\<close>.\<close>

definition home_details :: LockDetails where
  "home_details = \<lparr>Root = ''/home/f'', Duration = infiniteTimeout, OwnerXML = [], ZeroDepth = True\<rparr>"

definition sample_dav :: dav where
  "sample_dav = \<lparr>dlocks = (case Create 0 home_details (NewMemLS 0) of Some (_, m) \<Rightarrow> m), dcache = Map.empty, dlog = []\<rparr>"

lemma locks_NewMemLS: "locks (NewMemLS t) = Map.empty"
  by (rule ext) (simp add: locks_def node_def NewMemLS_def)

lemma sample_dav:
  "lock_step\<^sup>*\<^sup>* (NewMemLS 0, []) (dlocks sample_dav, [])" "gen (dlocks sample_dav) + 2 < 2 ^ 64" "cache_ok sample_env sample_dav"
  "db_up sample_env" "\<exists>tok. locks (dlocks sample_dav) = [''/home/f'' \<mapsto> new_lock 0 tok home_details]" "dlog sample_dav = []"
proof -
  have new: "gen (NewMemLS 0) + 1 < 2 ^ 64" by (simp add: NewMemLS_def)
  obtain r m where c: "Create 0 home_details (NewMemLS 0) = Some (r, m)" "gen m \<le> gen (NewMemLS 0) + 1"
      "create_spec 0 home_details Map.empty r (locks m)"
    using Create_correct [OF lock_ok_NewMemLS new] unfolding locks_NewMemLS by metis
  have dl: "dlocks sample_dav = m" by (simp add: sample_dav_def c(1))
  have "lock_step (NewMemLS 0, []) (m, [])" by (rule lock_step.create [OF new c(1)])
  then show "lock_step\<^sup>*\<^sup>* (NewMemLS 0, []) (dlocks sample_dav, [])" unfolding dl by (rule r_into_rtranclp)
  show "gen (dlocks sample_dav) + 2 < 2 ^ 64" using c(2) unfolding dl by (simp add: NewMemLS_def)
  have x: "slashClean (Root home_details) = ''/home/f''" by code_simp
  have "expire 0 Map.empty = Map.empty" by (rule ext) (simp add: expire_def)
  then show "\<exists>tok. locks (dlocks sample_dav) = [''/home/f'' \<mapsto> new_lock 0 tok home_details]"
    using c(3) unfolding dl create_spec_def x Let_def by (auto simp: can_place_def home_details_def)
qed (simp_all add: cache_ok_def meta_coherent_empty sample_dav_def db_up_def sample_env_def)

lemma sample_paths:
  "stripPrefix sample_env (UrlPath sample_request) = Inr ''/f''" "JoinPath (envUser sample_env) ''/f'' = Inr ''/home/f''"
  "path_dir ''/home/f'' = ''/home''" "slashClean ''/f'' = ''/f''" "''/home/f'' \<notin> set (chain ''/f'')"
  by code_simp+


theorem delete_ignores_lock_witness:
  "\<exists>st' l. serve_write sample_env sample_request sample_dav = Some (Inr 204, st') \<and> dlog st' = dlog sample_dav @ [FsRemove ''/home/f''] \<and>
     locks (dlocks st') ''/home/f'' = Some l"
proof -
  obtain tok where tab: "locks (dlocks sample_dav) = [''/home/f'' \<mapsto> new_lock 0 tok home_details]" using sample_dav(5) by blast
  have l: "locks (dlocks sample_dav) ''/home/f'' = Some (new_lock 0 tok home_details)" by (simp add: tab)
  have "\<exists>st'. serve_write sample_env sample_request sample_dav = Some (Inr 204, st') \<and>
      dlog st' = dlog sample_dav @ [FsRemove ''/home/f''] \<and> locks (dlocks st') ''/home/f'' = Some (new_lock 0 tok home_details)"
  proof (rule delete_ignores_lock [where isDir = False, OF sample_dav(4,3,1,2) _ _ sample_paths(1) _ sample_paths(2) l])
    show "\<forall>x l. locks (dlocks sample_dav) x = Some l \<longrightarrow> \<not> covers l x (slashClean ''/f'')"
      using sample_paths(4,5) by (auto simp: tab covers_def)
    show "may_write sample_env (path_dir ''/home/f'')"
      unfolding sample_paths(3) by code_simp
    show "CanRemove (Permission (envUser sample_env))" by code_simp
  qed (simp_all add: sample_request_def sample_env_def new_lock_def home_details_def infiniteTimeout_def expired_def)
  then show ?thesis by blast
qed

theorem webdav_locks_given_back_witness:
  "\<exists>res st'. serve_write sample_env sample_request sample_dav = Some (res, st') \<and>
     locks (dlocks sample_dav) ''/home/f'' \<noteq> None \<and> locks (dlocks st') ''/home/f'' = locks (dlocks sample_dav) ''/home/f''"
proof -
  have w: "Method sample_request \<in> write_methods" by (simp add: sample_request_def write_methods_def)
  obtain res st' where r: "serve_write sample_env sample_request sample_dav = Some (res, st')"
    by (rule serve_write_result [OF sample_dav(4,3,1,2) w])
  obtain tok where tab: "locks (dlocks sample_dav) ''/home/f'' = Some (new_lock 0 tok home_details)" using sample_dav(5) by auto
  moreover have "\<not> expired (clock sample_env n) (new_lock 0 tok home_details)" for n
    by (simp add: new_lock_def home_details_def infiniteTimeout_def expired_def)
  ultimately have "locks (dlocks st') ''/home/f'' = Some (new_lock 0 tok home_details)"
    using webdav_locks_given_back [OF sample_dav(4,3,1,2) w r] by blast
  then show ?thesis using r tab by auto
qed

end
