(* ===== verification/Spec2Isabelle.thy ===== *)
theory Spec2Isabelle
  imports Paths Http_Range Users Access Signing Map_Of_Proofs Storage_Properties Op_Fs_Properties Hash_Writer Window Session_Properties Url_Tree_Ops If_Grammar Webdav_Writes
begin

text \<open>
  A verification library for the Go server Xiaoya BYOA, a fork of OpenList: a file server that
  mounts remote drives below one tree of paths and serves them over HTTP and WebDAV. This header
  says what is modelled, where, and what is proved.

  \<^bold>\<open>The program and its parts.\<close> A request carries a path and a user. The path is cleaned and joined to the
  user's base path (\<open>pkg/utils/path.go\<close>, \<open>internal/model/user.go\<close>); the access rules attached to
  folders decide whether the user may see it (\<open>server/common/check.go\<close>, \<open>internal/op/meta.go\<close>); the mount
  table maps it to a storage and a path inside it, or to a virtual folder (\<open>internal/op/storage.go\<close>,
  \<open>internal/op/path.go\<close>); storages are created, changed and removed while the server runs. The operations on the files of a storage
  (\<open>internal/op/fs.go\<close>) go through a cache of listings (\<open>internal/op/cache.go\<close>). Downloads go through signed links (\<open>pkg/sign\<close>, \<open>internal/sign\<close>,
  \<open>server/middlewares/down.go\<close>) and byte ranges (\<open>pkg/http_range\<close>). Uploads in parts belong to sessions
  (\<open>internal/multipart/session.go\<close>), each with a sliding window (\<open>internal/multipart/window.go\<close>) between the requests that
  bring chunks and the driver that reads them; uploads are hashed into torrent files (\<open>pkg/torrent\<close>). WebDAV
  requests (\<open>server/webdav/webdav.go\<close>) confirm locks (\<open>server/webdav/lock.go\<close>, \<open>server/webdav/if.go\<close>) before they change
  anything. Storages are drivers; the URL tree driver
  (\<open>drivers/url_tree\<close>) is one that holds its whole state itself.

  \<^bold>\<open>Theories.\<close>
  \<^item> \<open>Go_Prelude\<close>: Go strings as byte lists, the functions of \<open>strings\<close>, \<open>strconv\<close> and \<open>net/textproto\<close> that the
    sources call, results with errors, 64-bit wrap-around. \<open>Go_Path\<close>: the package \<open>path\<close>, and cleaned paths as
    lists of components. \<open>Go_Heap\<close>: the package \<open>container/heap\<close> over an interface (locale \<open>heap_interface\<close>).
  \<^item> \<open>Paths\<close>: path helpers. Joined paths stay below their base (this is what keeps a user inside the base path),
    cleaning is idempotent, the subpath test is an order, the list of ancestors. The locale on path orders collects
    what the access rules and the mount table need of it.
  \<^item> \<open>Http_Range\<close>: parsing and printing of range headers; accepted ranges lie inside the content, round trips.
  \<^item> \<open>Users\<close>: the user record, the permission bits, password hashing with the hash function as a parameter.
  \<^item> \<open>Access\<close>: the access decision, characterised exactly; folder passwords guard subtrees; the cached metadata
    operations answer what the database holds.
  \<^item> \<open>Signing\<close>: signed links verify exactly within their lifetime; the download gate lets only signed requests
    through to protected paths. The message authentication code is a parameter.
  \<^item> \<open>Map_Of\<close>, \<open>Map_Of_Proofs\<close>: the map \<open>generic_sync.MapOf\<close> (\<open>pkg/generic_sync/map.go\<close>) that holds the mount table: its read and dirty parts
    with the entries they share. Each method keeps the invariant that relates them; an interface of maps (locale
    \<open>map_implementation\<close>) has this map and the association list of the mount table as implementations, so both give the same answers.
  \<^item> \<open>Storages\<close>: the mount table: deepest mount point, fair round robin, the path inside a storage, virtual folders.
  \<^item> \<open>Storage_Admin\<close>, \<open>Storage_Mounts\<close>, \<open>Storage_Properties\<close>: the life of storages against the rows of the database, loading at start and
    reloading. The table serves exactly the enabled rows after every request except after a listed set of answers; a restart
    gives the same mounts; an update cannot disable a mounted storage.
  \<^item> \<open>Dir_Cache\<close>, \<open>Dir_Cache_Proofs\<close>, \<open>Op_Fs\<close>, \<open>Op_Fs_Proofs\<close>, \<open>Op_Fs_Properties\<close>: objects, cached listings and the operations on the files of a
    storage over a driver whose calls are recorded. Listings show the changes made to them, eviction is exact, folders are made from
    the outside in, removals leave the cache; where the cache or an upload keeps what it should not.
  \<^item> \<open>Bencode\<close>, \<open>Torrent\<close>, \<open>Hash_Writer\<close>: the bencode codec, torrent files with the content digests, the writer that computes
    digests of slices and pieces however the data is cut, and the generators built on them.
  \<^item> \<open>Window\<close>: the upload window as a step relation over its critical sections, with the copies outside the lock as
    separate steps: whatever the interleaving, the reader receives the acknowledged chunks in order; resent chunks;
    progress; the status report.
  \<^item> \<open>Session\<close>, \<open>Session_Invariant\<close>, \<open>Session_Properties\<close>: the sessions of uploads: the manager with its maps, the attempts of
    each session and their windows as a step relation over the critical sections of the requests, the pipeline and
    the collector. The maps agree and a session has at most one running attempt under every interleaving; a resumed upload
    is the caller's own; who waits in \<open>Complete\<close> waits for a running attempt that has all its data.
  \<^item> \<open>Url_Tree\<close>, \<open>Url_Tree_Text\<close>, \<open>Url_Tree_Ops\<close>: the URL tree driver: the tree and its operations, printing and parsing are
    inverse on the trees that survive the line format, every write keeps such a tree and its text in step, added
    links are found; \<open>Put\<close> loses the level of its node.
  \<^item> \<open>Webdav_Lock\<close>, \<open>Webdav_Lock_Proofs\<close>, \<open>Lock_Table\<close>, \<open>Lock_System\<close>, \<open>Lock_Properties\<close>: the WebDAV lock system with a store of
    shared nodes, its reference counts and its expiry heap; an abstract table of locks that every operation
    implements (locale \<open>lock_system\<close>), no panics, no overlapping locks, exclusive access while a claim is held.
  \<^item> \<open>If_Header\<close>, \<open>If_Grammar\<close>: the lexer and parser of the \<open>If\<close> header, with a round trip against a printer; the grammar of the
    header, whose texts are exactly what the parser accepts.
  \<^item> \<open>Webdav_Handler\<close>, \<open>Webdav_Writes\<close>: the handlers of the methods that write or lock, as clients of the lock system and the access
    rules. Each handler is one function on the state; two rules per step, on the calls made and on the lock table, carry
    the proofs. Only calls the user may make reach the file system, except that a request that names the
    base path of the user acts in the folder above it; the lock table is given back, and the lock of a user with
    a base path protects nothing. Interleavings of lock operations are the subject of \<open>Lock_Properties\<close>.

  \<^bold>\<open>Conventions.\<close> Definitions carry the Go names. A Go error is a constructor of an error type on the left of a sum, a
  panic is \<open>None\<close> of an option where a function can panic. Machine integers are integers with their range or
  \<open>wrap64\<close> written out. Code outside the repository (hash functions, the regular expression engine, the HTTP request
  for a size, the database, \<open>url.Parse\<close>), the clock, and the methods of a driver, and the file system layer and XML bodies of the WebDAV server
  are parameters, and what is assumed of them is a hypothesis of the theorem.

  \<^bold>\<open>Fuel and bounds.\<close> The bencode decoder gets twice the length of its input plus two, and it is proved that
  this is never used up; trimming white space gets the length of the string; \<open>collectExpiredNodes\<close> gets the length of the
  heap, which each round shortens; \<open>deleteDirectoryTree\<close> gets one more than the number of cached listings, each level
  taking one out, and its result is characterised exactly; \<open>HashWriter_Write\<close> is a partial function that is proved to return for positive
  sizes. All other functions end by structural recursion or a measure.

  \<^bold>\<open>Not modelled.\<close> The drivers of remote services, which consist of calls to those services; the XML codec of
  the WebDAV server, a copy of the one in the Go library; start-up, configuration and logging; the front end. Of the modelled
  parts: Unicode lower-casing in \<open>Ext\<close>, the WebAuthn credential list, paged database listings, opening
  files by name in the torrent generator; interleavings inside the methods of \<open>MapOf\<close>, each of which is one step; the WebDAV methods that only read (\<open>handlePropfind\<close>, \<open>walkFS\<close>, \<open>handleGetHeadPost\<close>), whose
  answers are XML documents and streams; links with their reference counts, update hooks, and calls that share one result, in
  \<open>internal/op/fs.go\<close>; memory shared between a cached listing and its callers; the HTTP layer of the sessions
  (\<open>server/handles/multipart.go\<close>); the offline index.
\<close>

end
